(* ===== verification/Prelude.thy ===== *)
theory Prelude
  imports Main "HOL-Library.Word" "HOL-Library.List_Lexorder"
begin

text \<open>
  Shared vocabulary of the worker-kit development: what a Rust computation can end in
  (a value or a panic), Rust strings as lists of Unicode scalar values, machine
  integers, and the generic list lemmas the components share.

  \<^item> A Rust function that can panic returns \<open>panic + 'a\<close>; \<open>Inl\<close> is the panic.
  \<^item> A \<open>String\<close> or \<open>&str\<close> is the list of its \<open>chars()\<close>, each a Unicode scalar value
    (\<open>ustr\<close>); \<open>str_len\<close> is Rust's \<open>len()\<close>, the number of UTF-8 bytes. The order of Rust
    strings (bytewise) is the lexicographic order of the scalar values, which is the
    order \<open>HOL-Library.List_Lexorder\<close> puts on \<open>nat list\<close>.
  \<^item> \<open>u32\<close>, \<open>u64\<close> are words: their \<open>+\<close> and \<open>*\<close> wrap, as \<open>wrapping_add\<close>,
    \<open>wrapping_mul\<close> and the atomics' \<open>fetch_add\<close> do.
\<close>

named_theorems model_defs \<open>definitions of the model that case analyses unfold\<close>
named_theorems frame_simps \<open>fields an operation leaves as they are\<close>

unbundle bit_operations_syntax

section \<open>Machine integers\<close>

type_synonym u32 = "32 word"
type_synonym u64 = "64 word"

text \<open>\<open>u64::saturating_sub\<close>.\<close>

definition saturating_sub :: "u64 \<Rightarrow> u64 \<Rightarrow> u64" where
  "saturating_sub a b = (if a < b then 0 else a - b)"

section \<open>Panics\<close>

text \<open>
  The panics that the modelled code can raise or let through:
  \<open>Time_overflow\<close> (\<open>SystemTime + Duration\<close> out of range), \<open>Float_secs\<close>
  (\<open>Duration::from_secs_f64\<close> of a negative, too large or NaN value),
  \<open>Date_range\<close> (chrono's conversion of a \<open>SystemTime\<close> out of its range) and
  \<open>User_panic\<close> (raised by a job closure, an error hook or a callback).
\<close>

datatype panic = Time_overflow | Float_secs | Date_range | User_panic

type_synonym 'a res = "panic + 'a"

text \<open>Sequencing of panicking pure computations: a panic skips the rest.\<close>

definition bind_res :: "'a res \<Rightarrow> ('a \<Rightarrow> 'b res) \<Rightarrow> 'b res" where
  "bind_res r f = (case r of Inl p \<Rightarrow> Inl p | Inr x \<Rightarrow> f x)"

section \<open>Strings\<close>

type_synonym ustr = "nat list"

text \<open>A string literal of the source (all of them are ASCII).\<close>

definition lit :: "string \<Rightarrow> ustr" where
  "lit s = map of_char s"

text \<open>UTF-8 width of one scalar value, and \<open>str::len\<close>.\<close>

definition utf8_width :: "nat \<Rightarrow> nat" where
  "utf8_width c = (if c < 128 then 1 else if c < 2048 then 2 else if c < 65536 then 3 else 4)"

definition str_len :: "ustr \<Rightarrow> nat" where
  "str_len s = sum_list (map utf8_width s)"

definition is_ascii_lowercase :: "nat \<Rightarrow> bool" where
  "is_ascii_lowercase c \<longleftrightarrow> 97 \<le> c \<and> c \<le> 122"

definition is_ascii_digit :: "nat \<Rightarrow> bool" where
  "is_ascii_digit c \<longleftrightarrow> 48 \<le> c \<and> c \<le> 57"

text \<open>Decimal digits, as \<open>{}\<close> prints an unsigned integer.\<close>

fun decimal :: "nat \<Rightarrow> ustr" where
  "decimal n = (if n < 10 then [48 + n] else decimal (n div 10) @ [48 + n mod 10])"

declare decimal.simps [simp del]

text \<open>The number a string of digits denotes.\<close>

definition digits_value :: "ustr \<Rightarrow> nat" where
  "digits_value ds = fold (\<lambda>c acc. acc * 10 + (c - 48)) ds 0"

section \<open>Lemmas\<close>

lemma bind_res_simps [simp]:
  "bind_res (Inl p) f = Inl p"
  "bind_res (Inr x) f = f x"
  by (simp_all add: bind_res_def)

lemma bind_res_eq_Inr_iff:
  "bind_res r f = Inr y \<longleftrightarrow> (\<exists>x. r = Inr x \<and> f x = Inr y)"
  by (cases r) auto

lemma bind_res_eq_Inl_iff:
  "bind_res r f = Inl p \<longleftrightarrow> r = Inl p \<or> (\<exists>x. r = Inr x \<and> f x = Inl p)"
  by (cases r) auto

lemma str_len_ascii: "\<forall>c \<in> set s. c < 128 \<Longrightarrow> str_len s = length s"
  by (induction s) (auto simp: str_len_def utf8_width_def)

lemma length_le_str_len: "length s \<le> str_len s"
  by (induction s) (auto simp: str_len_def utf8_width_def)

lemma unat_saturating_sub: "unat (saturating_sub a b) = unat a - unat b"
  by (simp add: saturating_sub_def unat_sub_if' word_less_nat_alt)

text \<open>A stable sort by key keeps every element once and keeps the order of equal keys.\<close>

lemma map_key_sorted: "sorted (map f (sort_key f xs))"
  by simp

lemma stable_sort_group: "[x\<leftarrow>sort_key f xs. f x = k] = [x\<leftarrow>xs. f x = k]"
  by (rule sort_key_stable)

lemma fold_word_count:
  "fold (\<lambda>x c. if P x then c + 1 else c) xs (c :: 'w::len word) =
     c + of_nat (length (filter P xs))"
  by (induction xs arbitrary: c) auto

lemma decimal_value: "digits_value (decimal n) = n"
proof (induction n rule: decimal.induct)
  case (1 n)
  show ?case
  proof (cases "n < 10")
    case True
    then show ?thesis by (simp add: decimal.simps [of n] digits_value_def)
  next
    case False
    with 1 show ?thesis by (simp add: decimal.simps [of n] digits_value_def)
  qed
qed

lemma inj_decimal: "inj decimal"
  by (rule injI) (metis decimal_value)

lemma decimal_is_digit: "c \<in> set (decimal n) \<Longrightarrow> is_ascii_digit c"
proof (induction n rule: decimal.induct)
  case (1 n)
  then show ?case
    by (cases "n < 10") (auto simp: decimal.simps [of n] is_ascii_digit_def)
qed

lemma decimal_not_Nil [simp]: "decimal n \<noteq> []"
  by (subst decimal.simps) simp

section \<open>Invariants of step relations\<close>

text \<open>A property of states that every step keeps holds along every run.\<close>

locale step_invariant =
  fixes step :: "'s \<Rightarrow> 's \<Rightarrow> bool"
    and inv :: "'s \<Rightarrow> bool"
  assumes preserved: "step s s' \<Longrightarrow> inv s \<Longrightarrow> inv s'"
begin

lemma kept: "step\<^sup>*\<^sup>* s s' \<Longrightarrow> inv s \<Longrightarrow> inv s'"
  by (induction rule: rtranclp_induct) (auto intro: preserved)

end

end
