(* ===== verification/Errors.thy ===== *)
theory Errors
  imports Prelude
begin

text \<open>
  \<open>src/error.rs\<close>: job-name validation, the error type of job closures and the typed
  registration errors. A \<open>Box<dyn Error>\<close> is represented by the text its \<open>Display\<close>
  prints, the only thing the crate ever asks of it; the error value of the \<open>cron\<close> crate
  stays abstract (the type variable of \<open>register_error\<close>).

  The messages of the registration errors quote the rejected text in its \<open>Debug\<close> form.
  Which scalar values that form prints as they are is decided by the Unicode tables of
  \<open>std\<close>, here a predicate argument (\<open>plain\<close>); the rest of the escaping is written out.
\<close>

section \<open>Names\<close>

definition name_max_len :: nat where
  "name_max_len = 64"

definition is_valid_name :: "ustr \<Rightarrow> bool" where
  "is_valid_name name \<longleftrightarrow>
     name \<noteq> [] \<and> str_len name \<le> name_max_len \<and>
     list_all (\<lambda>c. is_ascii_lowercase c \<or> is_ascii_digit c \<or>
       c = of_char (CHR ''_'') \<or> c = of_char (CHR ''.'') \<or> c = of_char (CHR ''-'')) name"

section \<open>Errors\<close>

record job_error =
  inner :: ustr

definition job_error_new :: "ustr \<Rightarrow> job_error" where
  "job_error_new err = \<lparr>inner = err\<rparr>"

definition job_error_msg :: "ustr \<Rightarrow> job_error" where
  "job_error_msg msg = \<lparr>inner = msg\<rparr>"

definition job_error_from :: "ustr \<Rightarrow> job_error" where
  "job_error_from err = \<lparr>inner = err\<rparr>"

definition into_inner :: "job_error \<Rightarrow> ustr" where
  "into_inner e = inner e"

definition job_error_to_string :: "job_error \<Rightarrow> ustr" where
  "job_error_to_string e = inner e"

datatype 'e register_error = InvalidName ustr | InvalidCron ustr 'e

section \<open>Messages\<close>

text \<open>Lower-case hexadecimal, \<open>char::escape_debug\<close> and \<open>Debug\<close> of a string.\<close>

definition hex_digit :: "nat \<Rightarrow> nat" where
  "hex_digit n = (if n < 10 then 48 + n else 87 + n)"

fun hex :: "nat \<Rightarrow> ustr" where
  "hex n = (if n < 16 then [hex_digit n] else hex (n div 16) @ [hex_digit (n mod 16)])"

declare hex.simps [simp del]

definition escape_debug :: "(nat \<Rightarrow> bool) \<Rightarrow> nat \<Rightarrow> ustr" where
  "escape_debug plain c =
     (if c = 0 then [92, 48] else if c = 9 then [92, 116] else if c = 13 then [92, 114]
      else if c = 10 then [92, 110] else if c = 34 then [92, 34] else if c = 92 then [92, 92]
      else if plain c then [c] else [92, 117, 123] @ hex c @ [125])"

definition debug_str :: "(nat \<Rightarrow> bool) \<Rightarrow> ustr \<Rightarrow> ustr" where
  "debug_str plain s = 34 # concat (map (escape_debug plain) s) @ [34]"

fun register_error_display :: "(nat \<Rightarrow> bool) \<Rightarrow> 'e register_error \<Rightarrow> ustr" where
  "register_error_display plain (InvalidName name) =
     lit ''invalid job name '' @ debug_str plain name @ lit '': must be 1..='' @ decimal name_max_len @
     lit '' chars of [a-z0-9_.-]''"
| "register_error_display plain (InvalidCron expr source) =
     lit ''invalid cron expression '' @ debug_str plain expr"

text \<open>What a message is about: the kind of the error and the rejected text.\<close>

fun rejected_text :: "'e register_error \<Rightarrow> bool \<times> ustr" where
  "rejected_text (InvalidName name) = (True, name)"
| "rejected_text (InvalidCron expr _) = (False, expr)"

definition hex_value :: "ustr \<Rightarrow> nat" where
  "hex_value ds = fold (\<lambda>c acc. acc * 16 + (if c < 58 then c - 48 else c - 87)) ds 0"

lemma hex_value_hex: "hex_value (hex n) = n"
proof (induction n rule: hex.induct)
  case (1 n)
  show ?case
  proof (cases "n < 16")
    case True
    then show ?thesis by (simp add: hex.simps [of n] hex_value_def hex_digit_def)
  next
    case False
    have "hex_digit (n mod 16) < 58 \<longleftrightarrow> n mod 16 < 10" by (simp add: hex_digit_def)
    with 1 False show ?thesis by (simp add: hex.simps [of n] hex_value_def) (simp add: hex_digit_def)
  qed
qed

lemma hex_no_brace: "125 \<notin> set (hex n)"
proof (induction n rule: hex.induct)
  case (1 n)
  have "n mod 16 < 16" by simp
  with 1 show ?case by (auto simp: hex.simps [of n] hex_digit_def split: if_splits)
qed

lemma hex_brace_inj: "hex m @ 125 # xs = hex n @ 125 # ys \<longleftrightarrow> m = n \<and> xs = ys"
proof
  assume eq: "hex m @ 125 # xs = hex n @ 125 # ys"
  have tw: "takeWhile (\<lambda>c. c \<noteq> 125) (hex k @ 125 # zs) = hex k" for k zs
    using hex_no_brace [of k] by (subst takeWhile_append2) auto
  then have "hex m = hex n" by (metis eq)
  with eq show "m = n \<and> xs = ys" by (metis append_same_eq hex_value_hex list.inject same_append_eq)
qed simp

text \<open>Escaped characters form a prefix-free code that does not contain the closing quote.\<close>

lemma escape_debug_prefix_free:
  "escape_debug plain c @ xs = escape_debug plain d @ ys \<Longrightarrow> c = d \<and> xs = ys"
  by (auto simp: escape_debug_def hex_brace_inj split: if_splits)

lemma escape_debug_hd: "escape_debug plain c @ xs \<noteq> 34 # ys"
  by (simp add: escape_debug_def)

lemma escaped_inj:
  "concat (map (escape_debug plain) s) @ 34 # xs = concat (map (escape_debug plain) t) @ 34 # ys \<Longrightarrow> s = t \<and> xs = ys"
proof (induction s arbitrary: t)
  case Nil
  then show ?case by (cases t) (auto simp: escape_debug_hd [symmetric])
next
  case (Cons c s)
  then obtain d t' where t: "t = d # t'" by (cases t) (auto simp: escape_debug_hd)
  have "c = d \<and> concat (map (escape_debug plain) s) @ 34 # xs = concat (map (escape_debug plain) t') @ 34 # ys"
    using Cons.prems by (intro escape_debug_prefix_free) (simp add: t)
  with Cons.IH t show ?case by blast
qed

section \<open>The accepted names\<close>

text \<open>The 39 characters of \<open>[a-z0-9_.-]\<close>, written out.\<close>

definition name_chars :: "ustr" where
  "name_chars = lit ''abcdefghijklmnopqrstuvwxyz0123456789_.-''"

lemma name_chars_eq: "name_chars = [97..<123] @ [48..<58] @ [95, 46, 45]"
  by (simp add: name_chars_def lit_def upt_rec)

lemma mem_name_chars:
  "c \<in> set name_chars \<longleftrightarrow>
     is_ascii_lowercase c \<or> is_ascii_digit c \<or>
     c = of_char (CHR ''_'') \<or> c = of_char (CHR ''.'') \<or> c = of_char (CHR ''-'')"
proof -
  have "set name_chars = {97..<123} \<union> {48..<58} \<union> {95, 46, 45}"
    unfolding name_chars_eq set_append set_upt by (simp only: list.set Un_assoc)
  then show ?thesis by (auto simp: is_ascii_lowercase_def is_ascii_digit_def)
qed

lemma name_chars_ascii: "c \<in> set name_chars \<Longrightarrow> c < 128"
  by (auto simp: name_chars_eq)

lemma is_valid_name_chars:
  "is_valid_name s \<longleftrightarrow> s \<noteq> [] \<and> str_len s \<le> 64 \<and> set s \<subseteq> set name_chars"
  by (auto simp: is_valid_name_def name_max_len_def list_all_iff mem_name_chars)

lemma str_len_name: "set s \<subseteq> set name_chars \<Longrightarrow> str_len s = length s"
  using name_chars_ascii by (intro str_len_ascii) blast

section \<open>Properties\<close>

text \<open>
  C33: A name is accepted exactly when it is one of the strings of 1 to 64 characters over
  \<open>[a-z0-9_.-]\<close>: the byte count that the code compares with the limit is the character
  count on every accepted string, and no character outside the alphabet gets through.
\<close>

theorem is_valid_name_language:
  "is_valid_name s \<longleftrightarrow> length s \<in> {1..64} \<and> set s \<subseteq> set name_chars"
  using str_len_name [of s] by (auto simp: is_valid_name_chars Suc_le_eq)

text \<open>
  C34: The message of a registration error tells what was rejected: two errors print the
  same text only if they are of the same kind and reject the same name or expression,
  whatever control or Unicode characters it contains, and whatever the Unicode tables say.
\<close>

theorem register_error_message_faithful:
  fixes e e' :: "'e register_error"
  shows "register_error_display plain e = register_error_display plain e' \<longleftrightarrow> rejected_text e = rejected_text e'"
proof -
  have "s = t \<and> xs = ys" if "debug_str plain s @ xs = debug_str plain t @ ys" for s t xs ys
    using that escaped_inj [of plain s xs t ys] by (simp add: debug_str_def)
  note name = this and expr = this [where xs = "[]" and ys = "[]", simplified]
  have kinds: "lit ''invalid job name '' @ xs \<noteq> lit ''invalid cron expression '' @ ys" for xs ys
    by (simp add: lit_def)
  show ?thesis
    by (cases e; cases e') (use kinds kinds [symmetric] in \<open>auto dest: name expr\<close>)
qed

end
