(* ===== verification/Std_Time.thy ===== *)
theory Std_Time
  imports Prelude
begin

text \<open>
  The parts of \<open>std::time\<close> the crate uses. A \<open>Duration\<close> is its whole number of
  nanoseconds (\<open>secs : u64\<close> and \<open>nanos < 10^9\<close> together), bounded by \<open>Duration::MAX\<close>. A
  \<open>SystemTime\<close> is nanoseconds relative to the Unix epoch and an \<open>Instant\<close> nanoseconds on
  the monotonic clock; both have \<open>i64\<close> seconds (the Unix representation), which bounds
  them by \<open>2^63\<close> seconds on either side.
\<close>

section \<open>Duration\<close>

type_synonym duration = nat

definition nanos_per_sec :: nat where
  "nanos_per_sec = 1000000000"

definition duration_max :: duration where
  "duration_max = 2 ^ 64 * nanos_per_sec - 1"

definition duration_ok :: "duration \<Rightarrow> bool" where
  "duration_ok d \<longleftrightarrow> d \<le> duration_max"

definition from_secs :: "nat \<Rightarrow> duration" where
  "from_secs s = s * nanos_per_sec"

definition from_millis :: "nat \<Rightarrow> duration" where
  "from_millis ms = ms * 1000000"

definition from_nanos :: "u64 \<Rightarrow> duration" where
  "from_nanos n = unat n"

text \<open>\<open>d.as_nanos() as u64\<close>: the cast keeps the low 64 bits.\<close>

definition as_nanos_u64 :: "duration \<Rightarrow> u64" where
  "as_nanos_u64 d = of_nat d"

definition as_millis :: "duration \<Rightarrow> nat" where
  "as_millis d = d div 1000000"

definition is_zero :: "duration \<Rightarrow> bool" where
  "is_zero d \<longleftrightarrow> d = 0"

section \<open>SystemTime and Instant\<close>

type_synonym system_time = int
type_synonym instant = int

definition time_limit :: int where
  "time_limit = 2 ^ 63 * 1000000000"

definition system_time_ok :: "system_time \<Rightarrow> bool" where
  "system_time_ok t \<longleftrightarrow> - time_limit \<le> t \<and> t < time_limit"

text \<open>\<open>SystemTime + Duration\<close>: panics on overflow.\<close>

definition system_time_add :: "system_time \<Rightarrow> duration \<Rightarrow> system_time res" where
  "system_time_add t d =
     (if t + int d < time_limit then Inr (t + int d) else Inl Time_overflow)"

text \<open>
  \<open>SystemTime::duration_since\<close>: \<open>Ok\<close> (here \<open>Inr\<close>) of how far \<open>self\<close> is ahead of
  \<open>earlier\<close>, or \<open>Err\<close> (\<open>Inl\<close>) of how far it is behind.
\<close>

definition duration_since :: "system_time \<Rightarrow> system_time \<Rightarrow> duration + duration" where
  "duration_since self earlier =
     (if earlier \<le> self then Inr (nat (self - earlier)) else Inl (nat (earlier - self)))"

definition duration_since_or_zero :: "system_time \<Rightarrow> system_time \<Rightarrow> duration" where
  "duration_since_or_zero self earlier =
     (case duration_since self earlier of Inr d \<Rightarrow> d | Inl _ \<Rightarrow> 0)"

definition instant_checked_add :: "instant \<Rightarrow> duration \<Rightarrow> instant option" where
  "instant_checked_add t d = (if t + int d < time_limit then Some (t + int d) else None)"

definition instant_checked_sub :: "instant \<Rightarrow> duration \<Rightarrow> instant option" where
  "instant_checked_sub t d = (if - time_limit \<le> t - int d then Some (t - int d) else None)"

section \<open>Lemmas\<close>

lemma system_time_add_Inr_iff:
  "system_time_add t d = Inr t' \<longleftrightarrow> t' = t + int d \<and> t' < time_limit"
  by (auto simp: system_time_add_def)

lemma system_time_add_Inl_iff:
  "system_time_add t d = Inl p \<longleftrightarrow> p = Time_overflow \<and> time_limit \<le> t + int d"
  by (auto simp: system_time_add_def)

lemma duration_since_or_zero_eq:
  "duration_since_or_zero self earlier = nat (self - earlier)"
  by (simp add: duration_since_or_zero_def duration_since_def)

lemma duration_since_add:
  "system_time_add t d = Inr t' \<Longrightarrow> duration_since t' t = Inr d"
  by (auto simp: system_time_add_Inr_iff duration_since_def)

lemma as_nanos_u64_le: "unat (as_nanos_u64 d) \<le> d"
  by (simp add: as_nanos_u64_def unat_of_nat)

lemma as_nanos_u64_small: "d < 2 ^ 64 \<Longrightarrow> unat (as_nanos_u64 d) = d"
  by (simp add: as_nanos_u64_def unat_of_nat)

lemma duration_since_ok:
  assumes "system_time_ok a" "system_time_ok b"
  shows "duration_ok (duration_since_or_zero a b)"
proof -
  have "a - b \<le> int duration_max"
    using assms by (simp add: system_time_ok_def time_limit_def duration_max_def nanos_per_sec_def)
  then show ?thesis by (simp add: duration_since_or_zero_eq duration_ok_def)
qed

end
