(* ===== verification/Rng.thy ===== *)
theory Rng
  imports Std_Time
begin

text \<open>
  \<open>src/rng.rs\<close>: the SplitMix64 generator and the \<open>JitterSource\<close> trait. The trait's
  required method \<open>next_u64(&mut self)\<close> is a function from the source's state to a draw and
  the next state; \<open>random_range\<close> is the trait's provided method over it.
\<close>

section \<open>SplitMix64\<close>

record split_mix64 =
  sm_state :: u64

definition split_mix64_new :: "u64 \<Rightarrow> split_mix64" where
  "split_mix64_new seed = \<lparr>sm_state = seed\<rparr>"

definition split_mix64_next_u64 :: "split_mix64 \<Rightarrow> u64 \<times> split_mix64" where
  "split_mix64_next_u64 self =
     (let s = sm_state self + 0x9E3779B97F4A7C15;
          z = s;
          z = (z XOR drop_bit 30 z) * 0xBF58476D1CE4E5B9;
          z = (z XOR drop_bit 27 z) * 0x94D049BB133111EB
      in (z XOR drop_bit 31 z, self\<lparr>sm_state := s\<rparr>))"

section \<open>JitterSource\<close>

definition random_range ::
    "('s \<Rightarrow> u64 \<times> 's) \<Rightarrow> duration \<Rightarrow> duration \<Rightarrow> 's \<Rightarrow> duration \<times> 's" where
  "random_range next_u64 range_start range_end self =
     (let lo = as_nanos_u64 range_start;
          hi = as_nanos_u64 range_end;
          (draw, self') = next_u64 self;
          span = saturating_sub hi lo;
          nanos = lo + (if span = - 1 then draw else draw mod (span + 1))
      in (from_nanos nanos, self'))"

section \<open>The output function is a permutation\<close>

text \<open>The finalizer applied to a state, and the state after \<open>n\<close> draws.\<close>

definition finalize :: "u64 \<Rightarrow> u64" where
  "finalize s =
     (let z = (s XOR drop_bit 30 s) * 0xBF58476D1CE4E5B9;
          z = (z XOR drop_bit 27 z) * 0x94D049BB133111EB
      in z XOR drop_bit 31 z)"

fun draws :: "('s \<Rightarrow> 'a \<times> 's) \<Rightarrow> nat \<Rightarrow> 's \<Rightarrow> 'a list \<times> 's" where
  "draws f 0 s = ([], s)"
| "draws f (Suc n) s =
     (let (x, s') = f s; (xs, s'') = draws f n s' in (x # xs, s''))"

lemma next_u64_eq:
  "split_mix64_next_u64 s =
     (finalize (sm_state s + 0x9E3779B97F4A7C15),
      \<lparr>sm_state = sm_state s + 0x9E3779B97F4A7C15\<rparr>)"
  by (cases s) (simp add: split_mix64_next_u64_def finalize_def Let_def)

lemma bit_word_beyond: "LENGTH('a) \<le> n \<Longrightarrow> \<not> bit (w :: 'a::len word) n"
  by (auto dest: bit_imp_le_length)

lemma drop_bit_fixpoint_zero:
  fixes d :: "'a::len word"
  assumes fix_d: "drop_bit k d = d" and k: "0 < k"
  shows "d = 0"
proof -
  have step: "bit d n \<longleftrightarrow> bit d (n + k)" for n
    using arg_cong [OF fix_d, of "\<lambda>w. bit w n"] by (simp add: bit_drop_bit_eq add.commute)
  have "bit d n \<longleftrightarrow> bit d (n + j * k)" for n j
    by (induction j arbitrary: n) (use step in \<open>auto simp: add.assoc [symmetric] add.commute add.left_commute\<close>)
  moreover have "\<not> bit d (n + LENGTH('a) * k)" for n
  proof -
    have "LENGTH('a) * 1 \<le> LENGTH('a) * k" using k by (intro mult_le_mono2) simp
    then have "LENGTH('a) \<le> n + LENGTH('a) * k" by linarith
    then show ?thesis by (rule bit_word_beyond)
  qed
  ultimately have "\<not> bit d n" for n by blast
  then show "d = 0" by (intro bit_word_eqI) simp
qed

lemma inj_xor_drop_bit:
  assumes "0 < k"
  shows "inj (\<lambda>x :: 'a::len word. x XOR drop_bit k x)"
proof (rule injI)
  fix x y :: "'a word"
  assume eq: "x XOR drop_bit k x = y XOR drop_bit k y"
  have "drop_bit k (x XOR y) = (x XOR drop_bit k x) XOR (y XOR drop_bit k y) XOR (x XOR y)"
    by (simp add: drop_bit_xor xor.assoc xor.left_commute xor.commute)
  also have "\<dots> = x XOR y" by (simp add: eq)
  finally have "x XOR y = 0" using assms by (rule drop_bit_fixpoint_zero)
  then have "(x XOR y) XOR y = 0 XOR y" by simp
  then show "x = y" by (simp add: xor.assoc)
qed

lemma inj_mult_unit:
  fixes a b :: "'a::len word"
  assumes "a * b = 1"
  shows "inj (\<lambda>x. x * a)"
proof (rule injI)
  fix x y :: "'a word"
  assume "x * a = y * a"
  then have "x * (a * b) = y * (a * b)" by (simp add: mult.assoc [symmetric])
  with assms show "x = y" by simp
qed

lemma inj_finalize: "inj finalize"
proof -
  have c1: "inj (\<lambda>x :: u64. x * 0xBF58476D1CE4E5B9)"
    by (rule inj_mult_unit [where b = "0x96DE1B173F119089"]) simp
  have c2: "inj (\<lambda>x :: u64. x * 0x94D049BB133111EB)"
    by (rule inj_mult_unit [where b = "0x319642B2D24D8EC3"]) simp
  have eq: "finalize = (\<lambda>x. x XOR drop_bit 31 x) \<circ> (\<lambda>x. x * 0x94D049BB133111EB) \<circ>
      (\<lambda>x. x XOR drop_bit 27 x) \<circ> (\<lambda>x. x * 0xBF58476D1CE4E5B9) \<circ> (\<lambda>x. x XOR drop_bit 30 x)"
    by (simp add: fun_eq_iff finalize_def Let_def)
  show ?thesis unfolding eq
    by (intro inj_compose c1 c2 inj_xor_drop_bit) simp_all
qed

lemma draws_split_mix64:
  "draws split_mix64_next_u64 n s =
     (map (\<lambda>i. finalize (sm_state s + of_nat (Suc i) * 0x9E3779B97F4A7C15)) [0..<n],
      \<lparr>sm_state = sm_state s + of_nat n * 0x9E3779B97F4A7C15\<rparr>)"
proof (induction n arbitrary: s)
  case 0
  then show ?case by simp
next
  case (Suc n)
  have "[0..<Suc n] = 0 # map Suc [0..<n]"
    by (simp add: upt_conv_Cons map_Suc_upt del: upt_Suc)
  then show ?case
    by (simp add: Suc.IH next_u64_eq [of s] algebra_simps del: upt_Suc)
qed

lemma inj_on_state_step:
  "inj_on (\<lambda>i. s + of_nat i * 0x9E3779B97F4A7C15 :: u64) {..< 2 ^ 64}"
proof (rule inj_onI)
  fix i j :: nat
  assume ij: "i \<in> {..< 2 ^ 64}" "j \<in> {..< 2 ^ 64}"
    and eq: "s + of_nat i * 0x9E3779B97F4A7C15 = s + (of_nat j * 0x9E3779B97F4A7C15 :: u64)"
  have "inj (\<lambda>x :: u64. x * 0x9E3779B97F4A7C15)"
    by (rule inj_mult_unit [where b = "0xF1DE83E19937733D"]) simp
  then have "(of_nat i :: u64) = of_nat j" by (rule injD) (use eq in simp)
  then have "unat (of_nat i :: u64) = unat (of_nat j :: u64)" by simp
  with ij show "i = j" by (simp add: unat_of_nat)
qed

lemma inj_on_draw:
  "inj_on (\<lambda>i. finalize (s + of_nat (Suc i) * 0x9E3779B97F4A7C15)) {..< 2 ^ 64}"
proof -
  have "s + of_nat (Suc i) * 0x9E3779B97F4A7C15 =
      (s + 0x9E3779B97F4A7C15) + of_nat i * 0x9E3779B97F4A7C15" for i
    by (simp add: algebra_simps)
  then have "(\<lambda>i. finalize (s + of_nat (Suc i) * 0x9E3779B97F4A7C15)) =
      finalize \<circ> (\<lambda>i. (s + 0x9E3779B97F4A7C15) + of_nat i * 0x9E3779B97F4A7C15)"
    by (simp only: comp_def)
  then show ?thesis
    using inj_on_state_step inj_finalize by (simp only:) (blast intro: comp_inj_on inj_on_subset)
qed

lemma full_period:
  assumes n: "n = 2 ^ 64"
  shows "distinct (fst (draws split_mix64_next_u64 n s)) \<and>
    set (fst (draws split_mix64_next_u64 n s)) = UNIV \<and>
    snd (draws split_mix64_next_u64 n s) = s"
proof (intro conjI)
  let ?f = "\<lambda>i. finalize (sm_state s + of_nat (Suc i) * 0x9E3779B97F4A7C15)"
  have inj: "inj_on ?f {..< n}" unfolding n by (rule inj_on_draw)
  then show "distinct (fst (draws split_mix64_next_u64 n s))"
    by (simp add: draws_split_mix64 distinct_map atLeast0LessThan)
  have "card (?f ` {..< n}) = CARD(u64)"
    by (subst card_image [OF inj]) (simp add: n card_word)
  then have "?f ` {..< n} = UNIV"
    by (intro card_subset_eq) simp_all
  then show "set (fst (draws split_mix64_next_u64 n s)) = UNIV"
    by (simp add: draws_split_mix64 atLeast0LessThan)
  have "(of_nat n :: u64) = 0" unfolding n by simp
  then show "snd (draws split_mix64_next_u64 n s) = s"
    by (cases s) (simp add: draws_split_mix64)
qed

section \<open>The bound of a ranged draw\<close>

text \<open>
  The contract the scheduler relies on, as an interface: the \<open>random_range\<close> method of a
  \<open>JitterSource\<close>, whose draw from \<open>[0, w]\<close> never exceeds \<open>w\<close>.
\<close>

locale bounded_source =
  fixes random_range_m :: "duration \<Rightarrow> duration \<Rightarrow> 's \<Rightarrow> duration \<times> 's"
  assumes random_range_m_le: "fst (random_range_m 0 w s) \<le> w"

lemma unat_span_mod:
  fixes span draw :: u64
  shows "unat (if span = - 1 then draw else draw mod (span + 1)) = unat draw mod (unat span + 1)"
proof (cases "span = - 1")
  case True
  have "(- 1 :: u64) = 0xFFFFFFFFFFFFFFFF" by simp
  then have "unat (- 1 :: u64) = 2 ^ 64 - 1" by (simp only:) simp
  moreover have "unat draw < 2 ^ 64" using unsigned_less [of draw] by simp
  ultimately show ?thesis using True by simp
next
  case False
  have "unat span \<noteq> 2 ^ 64 - 1"
  proof
    assume "unat span = 2 ^ 64 - 1"
    then have "of_nat (unat span) = (of_nat (2 ^ 64 - 1) :: u64)" by (simp only:)
    with False show False by simp
  qed
  moreover have "unat span < 2 ^ 64" using unsigned_less [of span] by simp
  ultimately have "unat (span + 1) = unat span + 1" by (simp add: unat_word_ariths)
  with False show ?thesis by (simp add: unat_mod_distrib)
qed

lemma random_range_value:
  assumes "lo \<le> hi" "hi < 2 ^ 64"
  shows "fst (random_range next_u64 lo hi s) =
     lo + unat (fst (next_u64 s)) mod (hi - lo + 1)"
proof -
  define x where "x = unat (fst (next_u64 s)) mod (hi - lo + 1)"
  have "x \<le> hi - lo" by (simp add: x_def less_Suc_eq_le [symmetric])
  then have "(lo + x) mod 2 ^ 64 = lo + x" using assms by (intro mod_less) linarith
  with assms show ?thesis unfolding x_def
    by (simp add: random_range_def Let_def split_beta from_nanos_def unat_word_ariths(1)
        unat_span_mod unat_saturating_sub as_nanos_u64_small)
qed

lemma random_range_mem:
  "lo \<le> hi \<Longrightarrow> hi < 2 ^ 64 \<Longrightarrow> fst (random_range next_u64 lo hi s) \<in> {lo..hi}"
  using mod_less_divisor [of "hi - lo + 1" "unat (fst (next_u64 s))"]
  by (simp only: random_range_value atLeastAtMost_iff) linarith

lemma word_of_nat_mod: "(of_nat (n mod 2 ^ 64) :: u64) = of_nat n"
  by (simp only: word_unat_eq_iff unat_of_nat) simp

lemma random_range_truncates:
  "random_range next_u64 lo hi s = random_range next_u64 (lo mod 2 ^ 64) (hi mod 2 ^ 64) s"
  by (simp only: random_range_def as_nanos_u64_def word_of_nat_mod)

lemma random_range_zero_le: "fst (random_range next_u64 0 hi s) \<le> hi"
proof -
  have "fst (random_range next_u64 0 hi s) = unat (fst (next_u64 s)) mod (hi mod 2 ^ 64 + 1)"
    by (subst random_range_truncates) (simp add: random_range_value)
  also have "\<dots> \<le> hi mod 2 ^ 64" by (simp add: less_Suc_eq_le [symmetric])
  finally show ?thesis using mod_less_eq_dividend [of hi "2 ^ 64"] by linarith
qed

lemma snd_random_range: "snd (random_range next_u64 lo hi s) = snd (next_u64 s)"
  by (simp add: random_range_def Let_def split_beta)

text \<open>
  The provided method keeps the contract over every \<open>next_u64\<close>, and for windows of every
  size, in particular over the built-in generator.
\<close>

interpretation provided: bounded_source "random_range next_u64" for next_u64
  by unfold_locales (rule random_range_zero_le)

section \<open>Properties\<close>

text \<open>
  A draw from \<open>[lo, hi]\<close> (bounds below \<open>2^64\<close> ns, about 584 years) stays in the range,
  for every implementation of the trait, and takes the source exactly one step; and no
  value of the range is out of reach, since the draw whose raw bits are \<open>v - lo\<close> is \<open>v\<close>.
\<close>

lemma random_range_in_range:
  assumes "lo \<le> hi" "hi < 2 ^ 64"
  shows "fst (random_range next_u64 lo hi s) \<in> {lo..hi} \<and>
    snd (random_range next_u64 lo hi s) = snd (next_u64 s) \<and>
    (\<lambda>raw. fst (random_range (\<lambda>_. (raw, ())) lo hi ())) ` UNIV = {lo..hi}"
proof (intro conjI set_eqI iffI)
  show "fst (random_range next_u64 lo hi s) \<in> {lo..hi}"
    by (rule random_range_mem [OF assms])
next
  fix v assume "v \<in> (\<lambda>raw. fst (random_range (\<lambda>_. (raw, ())) lo hi ())) ` UNIV"
  then show "v \<in> {lo..hi}" by (elim imageE) (simp only: random_range_mem [OF assms])
next
  fix v assume v: "v \<in> {lo..hi}"
  then have "v - lo < 2 ^ 64" "v - lo < hi - lo + 1" using assms by auto
  then have "unat (of_nat (v - lo) :: u64) mod (hi - lo + 1) = v - lo"
    by (simp add: unat_of_nat del: of_nat_diff)
  with v have "fst (random_range (\<lambda>_. (of_nat (v - lo), ())) lo hi ()) = v"
    by (simp add: random_range_value [OF assms] del: of_nat_diff)
  then show "v \<in> (\<lambda>raw. fst (random_range (\<lambda>_. (raw, ())) lo hi ())) ` UNIV" by (intro image_eqI [OF sym]) simp_all
qed (rule snd_random_range)

text \<open>
  C24: The generator has full period and its output is a permutation: from any seed, the
  first \<open>2^64\<close> draws are pairwise different, so every \<open>u64\<close> is drawn exactly once before
  the sequence repeats, and \<open>2^64\<close> draws lead back to the same state.
\<close>

theorem split_mix64_full_period:
  "distinct (fst (draws split_mix64_next_u64 (2 ^ 64) s)) \<and>
   set (fst (draws split_mix64_next_u64 (2 ^ 64) s)) = UNIV \<and>
   snd (draws split_mix64_next_u64 (2 ^ 64) s) = s"
  using full_period [OF refl] .

end
