(* ===== verification/Float64.thy ===== *)
theory Float64
  imports Complex_Main Std_Time
begin

text \<open>
  The \<open>f64\<close> arithmetic the crate uses, as IEEE 754 binary64 with rounding to nearest, ties
  to even. A finite value is the rational number it denotes; the sign of a zero is not
  represented, since nothing in the crate can tell the two zeros apart. Every operation
  is the exact rational result passed through \<open>round_f64\<close>. On top of it stand the
  \<open>Duration\<close> conversions of \<open>std\<close> (\<open>as_secs_f64\<close>, \<open>from_secs_f64\<close>, \<open>mul_f64\<close>).
\<close>

section \<open>Values and rounding\<close>

datatype f64 = NaN | Inf bool | Fin rat

function bit_length :: "int \<Rightarrow> nat" where
  "bit_length n = (if n \<le> 0 then 0 else Suc (bit_length (n div 2)))"
  by pat_completeness auto
termination by (relation "measure nat") auto

declare bit_length.simps [simp del]

definition pow2 :: "int \<Rightarrow> rat" where
  "pow2 e = (if 0 \<le> e then of_int (2 ^ nat e) else 1 / of_int (2 ^ nat (- e)))"

definition floor_log2 :: "rat \<Rightarrow> int" where
  "floor_log2 x =
     (let (p, q) = quotient_of x;
          k = int (bit_length p) - int (bit_length q)
      in if pow2 k \<le> x then k else k - 1)"

definition round_half_even :: "rat \<Rightarrow> int" where
  "round_half_even x =
     (let n = \<lfloor>x\<rfloor>; r = x - of_int n
      in if r < 1 / 2 then n
         else if 1 / 2 < r then n + 1
         else if even n then n else n + 1)"

text \<open>
  The exponent of the last place of a value: 53 significant bits, and never below the
  subnormal spacing \<open>2^-1074\<close>.
\<close>

definition ulp_exp :: "rat \<Rightarrow> int" where
  "ulp_exp x = max (floor_log2 \<bar>x\<bar> - 52) (- 1074)"

definition round_f64 :: "rat \<Rightarrow> f64" where
  "round_f64 x =
     (if x = 0 then Fin 0
      else let u = pow2 (ulp_exp x);
               y = of_int (round_half_even (x / u)) * u
           in if pow2 1024 \<le> \<bar>y\<bar> then Inf (x < 0) else Fin y)"

section \<open>Operations\<close>

fun f64_mul :: "f64 \<Rightarrow> f64 \<Rightarrow> f64" where
  "f64_mul NaN _ = NaN"
| "f64_mul _ NaN = NaN"
| "f64_mul (Inf s) (Inf t) = Inf (s \<noteq> t)"
| "f64_mul (Inf s) (Fin b) = (if b = 0 then NaN else Inf (s \<noteq> (b < 0)))"
| "f64_mul (Fin a) (Inf t) = (if a = 0 then NaN else Inf ((a < 0) \<noteq> t))"
| "f64_mul (Fin a) (Fin b) = round_f64 (a * b)"

fun f64_add :: "f64 \<Rightarrow> f64 \<Rightarrow> f64" where
  "f64_add NaN _ = NaN"
| "f64_add _ NaN = NaN"
| "f64_add (Inf s) (Inf t) = (if s = t then Inf s else NaN)"
| "f64_add (Inf s) (Fin b) = Inf s"
| "f64_add (Fin a) (Inf t) = Inf t"
| "f64_add (Fin a) (Fin b) = round_f64 (a + b)"

fun f64_lt :: "f64 \<Rightarrow> f64 \<Rightarrow> bool" where
  "f64_lt NaN _ = False"
| "f64_lt _ NaN = False"
| "f64_lt (Inf s) (Inf t) = (s \<and> \<not> t)"
| "f64_lt (Inf s) (Fin b) = s"
| "f64_lt (Fin a) (Inf t) = (\<not> t)"
| "f64_lt (Fin a) (Fin b) = (a < b)"

definition f64_ge :: "f64 \<Rightarrow> f64 \<Rightarrow> bool" where
  "f64_ge a b \<longleftrightarrow> a \<noteq> NaN \<and> b \<noteq> NaN \<and> \<not> f64_lt a b"

definition is_nan :: "f64 \<Rightarrow> bool" where
  "is_nan x \<longleftrightarrow> x = NaN"

text \<open>\<open>f64::clamp(min, max)\<close> for \<open>min <= max\<close>.\<close>

definition f64_clamp :: "f64 \<Rightarrow> f64 \<Rightarrow> f64 \<Rightarrow> f64" where
  "f64_clamp x lo hi =
     (let x = (if f64_lt x lo then lo else x) in if f64_lt hi x then hi else x)"

section \<open>Durations\<close>

text \<open>\<open>(secs as f64) + (nanos as f64) / 1e9\<close>; both casts of the quotient are exact.\<close>

definition as_secs_f64 :: "duration \<Rightarrow> f64" where
  "as_secs_f64 d =
     f64_add (round_f64 (of_nat (d div nanos_per_sec)))
       (round_f64 (of_nat (d mod nanos_per_sec) / of_nat nanos_per_sec))"

text \<open>Nearest nanosecond, ties to even; a negative, NaN or \<open>>= 2^64\<close> value panics.\<close>

definition from_secs_f64 :: "f64 \<Rightarrow> duration res" where
  "from_secs_f64 secs =
     (case secs of
        Fin x \<Rightarrow> if x < 0 \<or> 2 ^ 64 \<le> x then Inl Float_secs
                 else Inr (nat (round_half_even (x * of_nat nanos_per_sec)))
      | _ \<Rightarrow> Inl Float_secs)"

definition mul_f64 :: "duration \<Rightarrow> f64 \<Rightarrow> duration res" where
  "mul_f64 self rhs = from_secs_f64 (f64_mul rhs (as_secs_f64 self))"

section \<open>Lemmas\<close>

lemma pow2_eq: "pow2 e = 2 powi e"
  by (simp add: pow2_def power_int_def field_simps power_one_over)

lemma bit_length_bounds:
  "0 < n \<Longrightarrow> 2 ^ bit_length n \<le> 2 * n \<and> n < 2 ^ bit_length n"
proof (induction n rule: bit_length.induct)
  case (1 n)
  show ?case
  proof (cases "n div 2 = 0")
    case True
    with "1.prems" have "n = 1" by linarith
    then show ?thesis by (simp add: bit_length.simps [of 1] bit_length.simps [of 0])
  next
    case False
    with "1.prems" have "0 < n div 2" by linarith
    with "1" have "2 ^ bit_length (n div 2) \<le> 2 * (n div 2) \<and> n div 2 < 2 ^ bit_length (n div 2)"
      by simp
    moreover have "bit_length n = Suc (bit_length (n div 2))"
      using "1.prems" by (simp add: bit_length.simps [of n])
    ultimately show ?thesis by simp linarith
  qed
qed

lemma bit_length_bounds_rat:
  assumes "0 < p"
  shows "2 ^ bit_length p \<le> 2 * (of_int p :: rat)" "(of_int p :: rat) < 2 ^ bit_length p"
proof -
  note b = bit_length_bounds [OF assms]
  have "(of_int (2 ^ bit_length p) :: rat) \<le> of_int (2 * p)"
    using b by (simp only: of_int_le_iff)
  then show "2 ^ bit_length p \<le> 2 * (of_int p :: rat)" by simp
  have "(of_int p :: rat) < of_int (2 ^ bit_length p)"
    using b by (simp only: of_int_less_iff)
  then show "(of_int p :: rat) < 2 ^ bit_length p" by simp
qed

lemma powi_add: "(2 :: rat) powi (a + b) = 2 powi a * 2 powi b"
  by (simp add: power_int_add)

lemma powi_diff: "(2 :: rat) powi (a - b) = 2 powi a / 2 powi b"
  by (simp add: power_int_diff)

lemma floor_log2_bounds:
  assumes "0 < x"
  shows "2 powi floor_log2 x \<le> x \<and> x < 2 * 2 powi floor_log2 x"
proof -
  obtain p q where pq: "quotient_of x = (p, q)" by force
  have q: "0 < q" using quotient_of_denom_pos [OF pq] .
  have x: "x = of_int p / of_int q" using quotient_of_div [OF pq] .
  with assms q have p: "0 < p" by (simp add: zero_less_divide_iff)
  define a b where "a = bit_length p" and "b = bit_length q"
  note P = bit_length_bounds_rat [OF p, folded a_def]
  note Q = bit_length_bounds_rat [OF q, folded b_def]
  define k where "k = int a - int b"
  have pk: "2 powi k = (2 ^ a / 2 ^ b :: rat)"
    by (simp add: k_def powi_diff)
  have lower: "2 powi k / 2 \<le> x"
  proof -
    have "2 ^ a * of_int q \<le> (2 * of_int p) * (2 ^ b :: rat)"
      using P(1) Q(2) p q by (intro mult_mono) auto
    then show ?thesis using q by (simp add: pk x field_simps)
  qed
  have upper: "x < 2 * 2 powi k"
  proof -
    have "of_int p * 2 ^ b < (2 ^ a) * (2 * of_int q :: rat)"
      using P(2) Q(1) p by (intro mult_less_le_imp_less) auto
    then show ?thesis using q by (simp add: pk x field_simps)
  qed
  have "floor_log2 x = (if 2 powi k \<le> x then k else k - 1)"
    by (simp add: floor_log2_def pow2_eq pq k_def a_def b_def)
  with lower upper show ?thesis
    by (auto simp: powi_diff)
qed

lemma round_half_even_close: "\<bar>of_int (round_half_even x) - x\<bar> \<le> 1 / 2"
proof -
  have "of_int \<lfloor>x\<rfloor> \<le> x" "x < of_int \<lfloor>x\<rfloor> + 1" by linarith+
  then show ?thesis by (auto simp: round_half_even_def Let_def abs_le_iff)
qed

lemma round_half_even_of_int [simp]: "round_half_even (of_int n) = n"
  by (simp add: round_half_even_def)

lemma round_half_even_mono:
  assumes "x \<le> y"
  shows "round_half_even x \<le> round_half_even y"
proof (cases "\<lfloor>x\<rfloor> = \<lfloor>y\<rfloor>")
  case True
  with assms show ?thesis by (auto simp: round_half_even_def Let_def)
next
  case False
  with assms have "\<lfloor>x\<rfloor> + 1 \<le> \<lfloor>y\<rfloor>" using floor_mono [OF assms] by linarith
  then show ?thesis by (auto simp: round_half_even_def Let_def)
qed

lemma round_half_even_nonneg: "0 \<le> x \<Longrightarrow> 0 \<le> round_half_even x"
  using round_half_even_mono [of 0 x] round_half_even_of_int [of 0] by simp

text \<open>
  The error of one rounding is half a unit in the last place: a relative \<open>eps\<close>, plus the
  absolute \<open>eta\<close> of the subnormal range.
\<close>

definition eps :: rat where "eps = 1 / 2 ^ 53"

definition eta :: rat where "eta = 1 / 2 ^ 1075"

lemma eps_eta: "0 < eps" "eps \<le> 1" "0 < eta" "eta \<le> 1" "11000000000 * eta \<le> 1 / 2"
  by (simp_all add: eps_def eta_def)

lemma round_ulp_error:
  assumes "x \<noteq> 0"
  shows "\<bar>of_int (round_half_even (x / 2 powi ulp_exp x)) * 2 powi ulp_exp x - x\<bar>
    \<le> \<bar>x\<bar> * eps + eta"
proof -
  define u :: rat where "u = 2 powi ulp_exp x"
  have u: "0 < u" by (simp add: u_def)
  have "of_int (round_half_even (x / u)) * u - x = (of_int (round_half_even (x / u)) - x / u) * u"
    using u by (simp add: left_diff_distrib)
  then have "\<bar>of_int (round_half_even (x / u)) * u - x\<bar> =
      \<bar>of_int (round_half_even (x / u)) - x / u\<bar> * u"
    using u by (simp add: abs_mult)
  also have "\<dots> \<le> 1 / 2 * u"
    using u round_half_even_close [of "x / u"] by (intro mult_right_mono) auto
  also have "\<dots> \<le> \<bar>x\<bar> * eps + eta"
  proof (cases "floor_log2 \<bar>x\<bar> - 52 \<ge> - 1074")
    case True
    then have "u = 2 powi floor_log2 \<bar>x\<bar> / 2 ^ 52"
      by (simp add: u_def ulp_exp_def powi_diff)
    moreover have "2 powi floor_log2 \<bar>x\<bar> \<le> \<bar>x\<bar>"
      using floor_log2_bounds [of "\<bar>x\<bar>"] assms by simp
    ultimately show ?thesis by (simp add: eps_def eta_def)
  next
    case False
    then have "u = 1 / 2 ^ 1074"
      by (simp add: u_def ulp_exp_def power_int_minus field_simps)
    then show ?thesis by (simp add: eps_def eta_def)
  qed
  finally show ?thesis by (simp add: u_def)
qed

lemma round_f64_finite:
  assumes "\<bar>x\<bar> \<le> 2 ^ 200"
  obtains y where "round_f64 x = Fin y" "\<bar>y - x\<bar> \<le> \<bar>x\<bar> * eps + eta" "0 \<le> x \<longrightarrow> 0 \<le> y"
proof (cases "x = 0")
  case True
  then show ?thesis using that [of 0] eps_eta by (simp add: round_f64_def)
next
  case False
  define y :: rat where "y = of_int (round_half_even (x / 2 powi ulp_exp x)) * 2 powi ulp_exp x"
  have err: "\<bar>y - x\<bar> \<le> \<bar>x\<bar> * eps + eta"
    unfolding y_def by (rule round_ulp_error [OF False])
  have "\<bar>x\<bar> * eps \<le> \<bar>x\<bar> * 1" using eps_eta by (intro mult_left_mono) auto
  with err have "\<bar>y\<bar> \<le> 2 * \<bar>x\<bar> + 1" using eps_eta by linarith
  also have "\<dots> \<le> 2 * 2 ^ 200 + 1" using assms by linarith
  also have "\<dots> < (2 :: rat) ^ 1024" by simp
  finally have "round_f64 x = Fin y"
    using False by (simp add: round_f64_def pow2_eq Let_def y_def)
  moreover have "0 \<le> x \<longrightarrow> 0 \<le> y"
    unfolding y_def by (simp add: round_half_even_nonneg)
  ultimately show ?thesis using that err by blast
qed

lemma round_f64_zero [simp]: "round_f64 0 = Fin 0"
  by (simp add: round_f64_def)

text \<open>Errors accumulate: rounding a value that is itself within \<open>k\<close> units of a target.\<close>

lemma round_f64_chain:
  assumes t: "0 \<le> t" "t \<le> 2 ^ 100" and x: "0 \<le> x" "\<bar>x - t\<bar> \<le> k * (t * eps) + m * eta"
    and k: "0 \<le> k" "k \<le> 10" and m: "0 \<le> m" "m \<le> 10"
  obtains y where "round_f64 x = Fin y" "0 \<le> y"
    "\<bar>y - t\<bar> \<le> (2 * k + 1) * (t * eps) + (2 * m + 1) * eta"
proof -
  have te: "t * eps \<le> t" "0 \<le> t * eps" using t eps_eta by (auto intro: mult_left_le)
  have kt: "k * (t * eps) \<le> 10 * t" "0 \<le> k * (t * eps)"
    using mult_mono [OF k(2), of "t * eps" t] te k t by auto
  have me: "m * eta \<le> 10" "0 \<le> m * eta"
    using mult_mono [OF m(2), of eta 1] eps_eta m by auto
  have "x \<le> 11 * t + 10" using x(2) kt me by linarith
  also have "\<dots> \<le> 11 * 2 ^ 100 + 10" using t by linarith
  also have "\<dots> \<le> (2 :: rat) ^ 200" by simp
  finally have "\<bar>x\<bar> \<le> 2 ^ 200" using x by simp
  then obtain y where y: "round_f64 x = Fin y" "\<bar>y - x\<bar> \<le> \<bar>x\<bar> * eps + eta" "0 \<le> x \<longrightarrow> 0 \<le> y"
    by (rule round_f64_finite)
  have "\<bar>x\<bar> * eps \<le> (t + k * (t * eps) + m * eta) * eps"
    using x eps_eta by (intro mult_right_mono) auto
  also have "\<dots> \<le> t * eps + k * (t * eps) + m * eta"
  proof -
    have "(k * (t * eps) + m * eta) * eps \<le> (k * (t * eps) + m * eta) * 1"
      using kt me eps_eta by (intro mult_left_mono) auto
    then show ?thesis by (simp add: distrib_right)
  qed
  finally have "\<bar>y - t\<bar> \<le> t * eps + 2 * (k * (t * eps)) + 2 * (m * eta) + eta"
    using y(2) x(2) by linarith
  then have "\<bar>y - t\<bar> \<le> (2 * k + 1) * (t * eps) + (2 * m + 1) * eta"
    by (simp add: distrib_right)
  with that y(1,3) x(1) show thesis by blast
qed

lemma as_secs_f64_close:
  assumes "d \<le> 2 ^ 64 * nanos_per_sec"
  obtains S where "as_secs_f64 d = Fin S" "0 \<le> S"
    "\<bar>S - of_nat d / 1000000000\<bar> \<le> 3 * (of_nat d / 1000000000 * eps) + 5 * eta"
proof -
  define a b :: rat where "a = of_nat (d div nanos_per_sec)"
    and "b = of_nat (d mod nanos_per_sec) / of_nat nanos_per_sec"
  have "(of_nat d :: rat) = of_nat (d div nanos_per_sec * nanos_per_sec + d mod nanos_per_sec)"
    by (simp only: div_mult_mod_eq)
  then have sum: "of_nat d / 1000000000 = a + b"
    unfolding a_def b_def of_nat_add of_nat_mult by (simp add: nanos_per_sec_def field_simps)
  have "d div nanos_per_sec \<le> 2 ^ 64" using assms
    by (simp add: nanos_per_sec_def)
  then have "a \<le> of_nat (2 ^ 64)" unfolding a_def by (simp only: of_nat_le_iff)
  then have a: "0 \<le> a" "a \<le> 2 ^ 70" by (simp_all add: a_def)
  have "d mod nanos_per_sec \<le> nanos_per_sec" by (simp add: nanos_per_sec_def)
  then have b: "0 \<le> b" "b \<le> 1" by (simp_all add: b_def nanos_per_sec_def)
  obtain a' where a': "round_f64 a = Fin a'" "\<bar>a' - a\<bar> \<le> \<bar>a\<bar> * eps + eta" "0 \<le> a \<longrightarrow> 0 \<le> a'"
    by (rule round_f64_finite [of a]) (use a in simp_all)
  obtain b' where b': "round_f64 b = Fin b'" "\<bar>b' - b\<bar> \<le> \<bar>b\<bar> * eps + eta" "0 \<le> b \<longrightarrow> 0 \<le> b'"
    by (rule round_f64_finite [of b]) (use b in simp_all)
  have err: "\<bar>(a' + b') - (a + b)\<bar> \<le> 1 * ((a + b) * eps) + 2 * eta"
    using a'(2) b'(2) a b by (simp add: distrib_right)
  have t: "0 \<le> a + b" "a + b \<le> 2 ^ 100" using a b by simp_all
  have "0 \<le> a' + b'" using a'(3) b'(3) a b by simp
  then obtain S where S: "round_f64 (a' + b') = Fin S" "0 \<le> S"
      "\<bar>S - (a + b)\<bar> \<le> (2 * 1 + 1) * ((a + b) * eps) + (2 * 2 + 1) * eta"
    by (rule round_f64_chain [OF t _ err]) simp_all
  then have "as_secs_f64 d = Fin S"
    by (simp add: as_secs_f64_def a'(1) b'(1) flip: a_def b_def)
  moreover have "\<bar>S - of_nat d / 1000000000\<bar> \<le> 3 * (of_nat d / 1000000000 * eps) + 5 * eta"
    unfolding sum using S(3) by simp
  ultimately show thesis using that S(2) by blast
qed

text \<open>
  Scaling a duration of up to \<open>2^60\<close> seconds by a fraction of the unit interval never
  panics, and misses the exact product by at most \<open>2^-50\<close> of it and one nanosecond.
\<close>

lemma mul_f64_close:
  assumes f: "0 \<le> f" "f \<le> 1" and d: "d \<le> 2 ^ 60 * nanos_per_sec"
  obtains w where "mul_f64 d (Fin f) = Inr w"
    "\<bar>of_nat w - f * of_nat d\<bar> \<le> f * of_nat d / 2 ^ 50 + 1"
proof -
  define G :: rat where "G = of_nat d / 1000000000"
  have "(of_nat d :: rat) \<le> of_nat (2 ^ 60 * nanos_per_sec)" using d by (simp only: of_nat_le_iff)
  then have G: "0 \<le> G" "G \<le> 2 ^ 60" by (simp_all add: G_def nanos_per_sec_def)
  obtain S where S: "as_secs_f64 d = Fin S" "0 \<le> S" "\<bar>S - G\<bar> \<le> 3 * (G * eps) + 5 * eta"
    unfolding G_def by (rule as_secs_f64_close [of d]) (use d in \<open>auto simp: nanos_per_sec_def\<close>)
  have fG: "0 \<le> f * G" "f * G \<le> 2 ^ 60"
    using f G mult_mono [OF f(2) G(2)] by auto
  have "\<bar>f * S - f * G\<bar> = f * \<bar>S - G\<bar>" using f by (simp add: abs_mult flip: right_diff_distrib)
  also have "\<dots> \<le> f * (3 * (G * eps) + 5 * eta)" using f S(3) by (intro mult_left_mono)
  also have "\<dots> = 3 * (f * G * eps) + f * (5 * eta)" by (simp add: algebra_simps)
  also have "\<dots> \<le> 3 * (f * G * eps) + 5 * eta"
    using f eps_eta by (simp add: mult_left_le_one_le)
  finally have err: "\<bar>f * S - f * G\<bar> \<le> 3 * (f * G * eps) + 5 * eta" .
  have "f * G \<le> 2 ^ 100" using fG by simp
  then obtain p where p: "round_f64 (f * S) = Fin p" "0 \<le> p"
      "\<bar>p - f * G\<bar> \<le> (2 * 3 + 1) * (f * G * eps) + (2 * 5 + 1) * eta"
    by (rule round_f64_chain [OF fG(1) _ _ err]) (use f S(2) in simp_all)
  have "f * G * eps \<le> f * G * 1" using fG eps_eta by (intro mult_left_mono) auto
  then have "p \<le> 8 * (f * G) + 1" using p(3) eps_eta by simp
  then have "p < 2 ^ 64" using fG by simp
  define w where "w = nat (round_half_even (p * of_nat nanos_per_sec))"
  have "mul_f64 d (Fin f) = Inr w"
    using S(1) p(1,2) \<open>p < 2 ^ 64\<close> by (simp add: mul_f64_def from_secs_f64_def w_def)
  moreover have "\<bar>of_nat w - f * of_nat d\<bar> \<le> f * of_nat d / 2 ^ 50 + 1"
  proof -
    have "(of_nat w :: rat) = of_int (round_half_even (p * 1000000000))"
      using p(2) by (simp add: w_def nanos_per_sec_def round_half_even_nonneg)
    then have w: "\<bar>of_nat w - p * 1000000000\<bar> \<le> 1 / 2"
      using round_half_even_close [of "p * 1000000000"] by simp
    have fd: "f * of_nat d = f * G * 1000000000" by (simp add: G_def)
    have e: "f * G * 1000000000 / 2 ^ 50 = 8000000000 * (f * G * eps)" by (simp add: eps_def)
    have "0 \<le> f * G * eps" using fG eps_eta by simp
    moreover have "\<bar>p - y\<bar> \<le> 7 * x + 11 * eta \<Longrightarrow> 0 \<le> x \<Longrightarrow>
        \<bar>of_nat w - y * 1000000000\<bar> \<le> 8000000000 * x + 1" for x y
      using w eps_eta(3,5) by linarith
    ultimately show ?thesis unfolding fd e using p(3) by simp
  qed
  ultimately show thesis by (rule that)
qed

end
