(* ===== verification/Trigger.thy ===== *)
theory Trigger
  imports Errors Rng Float64
begin

text \<open>
  \<open>src/trigger.rs\<close>: triggers, the full-jitter policy and the clock seed.

  The \<open>cron\<close> and \<open>chrono\<close> crates are parameters (\<open>cron_crate\<close>): parsing an expression,
  converting between \<open>SystemTime\<close> and UTC date-times, and the next tick of a schedule
  after a date-time. The wall clock read by \<open>clock_seed\<close> is an argument.
\<close>

section \<open>Triggers\<close>

definition min_interval :: duration where
  "min_interval = from_millis 1"

definition default_jitter_fraction :: f64 where
  "default_jitter_fraction = round_f64 (1 / 5)"

definition schedule_park :: duration where
  "schedule_park = from_secs 60"

datatype trigger = Interval duration | Cron ustr

record ('sch, 'dt, 'e) cron_crate =
  parse_schedule :: "ustr \<Rightarrow> 'e + 'sch"
  utc_of :: "system_time \<Rightarrow> 'dt res"
  next_after :: "'sch \<Rightarrow> 'dt \<Rightarrow> 'dt option"
  system_of :: "'dt \<Rightarrow> system_time"

fun next_fire_after ::
    "('sch, 'dt, 'e) cron_crate \<Rightarrow> trigger \<Rightarrow> system_time \<Rightarrow> system_time option res" where
  "next_fire_after C (Interval interval) after =
     bind_res (system_time_add after (max interval min_interval)) (\<lambda>t. Inr (Some t))"
| "next_fire_after C (Cron expr) after =
     bind_res (utc_of C after) (\<lambda>dt.
       case parse_schedule C expr of
         Inl _ \<Rightarrow> Inr None
       | Inr schedule \<Rightarrow> Inr (map_option (system_of C) (next_after C schedule dt)))"

fun validate :: "('sch, 'dt, 'e) cron_crate \<Rightarrow> trigger \<Rightarrow> 'e register_error + unit" where
  "validate C (Cron expr) =
     (case parse_schedule C expr of
        Inl source \<Rightarrow> Inl (InvalidCron expr source)
      | Inr _ \<Rightarrow> Inr ())"
| "validate C (Interval _) = Inr ()"

section \<open>Jitter\<close>

record jitter_policy =
  fraction :: f64

definition clamp_fraction :: "f64 \<Rightarrow> f64" where
  "clamp_fraction x = (if is_nan x then Fin 0 else f64_clamp x (Fin 0) (Fin 1))"

definition jitter_policy_default :: jitter_policy where
  "jitter_policy_default = \<lparr>fraction = default_jitter_fraction\<rparr>"

definition jitter_policy_new :: "f64 \<Rightarrow> jitter_policy" where
  "jitter_policy_new x = \<lparr>fraction = clamp_fraction x\<rparr>"

definition window :: "jitter_policy \<Rightarrow> duration \<Rightarrow> duration res" where
  "window self gap =
     bind_res (mul_f64 gap (fraction self)) (\<lambda>scaled. Inr (min scaled gap))"

definition jitter ::
    "(duration \<Rightarrow> duration \<Rightarrow> 's \<Rightarrow> duration \<times> 's) \<Rightarrow>
     jitter_policy \<Rightarrow> duration \<Rightarrow> 's \<Rightarrow> (duration \<times> 's) res" where
  "jitter random_range_m self gap rng =
     bind_res (window self gap) (\<lambda>w.
       if is_zero w then Inr (0, rng) else Inr (random_range_m 0 w rng))"

definition jitter_seeded :: "jitter_policy \<Rightarrow> duration \<Rightarrow> u64 \<Rightarrow> duration res" where
  "jitter_seeded self gap seed =
     bind_res (jitter (random_range split_mix64_next_u64) self gap (split_mix64_new seed))
       (\<lambda>(d, _). Inr d)"

section \<open>The clock seed\<close>

definition mix64 :: "u64 \<Rightarrow> u64" where
  "mix64 x =
     (let x = x + 0x9E3779B97F4A7C15;
          x = (x XOR drop_bit 30 x) * 0xBF58476D1CE4E5B9;
          x = (x XOR drop_bit 27 x) * 0x94D049BB133111EB
      in x XOR drop_bit 31 x)"

definition clock_seed :: "system_time \<Rightarrow> u64" where
  "clock_seed now =
     mix64 (case duration_since now 0 of Inr d \<Rightarrow> as_nanos_u64 d | Inl _ \<Rightarrow> 0)"

section \<open>The schedule grid\<close>

text \<open>
  What the runner relies on: a tick source whose next tick is strictly later. Interval
  triggers are one for every interval, zero included, because of the 1 ms clamp.
\<close>

locale tick_source =
  fixes next_tick :: "system_time \<Rightarrow> system_time option res"
  assumes advances: "next_tick t = Inr (Some t') \<Longrightarrow> t < t'"

lemma min_interval_eq: "min_interval = 1000000"
  by (simp add: min_interval_def from_millis_def)

lemma next_fire_after_interval_Inr:
  "next_fire_after C (Interval i) t = Inr r \<longleftrightarrow>
     r = Some (t + int (max i min_interval)) \<and> t + int (max i min_interval) < time_limit"
  by (auto simp: bind_res_eq_Inr_iff system_time_add_Inr_iff)

lemma next_fire_after_interval_Inl:
  "next_fire_after C (Interval i) t = Inl p \<longleftrightarrow>
     p = Time_overflow \<and> time_limit \<le> t + int (max i min_interval)"
  by (auto simp: bind_res_eq_Inl_iff system_time_add_Inl_iff)

interpretation interval: tick_source "next_fire_after C (Interval i)" for C i
  by unfold_locales
    (simp add: next_fire_after_interval_Inr min_interval_eq of_nat_max del: next_fire_after.simps)

text \<open>Documented behaviour of \<open>Schedule::after\<close>: its ticks are strictly later than the anchor.\<close>

definition cron_strict :: "('sch, 'dt, 'e) cron_crate \<Rightarrow> bool" where
  "cron_strict C \<longleftrightarrow>
     (\<forall>sch t dt dt'. utc_of C t = Inr dt \<longrightarrow> next_after C sch dt = Some dt' \<longrightarrow> t < system_of C dt')"

lemma cron_tick_source: "cron_strict C \<Longrightarrow> tick_source (next_fire_after C (Cron expr))"
  by unfold_locales
    (cases "parse_schedule C expr", auto simp: bind_res_eq_Inr_iff cron_strict_def)

lemma trigger_tick_source: "cron_strict C \<Longrightarrow> tick_source (next_fire_after C tr)"
  by (cases tr) (simp_all add: cron_tick_source interval.tick_source_axioms)

fun grid :: "('sch, 'dt, 'e) cron_crate \<Rightarrow> trigger \<Rightarrow> nat \<Rightarrow> system_time \<Rightarrow> system_time option res" where
  "grid C tr 0 t = Inr (Some t)"
| "grid C tr (Suc n) t =
     bind_res (grid C tr n t) (\<lambda>r. case r of None \<Rightarrow> Inr None | Some t' \<Rightarrow> next_fire_after C tr t')"

lemma grid_interval:
  "grid C (Interval i) n t =
     (if n = 0 \<or> t + int n * int (max i min_interval) < time_limit
      then Inr (Some (t + int n * int (max i min_interval))) else Inl Time_overflow)"
proof (induction n)
  case 0
  then show ?case by simp
next
  case (Suc n)
  have "0 < int (max i min_interval)" by (simp add: min_interval_eq)
  then show ?case using Suc
    by (auto simp: system_time_add_def algebra_simps simp del: of_nat_max)
qed

section \<open>The window and the draw\<close>

lemma window_le: "window p gap = Inr w \<Longrightarrow> w \<le> gap"
  by (auto simp: window_def bind_res_eq_Inr_iff)

lemma window_zero_gap:
  assumes "fraction p = Fin f" "0 \<le> f" "f \<le> 1"
  shows "window p 0 = Inr 0"
proof -
  obtain w where "mul_f64 0 (Fin f) = Inr w"
    by (rule mul_f64_close [OF assms(2,3), of 0]) auto
  with assms show ?thesis by (simp add: window_def)
qed

lemma window_no_jitter:
  assumes "fraction p = Fin 0" "gap \<le> 2 ^ 64 * nanos_per_sec"
  shows "window p gap = Inr 0"
proof -
  obtain S where "as_secs_f64 gap = Fin S" by (rule as_secs_f64_close [OF assms(2)])
  with assms(1) round_half_even_of_int [of 0] show ?thesis
    by (simp add: window_def mul_f64_def from_secs_f64_def)
qed

lemma clamp_fraction_unit:
  obtains f where "clamp_fraction x = Fin f" "0 \<le> f" "f \<le> 1"
proof (cases x)
  case NaN
  then show ?thesis by (intro that [of 0]) (simp_all add: clamp_fraction_def is_nan_def)
next
  case (Inf neg)
  then show ?thesis
    by (cases neg) (auto intro: that [of 0] that [of 1]
        simp: clamp_fraction_def is_nan_def f64_clamp_def)
next
  case (Fin r)
  then show ?thesis
    by (intro that [of "max 0 (min 1 r)"])
      (auto simp: clamp_fraction_def is_nan_def f64_clamp_def Let_def)
qed

lemma window_unit:
  assumes f: "fraction p = Fin f" "0 \<le> f" "f \<le> 1" and gap: "gap \<le> 2 ^ 60 * nanos_per_sec"
  obtains w where "window p gap = Inr w" "w \<le> gap"
    "\<bar>of_nat w - f * of_nat gap\<bar> \<le> f * of_nat gap / 2 ^ 50 + 1"
proof -
  obtain s where s: "mul_f64 gap (Fin f) = Inr s"
      "\<bar>of_nat s - f * of_nat gap\<bar> \<le> f * of_nat gap / 2 ^ 50 + 1"
    by (rule mul_f64_close [OF f(2,3) gap])
  have le: "f * of_nat gap \<le> of_nat gap" using f by (simp add: mult_left_le_one_le)
  have "\<bar>of_nat (min s gap) - f * of_nat gap\<bar> \<le> f * of_nat gap / 2 ^ 50 + 1"
  proof (cases "s \<le> gap")
    case False
    then have "of_nat gap \<le> (of_nat s :: rat)" by simp
    with False le s(2) show ?thesis by (simp add: min_def)
  qed (use s(2) in simp)
  with s(1) f(1) that [of "min s gap"] show thesis by (simp add: window_def)
qed

context bounded_source
begin

text \<open>The delay stays in the window whatever source draws it.\<close>

lemma jitter_le_window:
  assumes "jitter random_range_m p gap rng = Inr (d, rng')"
  shows "\<exists>w. window p gap = Inr w \<and> d \<le> w \<and> w \<le> gap"
proof -
  obtain w where w: "window p gap = Inr w"
    using assms by (auto simp: jitter_def bind_res_eq_Inr_iff)
  with assms have "d \<le> w"
    using random_range_m_le [of w rng] by (auto simp: jitter_def split: if_splits)
  with w window_le show ?thesis by blast
qed

lemma jitter_returns_iff:
  "(\<exists>r. jitter random_range_m p gap rng = Inr r) \<longleftrightarrow> (\<exists>w. window p gap = Inr w)"
  by (cases "window p gap") (auto simp: jitter_def)

end

section \<open>The seed\<close>

lemma mix64_finalize: "mix64 x = finalize (x + 0x9E3779B97F4A7C15)"
  by (simp add: mix64_def finalize_def Let_def)

lemma mix64_eq: "mix64 x = fst (split_mix64_next_u64 (split_mix64_new x))"
  by (simp add: mix64_finalize next_u64_eq split_mix64_new_def)

lemma inj_mix64: "inj mix64"
proof (rule injI)
  fix x y assume "mix64 x = mix64 y"
  then have "x + 0x9E3779B97F4A7C15 = y + 0x9E3779B97F4A7C15"
    unfolding mix64_finalize by (rule injD [OF inj_finalize])
  then show "x = y" by simp
qed

lemma clock_seed_eq: "0 \<le> t \<Longrightarrow> clock_seed t = mix64 (of_int t)"
  by (simp add: clock_seed_def duration_since_def as_nanos_u64_def)

text \<open>Clock readings less than \<open>2^64\<close> ns (584 years) apart give different seeds.\<close>

lemma clock_seed_distinct:
  assumes "0 \<le> t" "0 \<le> t'" "\<bar>t - t'\<bar> < 2 ^ 64" "t \<noteq> t'"
  shows "clock_seed t = fst (split_mix64_next_u64 (split_mix64_new (of_int t))) \<and>
    clock_seed t \<noteq> clock_seed t'"
proof -
  have "(of_int t :: u64) \<noteq> of_int t'"
  proof
    assume "(of_int t :: u64) = of_int t'"
    then have "t mod 2 ^ 64 = t' mod 2 ^ 64"
      by (simp only: word_of_int_eq_iff take_bit_eq_mod) simp
    then have "(2 :: int) ^ 64 dvd t - t'" by (rule mod_eq_dvd_iff [THEN iffD1])
    then have "t - t' = 0" using assms(3) by (auto elim!: dvdE simp: abs_mult)
    with assms(4) show False by simp
  qed
  then have "mix64 (of_int t) \<noteq> mix64 (of_int t')"
    using inj_mix64 by (simp add: inj_eq)
  with assms show ?thesis by (simp add: clock_seed_eq mix64_eq)
qed

section \<open>Properties\<close>

text \<open>
  C32: The un-jittered grid of an interval trigger: iterating \<open>next_fire_after\<close> \<open>n\<close> times
  from \<open>t\<close> lands exactly \<open>n\<close> clamped intervals (at least 1 ms each) later, with no drift,
  until the end of the representable time, where the addition panics.
\<close>

theorem interval_grid_exact:
  "grid C (Interval i) (Suc n) t =
     (if t + int (Suc n) * max (int i) 1000000 < time_limit
      then Inr (Some (t + int (Suc n) * max (int i) 1000000)) else Inl Time_overflow)"
  by (simp add: grid_interval min_interval_eq of_nat_max del: grid.simps)

text \<open>
  C22: A jittered delay never leaves the window and the window never exceeds the gap, for
  every policy, gap and generator state, whenever the draw does not panic; the provided
  \<open>random_range\<close> over any \<open>next_u64\<close> is enough for this.
\<close>

theorem jitter_bounded:
  assumes "jitter (random_range next_u64) p gap rng = Inr (d, rng')"
  shows "\<exists>w. window p gap = Inr w \<and> d \<le> w \<and> w \<le> gap"
  using assms by (rule provided.jitter_le_window)

theorem jitter_bounded_witness:
  "\<exists>w. window jitter_policy_default 30000000000 = Inr w \<and> (1::nat) \<le> w \<and> w \<le> 30000000000"
proof -
  have "f64_mul default_jitter_fraction (f64_add (round_f64 30) (round_f64 0)) = Fin 6" by code_simp
  then have "mul_f64 30000000000 default_jitter_fraction = Inr 6000000000"
    by (simp add: mul_f64_def as_secs_f64_def nanos_per_sec_def from_secs_f64_def round_half_even_def)
  then have "window jitter_policy_default 30000000000 = Inr 6000000000"
    by (simp add: window_def jitter_policy_default_def)
  moreover have "random_range (\<lambda>s :: unit. (1, s)) 0 6000000000 () = (1, ())"
    by (simp add: random_range_def as_nanos_u64_def saturating_sub_def from_nanos_def)
  ultimately have
    "jitter (random_range (\<lambda>s :: unit. (1, s))) jitter_policy_default 30000000000 () = Inr (1, ())"
    by (simp add: jitter_def is_zero_def)
  then show ?thesis by (rule jitter_bounded)
qed

text \<open>
  C23: A policy built by \<open>JitterPolicy::new\<close>, from any \<open>f64\<close> at all (NaN and infinities
  included), has a fraction \<open>f\<close> of the unit interval, and for every gap up to \<open>2^60\<close> seconds
  its window is computed without a panic, does not exceed the gap and is \<open>f\<close> times the gap
  up to one nanosecond and a relative error of \<open>2^-50\<close>; the jitter draw then returns too.
\<close>

theorem new_policy_window:
  assumes "gap \<le> 2 ^ 60 * nanos_per_sec"
  shows "\<exists>f w. fraction (jitter_policy_new x) = Fin f \<and> 0 \<le> f \<and> f \<le> 1 \<and>
    window (jitter_policy_new x) gap = Inr w \<and> w \<le> gap \<and>
    \<bar>of_nat w - f * of_nat gap\<bar> \<le> f * of_nat gap / 2 ^ 50 + 1 \<and>
    (\<exists>r. jitter (random_range next_u64) (jitter_policy_new x) gap rng = Inr r)"
proof -
  obtain f where f: "clamp_fraction x = Fin f" "0 \<le> f" "f \<le> 1" by (rule clamp_fraction_unit)
  then have fr: "fraction (jitter_policy_new x) = Fin f" by (simp add: jitter_policy_new_def)
  obtain w where "window (jitter_policy_new x) gap = Inr w" "w \<le> gap"
      "\<bar>of_nat w - f * of_nat gap\<bar> \<le> f * of_nat gap / 2 ^ 50 + 1"
    by (rule window_unit [OF fr f(2,3) assms])
  with f fr show ?thesis
    using provided.jitter_returns_iff [of next_u64 "jitter_policy_new x" gap rng] by blast
qed

theorem new_policy_window_witness:
  "\<exists>f w. fraction (jitter_policy_new (Inf False)) = Fin f \<and> 0 \<le> f \<and> f \<le> 1 \<and>
    window (jitter_policy_new (Inf False)) 5000 = Inr w \<and> w \<le> 5000 \<and>
    \<bar>of_nat w - f * of_nat 5000\<bar> \<le> f * of_nat 5000 / 2 ^ 50 + 1 \<and>
    (\<exists>r. jitter (random_range split_mix64_next_u64) (jitter_policy_new (Inf False)) 5000
       (split_mix64_new 1) = Inr r)"
  by (rule new_policy_window) (simp add: nanos_per_sec_def)

end
