(* ===== verification/Job.thy ===== *)
theory Job
  imports Trigger
begin

text \<open>
  \<open>src/job.rs\<close>: the job contract. User code is a parameter: a job closure is a function
  of the context and the world \<open>'w\<close> it acts on (whatever state the process and its
  services have), the degradation hook a function of the message and the world. The
  shutdown guard of the \<open>shutdown-kit\<close> crate is opaque (\<open>'g\<close>).

  Calling a closure and awaiting the future it returns ends in one of three ways. The
  call itself can panic before there is a future (\<open>Call_panics\<close>), the future can panic
  while it is polled (\<open>Panics\<close>), or it resolves (\<open>Returns\<close>, with \<open>Inl\<close> for \<open>Err\<close>). The two
  panics are kept apart because \<open>catch_unwind\<close> wraps the future only.

  The last section is the \<open>Debug\<close> text of a context, with that of \<open>Trigger\<close> and of \<open>Duration\<close>.
\<close>

section \<open>The contract\<close>

definition default_failure_budget :: u32 where
  "default_failure_budget = 5"

record 'g job_context =
  worker_name :: ustr
  ctx_trigger :: trigger
  ctx_shutdown :: 'g

datatype job_run = Call_panics | Panics | Returns "job_error + unit"

type_synonym ('w, 'g) job = "'g job_context \<Rightarrow> 'w \<Rightarrow> job_run \<times> 'w"

type_synonym 'w on_degraded_hook = "ustr \<Rightarrow> 'w \<Rightarrow> unit res \<times> 'w"

record ('w, 'g) job_spec =
  spec_name :: ustr
  spec_trigger :: trigger
  closure :: "('w, 'g) job"
  failure_budget :: u32
  leader :: bool
  fire_at_start :: bool
  drain_pass :: bool
  use_breaker :: bool
  on_degraded :: "'w on_degraded_hook option"

definition job_spec_new :: "ustr \<Rightarrow> trigger \<Rightarrow> ('w, 'g) job \<Rightarrow> ('w, 'g) job_spec" where
  "job_spec_new name trigger closure_arg =
     \<lparr>spec_name = name, spec_trigger = trigger, closure = closure_arg,
      failure_budget = default_failure_budget, leader = False, fire_at_start = False,
      drain_pass = False, use_breaker = True, on_degraded = None\<rparr>"

section \<open>The debug text of a context\<close>

text \<open>
  \<open>{:?}\<close> of a \<open>Duration\<close>: the largest unit that has a whole part, then the fraction
  without trailing zeros. The derived \<open>Debug\<close> of \<open>Trigger\<close> and the written one of
  \<open>JobContext\<close>; \<open>plain\<close> are the characters \<open>escape_debug\<close> leaves alone, \<open>is_shutdown\<close> the
  flag of the guard.
\<close>

fun fraction_digits :: "nat \<Rightarrow> nat \<Rightarrow> ustr" where
  "fraction_digits part divisor =
     (if part = 0 \<or> divisor = 0 then []
      else (48 + part div divisor) # fraction_digits (part mod divisor) (divisor div 10))"

declare fraction_digits.simps [simp del]

definition fmt_decimal :: "nat \<Rightarrow> nat \<Rightarrow> nat \<Rightarrow> ustr \<Rightarrow> ustr" where
  "fmt_decimal integer part divisor unit =
     decimal integer @ (if part = 0 then [] else 46 # fraction_digits part divisor) @ unit"

definition debug_duration :: "duration \<Rightarrow> ustr" where
  "debug_duration d =
     (let secs = d div nanos_per_sec; nanos = d mod nanos_per_sec
      in if 0 < secs then fmt_decimal secs nanos 100000000 (lit ''s'')
         else if 1000000 \<le> nanos then fmt_decimal (nanos div 1000000) (nanos mod 1000000) 100000 (lit ''ms'')
         else if 1000 \<le> nanos then fmt_decimal (nanos div 1000) (nanos mod 1000) 100 (181 # lit ''s'')
         else fmt_decimal nanos 0 1 (lit ''ns''))"

fun debug_trigger :: "(nat \<Rightarrow> bool) \<Rightarrow> trigger \<Rightarrow> ustr" where
  "debug_trigger plain (Interval d) = lit ''Interval('' @ debug_duration d @ lit '')''"
| "debug_trigger plain (Cron expr) = lit ''Cron('' @ debug_str plain expr @ lit '')''"

definition debug_bool :: "bool \<Rightarrow> ustr" where
  "debug_bool b = (if b then lit ''true'' else lit ''false'')"

definition debug_job_context :: "(nat \<Rightarrow> bool) \<Rightarrow> ('g \<Rightarrow> bool) \<Rightarrow> 'g job_context \<Rightarrow> ustr" where
  "debug_job_context plain is_shutdown ctx =
     lit ''JobContext { worker_name: '' @ debug_str plain (worker_name ctx) @
     lit '', trigger: '' @ debug_trigger plain (ctx_trigger ctx) @
     lit '', shutdown_signalled: '' @ debug_bool (is_shutdown (ctx_shutdown ctx)) @ lit '' }''"

subsection \<open>The text tells the contexts apart\<close>

definition stops_digits :: "ustr \<Rightarrow> bool" where
  "stops_digits xs \<longleftrightarrow> (case xs of [] \<Rightarrow> True | c # _ \<Rightarrow> \<not> is_ascii_digit c)"

lemma stops_digits_simps [simp]: "stops_digits []" "stops_digits (c # xs) \<longleftrightarrow> \<not> is_ascii_digit c"
  by (simp_all add: stops_digits_def)

lemma digits_inj:
  assumes "list_all is_ascii_digit ds" "list_all is_ascii_digit es" "stops_digits xs" "stops_digits ys"
    and "ds @ xs = es @ ys"
  shows "ds = es \<and> xs = ys"
proof -
  have "takeWhile is_ascii_digit (as @ zs) = as" if "list_all is_ascii_digit as" "stops_digits zs" for as zs
    using that by (cases zs) (auto simp: list_all_iff takeWhile_append2 stops_digits_def)
  then have "ds = es" using assms by metis
  with assms(5) show ?thesis by simp
qed

lemma decimal_digits: "list_all is_ascii_digit (decimal n)"
  using decimal_is_digit by (auto simp: list_all_iff)

lemma digit_char: "n < 10 \<Longrightarrow> is_ascii_digit (48 + n)"
  by (simp add: is_ascii_digit_def)

lemma fraction_digits_one: "fraction_digits f (Suc 0) = (if f = 0 then [] else [48 + f])"
  by (simp add: fraction_digits.simps [of f] fraction_digits.simps [of 0])

lemma fraction_digits_digits: "f < 10 * 10 ^ k \<Longrightarrow> list_all is_ascii_digit (fraction_digits f (10 ^ k))"
proof (induction k arbitrary: f)
  case (Suc k)
  have "f div 10 ^ Suc k < 10" using Suc.prems by (intro less_mult_imp_div_less) simp
  moreover have "f mod 10 ^ Suc k < 10 * 10 ^ k" by simp
  ultimately show ?case
    using Suc.IH [of "f mod 10 ^ Suc k"] by (subst fraction_digits.simps) (simp add: digit_char)
qed (simp add: fraction_digits_one digit_char)

lemma fraction_digits_inj:
  "f < 10 * 10 ^ k \<Longrightarrow> g < 10 * 10 ^ k \<Longrightarrow> fraction_digits f (10 ^ k) = fraction_digits g (10 ^ k) \<Longrightarrow> f = g"
proof (induction k arbitrary: f g)
  case (Suc k)
  let ?d = "10 ^ Suc k :: nat"
  have rest: "f mod ?d < 10 * 10 ^ k" "g mod ?d < 10 * 10 ^ k" by simp_all
  have "f = 0 \<longleftrightarrow> g = 0" using Suc.prems(3) by (auto simp: fraction_digits.simps [of f] fraction_digits.simps [of g] split: if_splits)
  then show ?case
  proof (cases "f = 0")
    case False
    then have "f div ?d = g div ?d \<and> fraction_digits (f mod ?d) (10 ^ k) = fraction_digits (g mod ?d) (10 ^ k)"
      using Suc.prems(3) \<open>f = 0 \<longleftrightarrow> g = 0\<close> by (simp add: fraction_digits.simps [of f] fraction_digits.simps [of g])
    with Suc.IH [OF rest] have "f div ?d = g div ?d" "f mod ?d = g mod ?d" by auto
    then show ?thesis by (metis div_mult_mod_eq)
  qed simp
qed (auto simp: fraction_digits_one split: if_splits)

lemma fmt_decimal_inj:
  assumes eq: "fmt_decimal i f (10 ^ k) (c # u) @ xs = fmt_decimal j g (10 ^ l) (d # v) @ ys"
    and "f < 10 * 10 ^ k" "g < 10 * 10 ^ l"
    and "\<not> is_ascii_digit c" "\<not> is_ascii_digit d" "c \<noteq> 46" "d \<noteq> 46"
  shows "i = j \<and> c # u @ xs = d # v @ ys \<and>
    (if f = 0 then g = 0 else g \<noteq> 0 \<and> fraction_digits f (10 ^ k) = fraction_digits g (10 ^ l))"
proof -
  have dot: "\<not> is_ascii_digit 46" by (simp add: is_ascii_digit_def)
  let ?l = "(if f = 0 then [] else 46 # fraction_digits f (10 ^ k)) @ c # u @ xs"
  let ?r = "(if g = 0 then [] else 46 # fraction_digits g (10 ^ l)) @ d # v @ ys"
  have "decimal i = decimal j \<and> ?l = ?r"
    using eq assms(4,5) dot by (intro digits_inj decimal_digits) (simp_all add: fmt_decimal_def)
  then have i: "i = j" and tails: "?l = ?r" using inj_decimal by (auto dest: injD)
  have "fraction_digits f (10 ^ k) = fraction_digits g (10 ^ l) \<and> c # u @ xs = d # v @ ys" if "f \<noteq> 0" "g \<noteq> 0"
    using tails that assms(2-5) by (intro digits_inj fraction_digits_digits) simp_all
  with i tails assms(6,7) show ?thesis by (auto split: if_splits)
qed

text \<open>The four units, with their number of digits after the point and their size in ns.\<close>

definition duration_units :: "(ustr \<times> nat \<times> nat) set" where
  "duration_units =
     {(lit ''s'', 8, 1000000000), (lit ''ms'', 5, 1000000), (181 # lit ''s'', 2, 1000), (lit ''ns'', 0, 1)}"

lemma debug_duration_form:
  obtains i f k u n where "debug_duration d = fmt_decimal i f (10 ^ k) u" "f < 10 * 10 ^ k" "d = i * n + f"
    "(u, k, n) \<in> duration_units"
proof -
  consider "1000000000 \<le> d" | "1000000 \<le> d" "d < 1000000000" | "1000 \<le> d" "d < 1000000" | "d < 1000"
    by linarith
  then show thesis
  proof cases
    case 1
    then show thesis
      by (intro that [of "d div 1000000000" "d mod 1000000000" 8 "lit ''s''" 1000000000])
        (simp_all add: debug_duration_def Let_def nanos_per_sec_def duration_units_def div_greater_zero_iff)
  next
    case 2
    then show thesis
      by (intro that [of "d div 1000000" "d mod 1000000" 5 "lit ''ms''" 1000000])
        (simp_all add: debug_duration_def Let_def nanos_per_sec_def duration_units_def)
  next
    case 3
    then show thesis
      by (intro that [of "d div 1000" "d mod 1000" 2 "181 # lit ''s''" 1000])
        (simp_all add: debug_duration_def Let_def nanos_per_sec_def duration_units_def)
  next
    case 4
    then show thesis
      by (intro that [of d 0 0 "lit ''ns''" 1])
        (simp_all add: debug_duration_def Let_def nanos_per_sec_def duration_units_def)
  qed
qed

lemma debug_duration_inj:
  assumes "debug_duration d @ xs = debug_duration e @ ys"
  shows "d = e \<and> xs = ys"
proof -
  obtain i f k u n where d: "debug_duration d = fmt_decimal i f (10 ^ k) u" "f < 10 * 10 ^ k" "d = i * n + f"
    "(u, k, n) \<in> duration_units" by (rule debug_duration_form)
  obtain j g l v m where e: "debug_duration e = fmt_decimal j g (10 ^ l) v" "g < 10 * 10 ^ l" "e = j * m + g"
    "(v, l, m) \<in> duration_units" by (rule debug_duration_form)
  have unit: "\<exists>c w'. w = c # w' \<and> \<not> is_ascii_digit c \<and> c \<noteq> 46" if "(w, q, z) \<in> duration_units" for w q z
    using that by (auto simp: duration_units_def lit_def is_ascii_digit_def)
  obtain c u' c' v' where u: "u = c # u'" "\<not> is_ascii_digit c" "c \<noteq> 46" and v: "v = c' # v'" "\<not> is_ascii_digit c'" "c' \<noteq> 46"
    using unit [OF d(4)] unit [OF e(4)] by blast
  from assms have "fmt_decimal i f (10 ^ k) (c # u') @ xs = fmt_decimal j g (10 ^ l) (c' # v') @ ys"
    by (simp add: d(1) e(1) u(1) v(1))
  from fmt_decimal_inj [OF this d(2) e(2) u(2) v(2) u(3) v(3)] have same: "i = j" "u @ xs = v @ ys"
    "if f = 0 then g = 0 else g \<noteq> 0 \<and> fraction_digits f (10 ^ k) = fraction_digits g (10 ^ l)"
    by (simp_all add: u(1) v(1))
  have "u = v \<and> k = l \<and> n = m \<and> xs = ys"
    using d(4) e(4) same(2) by (auto simp: duration_units_def lit_def)
  moreover from this have "f = g" using same(3) fraction_digits_inj [OF d(2)] e(2) by (auto split: if_splits)
  ultimately show ?thesis using d(3) e(3) same(1) by simp
qed

lemma debug_str_inj: "debug_str plain s @ xs = debug_str plain t @ ys \<Longrightarrow> s = t \<and> xs = ys"
  using escaped_inj [of plain s xs t ys] by (simp add: debug_str_def)

lemma debug_trigger_inj:
  "debug_trigger plain a @ xs = debug_trigger plain b @ ys \<Longrightarrow> a = b \<and> xs = ys"
  by (cases a; cases b) (auto simp: lit_def dest: debug_duration_inj debug_str_inj)

text \<open>The debug text of a context determines its job, its trigger and the flag.\<close>

lemma debug_job_context_inj:
  "debug_job_context plain is_shutdown a = debug_job_context plain is_shutdown b \<longleftrightarrow>
     worker_name a = worker_name b \<and> ctx_trigger a = ctx_trigger b \<and>
     is_shutdown (ctx_shutdown a) = is_shutdown (ctx_shutdown b)"
proof
  assume "debug_job_context plain is_shutdown a = debug_job_context plain is_shutdown b"
  then have name: "worker_name a = worker_name b" and
    "debug_trigger plain (ctx_trigger a) @ lit '', shutdown_signalled: '' @ debug_bool (is_shutdown (ctx_shutdown a)) @ lit '' }'' =
     debug_trigger plain (ctx_trigger b) @ lit '', shutdown_signalled: '' @ debug_bool (is_shutdown (ctx_shutdown b)) @ lit '' }''"
    by (auto simp: debug_job_context_def dest: debug_str_inj)
  from debug_trigger_inj [OF this(2)] name show "worker_name a = worker_name b \<and> ctx_trigger a = ctx_trigger b \<and>
     is_shutdown (ctx_shutdown a) = is_shutdown (ctx_shutdown b)"
    by (auto simp: debug_bool_def lit_def split: if_splits)
qed (simp add: debug_job_context_def)

end
