(* ===== verification/Lease.thy ===== *)
theory Lease
  imports Errors Std_Time
begin

text \<open>
  \<open>src/leader/mod.rs\<close> and \<open>src/leader/redis_lease.rs\<close>: leader election. A \<open>dyn Lease\<close> is the
  record of its two methods, each a function of holder, TTL and world.

  The Redis server and its client crate are a parameter (\<open>redis_client\<close>): the reply of
  \<open>SET key value NX PX ms\<close>, the atomic evaluation of a script, and the two commands the
  renewal script calls. What the code relies on is the predicate \<open>redis_documented\<close>, the
  documented behaviour of those commands over the server's key space (\<open>entry\<close>: value and
  expiry deadline of a key, in milliseconds) and clock. Time may pass within a command,
  and a reply may be lost after the command took effect.
\<close>

section \<open>The lease trait and the in-process lease\<close>

record 'w lease =
  acquire :: "ustr \<Rightarrow> duration \<Rightarrow> 'w \<Rightarrow> bool \<times> 'w"
  renew :: "ustr \<Rightarrow> duration \<Rightarrow> 'w \<Rightarrow> bool \<times> 'w"

definition memory_lease :: "'w lease" where
  "memory_lease = \<lparr>acquire = (\<lambda>_ _ w. (True, w)), renew = (\<lambda>_ _ w. (True, w))\<rparr>"

text \<open>\<open>DEFAULT_LEASE_TTL\<close> of \<open>src/supervisor.rs\<close>.\<close>

definition default_lease_ttl :: duration where
  "default_lease_ttl = from_secs 30"

section \<open>The Redis lease\<close>

record ('w, 'e) redis_client =
  cmd_set_nx_px :: "ustr \<Rightarrow> ustr \<Rightarrow> int \<Rightarrow> 'w \<Rightarrow> ('e + ustr option) \<times> 'w"
  eval_script :: "('w \<Rightarrow> int \<times> 'w) \<Rightarrow> 'w \<Rightarrow> ('e + int) \<times> 'w"
  call_get :: "ustr \<Rightarrow> 'w \<Rightarrow> ustr option"
  call_pexpire :: "ustr \<Rightarrow> int \<Rightarrow> 'w \<Rightarrow> int \<times> 'w"

record ('w, 'e) redis_lease =
  conn :: "('w, 'e) redis_client"
  lease_key :: ustr

definition redis_lease_connect ::
    "(ustr \<Rightarrow> 'e + 'c) \<Rightarrow> ('c \<Rightarrow> 'w \<Rightarrow> ('e + ('w, 'e) redis_client) \<times> 'w) \<Rightarrow>
     ustr \<Rightarrow> ustr \<Rightarrow> 'w \<Rightarrow> ('e + ('w, 'e) redis_lease) \<times> 'w" where
  "redis_lease_connect client_open manager_new url key w =
     (case client_open url of
        Inl e \<Rightarrow> (Inl e, w)
      | Inr client \<Rightarrow>
          (case manager_new client w of
             (Inl e, w') \<Rightarrow> (Inl e, w')
           | (Inr c, w') \<Rightarrow> (Inr \<lparr>conn = c, lease_key = key\<rparr>, w')))"

definition ttl_ms :: "duration \<Rightarrow> int" where
  "ttl_ms ttl =
     (let ms = as_millis ttl;
          u = (if ms < 2 ^ 64 then ms else 2 ^ 64 - 1)
      in if u < 2 ^ 63 then int u else 2 ^ 63 - 1)"

text \<open>The Lua text \<open>RENEW_LUA\<close>, run by the server against the key space it sees.\<close>

definition renew_lua :: "('w, 'e) redis_client \<Rightarrow> ustr \<Rightarrow> ustr \<Rightarrow> int \<Rightarrow> 'w \<Rightarrow> int \<times> 'w" where
  "renew_lua R key1 argv1 argv2 w =
     (if call_get R key1 w = Some argv1 then call_pexpire R key1 argv2 w else (0, w))"

definition redis_acquire ::
    "('w, 'e) redis_lease \<Rightarrow> ustr \<Rightarrow> duration \<Rightarrow> 'w \<Rightarrow> bool \<times> 'w" where
  "redis_acquire self holder ttl w =
     (case cmd_set_nx_px (conn self) (lease_key self) holder (ttl_ms ttl) w of
        (Inr reply, w') \<Rightarrow> (reply \<noteq> None, w')
      | (Inl _, w') \<Rightarrow> (False, w'))"

definition redis_renew ::
    "('w, 'e) redis_lease \<Rightarrow> ustr \<Rightarrow> duration \<Rightarrow> 'w \<Rightarrow> bool \<times> 'w" where
  "redis_renew self holder ttl w =
     (case eval_script (conn self)
             (renew_lua (conn self) (lease_key self) holder (ttl_ms ttl)) w of
        (Inr extended, w') \<Rightarrow> (extended = 1, w')
      | (Inl _, w') \<Rightarrow> (False, w'))"

definition redis_lease_obj :: "('w, 'e) redis_lease \<Rightarrow> 'w lease" where
  "redis_lease_obj self = \<lparr>acquire = redis_acquire self, renew = redis_renew self\<rparr>"

section \<open>Documented behaviour of the Redis commands\<close>

type_synonym keyspace = "ustr \<Rightarrow> (ustr \<times> int) option"

definition live_at :: "keyspace \<Rightarrow> int \<Rightarrow> ustr \<Rightarrow> ustr option" where
  "live_at e t k = (case e k of None \<Rightarrow> None | Some (v, deadline) \<Rightarrow>
     if t < deadline then Some v else None)"

definition set_law :: "('w, 'e) redis_client \<Rightarrow> ('w \<Rightarrow> keyspace) \<Rightarrow> ('w \<Rightarrow> int) \<Rightarrow> bool" where
  "set_law R entry clock \<longleftrightarrow>
     (\<forall>k v ms w r w'. cmd_set_nx_px R k v ms w = (r, w') \<longrightarrow>
        (\<exists>t. clock w \<le> t \<and> t \<le> clock w' \<and>
          (if live_at (entry w) t k \<noteq> None \<or> ms \<le> 0
           then entry w' = entry w \<and> (\<forall>s. r \<noteq> Inr (Some s))
           else case r of
               Inr None \<Rightarrow> False
             | Inr (Some _) \<Rightarrow> entry w' = (entry w)(k \<mapsto> (v, t + ms))
             | Inl _ \<Rightarrow> entry w' = entry w \<or> entry w' = (entry w)(k \<mapsto> (v, t + ms)))))"

definition eval_law :: "('w, 'e) redis_client \<Rightarrow> ('w \<Rightarrow> keyspace) \<Rightarrow> ('w \<Rightarrow> int) \<Rightarrow> bool" where
  "eval_law R entry clock \<longleftrightarrow>
     (\<forall>script w r w'. eval_script R script w = (r, w') \<longrightarrow>
        (\<exists>w1 n w2. entry w1 = entry w \<and> clock w \<le> clock w1 \<and> script w1 = (n, w2) \<and>
           (case r of
              Inr m \<Rightarrow> m = n \<and> entry w' = entry w2
            | Inl _ \<Rightarrow> entry w' = entry w \<or> entry w' = entry w2) \<and>
           clock w1 \<le> clock w' \<and> clock w2 \<le> clock w'))"

definition get_law :: "('w, 'e) redis_client \<Rightarrow> ('w \<Rightarrow> keyspace) \<Rightarrow> ('w \<Rightarrow> int) \<Rightarrow> bool" where
  "get_law R entry clock \<longleftrightarrow> (\<forall>k w. call_get R k w = live_at (entry w) (clock w) k)"

definition pexpire_law :: "('w, 'e) redis_client \<Rightarrow> ('w \<Rightarrow> keyspace) \<Rightarrow> ('w \<Rightarrow> int) \<Rightarrow> bool" where
  "pexpire_law R entry clock \<longleftrightarrow>
     (\<forall>k ms w n w'. call_pexpire R k ms w = (n, w') \<longrightarrow> clock w' = clock w \<and>
        (case live_at (entry w) (clock w) k of
           None \<Rightarrow> n = 0 \<and> entry w' = entry w
         | Some v \<Rightarrow> n = 1 \<and>
             entry w' = (entry w)(k := if 0 < ms then Some (v, clock w + ms) else None)))"

definition redis_documented ::
    "('w, 'e) redis_client \<Rightarrow> ('w \<Rightarrow> keyspace) \<Rightarrow> ('w \<Rightarrow> int) \<Rightarrow> bool" where
  "redis_documented R entry clock \<longleftrightarrow>
     set_law R entry clock \<and> eval_law R entry clock \<and>
     get_law R entry clock \<and> pexpire_law R entry clock"

text \<open>A server that behaves so: one key space and a clock that stands still within commands.\<close>

record mini_redis_state =
  mr_entry :: keyspace
  mr_clock :: int

definition mini_redis :: "(mini_redis_state, unit) redis_client" where
  "mini_redis =
     \<lparr>cmd_set_nx_px = (\<lambda>k v ms w.
        if live_at (mr_entry w) (mr_clock w) k \<noteq> None then (Inr None, w)
        else if ms \<le> 0 then (Inl (), w)
        else (Inr (Some (lit ''OK'')), w\<lparr>mr_entry := (mr_entry w)(k \<mapsto> (v, mr_clock w + ms))\<rparr>)),
      eval_script = (\<lambda>script w. case script w of (n, w') \<Rightarrow> (Inr n, w'\<lparr>mr_clock := max (mr_clock w) (mr_clock w')\<rparr>)),
      call_get = (\<lambda>k w. live_at (mr_entry w) (mr_clock w) k),
      call_pexpire = (\<lambda>k ms w. case live_at (mr_entry w) (mr_clock w) k of
          None \<Rightarrow> (0, w)
        | Some v \<Rightarrow> (1, w\<lparr>mr_entry := (mr_entry w)
            (k := if 0 < ms then Some (v, mr_clock w + ms) else None)\<rparr>))\<rparr>"

section \<open>Runs of lease operations\<close>

text \<open>
  Any number of holders use one lease with one TTL; the environment lets time pass
  without touching the key. A label says who did what and with which answer.
\<close>

datatype lease_op = Acquire ustr | Renew ustr | Idle

inductive lease_step ::
    "'w lease \<Rightarrow> duration \<Rightarrow> ('w \<Rightarrow> keyspace) \<Rightarrow> ('w \<Rightarrow> int) \<Rightarrow> 'w \<Rightarrow> lease_op \<times> bool \<Rightarrow> 'w \<Rightarrow> bool"
  for L ttl entry clock where
  step_acquire: "acquire L h ttl w = (b, w') \<Longrightarrow> lease_step L ttl entry clock w (Acquire h, b) w'"
| step_renew: "renew L h ttl w = (b, w') \<Longrightarrow> lease_step L ttl entry clock w (Renew h, b) w'"
| step_idle: "entry w' = entry w \<Longrightarrow> clock w \<le> clock w' \<Longrightarrow>
    lease_step L ttl entry clock w (Idle, False) w'"

inductive lease_run ::
    "'w lease \<Rightarrow> duration \<Rightarrow> ('w \<Rightarrow> keyspace) \<Rightarrow> ('w \<Rightarrow> int) \<Rightarrow> 'w \<Rightarrow> (lease_op \<times> bool) list \<Rightarrow> 'w \<Rightarrow> bool"
  for L ttl entry clock where
  run_nil: "lease_run L ttl entry clock w [] w"
| run_cons: "lease_step L ttl entry clock w a w' \<Longrightarrow> lease_run L ttl entry clock w' as w'' \<Longrightarrow>
    lease_run L ttl entry clock w (a # as) w''"

fun op_holder :: "lease_op \<Rightarrow> ustr option" where
  "op_holder (Acquire h) = Some h"
| "op_holder (Renew h) = Some h"
| "op_holder Idle = None"

inductive_cases lease_step_elim: "lease_step L ttl entry clock w a w'"

section \<open>The contracts\<close>

text \<open>
  What the leader gate relies on: \<open>true\<close> from either method means that the lease now
  records the holder.
\<close>

locale lease_trait =
  fixes L :: "'w lease" and ttl :: duration and holds :: "'w \<Rightarrow> ustr \<Rightarrow> bool"
  assumes acquire_grants: "acquire L h ttl w = (True, w') \<Longrightarrow> holds w' h"
    and renew_grants: "renew L h ttl w = (True, w') \<Longrightarrow> holds w' h"

interpretation memory: lease_trait memory_lease ttl "\<lambda>_ _. True" for ttl
  by unfold_locales simp_all

text \<open>
  What makes a lease exclusive, over the steps of its runs: a granted operation records
  its holder for at least the TTL; until the deadline no other holder's operation is
  granted, and the record stays; the clock does not run backwards.
\<close>

locale exclusive_lease =
  fixes L :: "'w lease" and ttl :: duration and entry :: "'w \<Rightarrow> keyspace"
    and clock :: "'w \<Rightarrow> int" and key :: ustr
  assumes granted: "lease_step L ttl entry clock w (op, True) w' \<Longrightarrow>
      \<exists>h d. op_holder op = Some h \<and> entry w' key = Some (h, d) \<and> clock w + ttl_ms ttl \<le> d"
    and kept: "lease_step L ttl entry clock w (op, b) w' \<Longrightarrow> entry w key = Some (h, d) \<Longrightarrow>
      dl \<le> d \<Longrightarrow> dl \<le> clock w + ttl_ms ttl \<Longrightarrow> clock w' < dl \<Longrightarrow>
      (\<exists>d'. entry w' key = Some (h, d') \<and> dl \<le> d') \<and> (b \<longrightarrow> op_holder op = Some h)"
    and clock_mono: "lease_step L ttl entry clock w a w' \<Longrightarrow> clock w \<le> clock w'"
begin

lemma run_clock_mono: "lease_run L ttl entry clock w as w' \<Longrightarrow> clock w \<le> clock w'"
  by (induction rule: lease_run.induct) (auto dest: clock_mono)

lemma run_kept:
  assumes "lease_run L ttl entry clock w as w'"
    and "entry w key = Some (h, d)" "dl \<le> d" "dl \<le> clock w + ttl_ms ttl" "clock w' < dl"
  shows "\<exists>d'. entry w' key = Some (h, d') \<and> dl \<le> d'"
  using assms
proof (induction arbitrary: d rule: lease_run.induct)
  case (run_nil w)
  then show ?case by blast
next
  case (run_cons w a w' as w'')
  obtain op b where a: "a = (op, b)" by (cases a)
  have mono: "clock w \<le> clock w'" "clock w' \<le> clock w''"
    using run_cons.hyps clock_mono run_clock_mono by blast+
  then obtain d' where "entry w' key = Some (h, d')" "dl \<le> d'"
    using kept [OF run_cons.hyps(1) [unfolded a] run_cons.prems(1-3)] run_cons.prems(4) by auto
  moreover have "dl \<le> clock w' + ttl_ms ttl" using run_cons.prems(3) mono by linarith
  ultimately show ?case using run_cons.IH run_cons.prems(4) by blast
qed

lemma grants_apart:
  assumes first: "lease_step L ttl entry clock w0 (op1, True) w1"
    and between: "lease_run L ttl entry clock w1 as w2"
    and second: "lease_step L ttl entry clock w2 (op2, True) w3"
    and other: "op_holder op1 \<noteq> op_holder op2"
  shows "clock w0 + ttl_ms ttl \<le> clock w3"
proof (rule ccontr)
  assume "\<not> clock w0 + ttl_ms ttl \<le> clock w3"
  then have late: "clock w3 < clock w0 + ttl_ms ttl" by simp
  obtain h d where h: "op_holder op1 = Some h" "entry w1 key = Some (h, d)"
      "clock w0 + ttl_ms ttl \<le> d"
    using granted [OF first] by blast
  have mono: "clock w0 \<le> clock w1" "clock w1 \<le> clock w2" "clock w2 \<le> clock w3"
    using clock_mono [OF first] run_clock_mono [OF between] clock_mono [OF second] .
  obtain d' where d': "entry w2 key = Some (h, d')" "clock w0 + ttl_ms ttl \<le> d'"
    using run_kept [OF between h(2,3)] mono late by auto
  have "op_holder op2 = Some h"
    using kept [OF second d'] mono late by auto
  with h(1) other show False by simp
qed

end

sublocale exclusive_lease \<subseteq> lease_trait L ttl "\<lambda>w h. \<exists>d. entry w key = Some (h, d)"
proof
  fix h w w'
  show "acquire L h ttl w = (True, w') \<Longrightarrow> \<exists>d. entry w' key = Some (h, d)"
    using granted [OF step_acquire, of h w w'] by auto
  show "renew L h ttl w = (True, w') \<Longrightarrow> \<exists>d. entry w' key = Some (h, d)"
    using granted [OF step_renew, of h w w'] by auto
qed

section \<open>The Redis lease keeps them\<close>

lemmas redis_laws = redis_documented_def set_law_def eval_law_def get_law_def pexpire_law_def

lemma redis_acquire_effect:
  assumes doc: "redis_documented (conn l) entry clock" and eq: "redis_acquire l h ttl w = (b, w')"
  shows "\<exists>t. clock w \<le> t \<and> t \<le> clock w' \<and>
    (if live_at (entry w) t (lease_key l) \<noteq> None \<or> ttl_ms ttl \<le> 0 then \<not> b \<and> entry w' = entry w
     else entry w' = (entry w)(lease_key l \<mapsto> (h, t + ttl_ms ttl)) \<or> \<not> b \<and> entry w' = entry w)"
proof -
  obtain r where r: "cmd_set_nx_px (conn l) (lease_key l) h (ttl_ms ttl) w = (r, w')"
    and b: "b \<longleftrightarrow> (\<exists>s. r = Inr (Some s))"
    using eq by (auto simp: redis_acquire_def split: prod.splits sum.splits)
  obtain t where "clock w \<le> t" "t \<le> clock w'"
    "if live_at (entry w) t (lease_key l) \<noteq> None \<or> ttl_ms ttl \<le> 0
     then entry w' = entry w \<and> (\<forall>s. r \<noteq> Inr (Some s))
     else case r of Inr None \<Rightarrow> False
       | Inr (Some _) \<Rightarrow> entry w' = (entry w)(lease_key l \<mapsto> (h, t + ttl_ms ttl))
       | Inl _ \<Rightarrow> entry w' = entry w \<or> entry w' = (entry w)(lease_key l \<mapsto> (h, t + ttl_ms ttl))"
    using doc r unfolding redis_documented_def set_law_def by blast
  then show ?thesis
    by (intro exI [of _ t]) (auto simp: b split: if_splits sum.splits option.splits)
qed

lemma redis_renew_effect:
  assumes doc: "redis_documented (conn l) entry clock" and eq: "redis_renew l h ttl w = (b, w')"
  shows "\<exists>t. clock w \<le> t \<and> t \<le> clock w' \<and>
    (if live_at (entry w) t (lease_key l) = Some h
     then 0 < ttl_ms ttl \<longrightarrow>
       entry w' = (entry w)(lease_key l \<mapsto> (h, t + ttl_ms ttl)) \<or> \<not> b \<and> entry w' = entry w
     else \<not> b \<and> entry w' = entry w)"
proof -
  let ?script = "renew_lua (conn l) (lease_key l) h (ttl_ms ttl)"
  obtain r where r: "eval_script (conn l) ?script w = (r, w')" and b: "b \<longleftrightarrow> r = Inr 1"
    using eq by (auto simp: redis_renew_def split: prod.splits sum.splits)
  obtain w1 n w2 where e: "entry w1 = entry w" "clock w \<le> clock w1" "clock w1 \<le> clock w'"
      and n: "?script w1 = (n, w2)"
      and reply: "case r of Inr m \<Rightarrow> m = n \<and> entry w' = entry w2
        | Inl _ \<Rightarrow> entry w' = entry w \<or> entry w' = entry w2"
    using doc r unfolding redis_documented_def eval_law_def by blast
  have "call_get (conn l) (lease_key l) w1 = live_at (entry w) (clock w1) (lease_key l)"
    using doc e(1) by (simp add: redis_documented_def get_law_def)
  moreover have "call_pexpire (conn l) (lease_key l) (ttl_ms ttl) w1 = (n, w2) \<Longrightarrow>
      live_at (entry w) (clock w1) (lease_key l) = Some h \<Longrightarrow> 0 < ttl_ms ttl \<Longrightarrow>
      entry w2 = (entry w)(lease_key l \<mapsto> (h, clock w1 + ttl_ms ttl))"
    using doc e(1) by (auto simp: redis_documented_def pexpire_law_def split: option.splits)
  ultimately show ?thesis
    using n reply e by (intro exI [of _ "clock w1"])
      (auto simp: b renew_lua_def split: if_splits sum.splits)
qed

lemma live_at_Some: "e k = Some (v, d) \<Longrightarrow> t < d \<Longrightarrow> live_at e t k = Some v"
  by (simp add: live_at_def)

lemma redis_exclusive:
  assumes doc: "redis_documented (conn l) entry clock" and ttl: "0 < ttl_ms ttl"
  shows "exclusive_lease (redis_lease_obj l) ttl entry clock (lease_key l)"
proof
  fix w op w'
  assume "lease_step (redis_lease_obj l) ttl entry clock w (op, True) w'"
  then show "\<exists>h d. op_holder op = Some h \<and> entry w' (lease_key l) = Some (h, d) \<and> clock w + ttl_ms ttl \<le> d"
    using redis_acquire_effect [OF doc, of _ ttl w True w'] redis_renew_effect [OF doc, of _ ttl w True w'] ttl
    by (elim lease_step_elim) (fastforce simp: redis_lease_obj_def split: if_splits)+
next
  fix w op b w' h d dl
  assume step: "lease_step (redis_lease_obj l) ttl entry clock w (op, b) w'"
    and e: "entry w (lease_key l) = Some (h, d)" and dl: "dl \<le> d" "dl \<le> clock w + ttl_ms ttl" "clock w' < dl"
  have live: "t \<le> clock w' \<Longrightarrow> live_at (entry w) t (lease_key l) = Some h" for t
    using e dl by (auto intro: live_at_Some)
  from step show "(\<exists>d'. entry w' (lease_key l) = Some (h, d') \<and> dl \<le> d') \<and> (b \<longrightarrow> op_holder op = Some h)"
  proof cases
    case (step_acquire h')
    then show ?thesis using redis_acquire_effect [OF doc, of h' ttl w b w'] live e dl
      by (fastforce simp: redis_lease_obj_def)
  next
    case (step_renew h')
    then show ?thesis using redis_renew_effect [OF doc, of h' ttl w b w'] live e dl ttl
      by (fastforce simp: redis_lease_obj_def split: if_splits)
  qed (use e dl in auto)
next
  fix w a w'
  assume "lease_step (redis_lease_obj l) ttl entry clock w a w'"
  then show "clock w \<le> clock w'"
    using redis_acquire_effect [OF doc] redis_renew_effect [OF doc]
    by (elim lease_step_elim) (fastforce simp: redis_lease_obj_def)+
qed

lemma redis_acquire_own_record:
  assumes "redis_documented (conn l) entry clock" "redis_acquire l h ttl w = (b, w')"
    and "entry w (lease_key l) = Some (h, d)" "clock w' < d"
  shows "\<not> b \<and> entry w' = entry w"
proof -
  obtain t where "t \<le> clock w'" and eff: "if live_at (entry w) t (lease_key l) \<noteq> None \<or> ttl_ms ttl \<le> 0
      then \<not> b \<and> entry w' = entry w
      else entry w' = (entry w)(lease_key l \<mapsto> (h, t + ttl_ms ttl)) \<or> \<not> b \<and> entry w' = entry w"
    using redis_acquire_effect [OF assms(1,2)] by blast
  with assms(3,4) have "live_at (entry w) t (lease_key l) = Some h" by (intro live_at_Some) auto
  with eff show ?thesis by simp
qed

lemma redis_lapsed_grant:
  assumes "redis_documented (conn l) entry clock" "0 < ttl_ms ttl"
    and "cmd_set_nx_px (conn l) (lease_key l) h (ttl_ms ttl) w = (Inr reply, w')"
    and "\<forall>t \<in> {clock w..clock w'}. live_at (entry w) t (lease_key l) = None"
  shows "redis_acquire l h ttl w = (True, w') \<and>
    (\<exists>d. entry w' (lease_key l) = Some (h, d) \<and> clock w + ttl_ms ttl \<le> d)"
proof -
  obtain t where "clock w \<le> t" "t \<le> clock w'"
    "if live_at (entry w) t (lease_key l) \<noteq> None \<or> ttl_ms ttl \<le> 0
     then entry w' = entry w \<and> (\<forall>s. Inr reply \<noteq> (Inr (Some s) :: 'b + ustr option))
     else case Inr reply :: 'b + ustr option of Inr None \<Rightarrow> False
       | Inr (Some _) \<Rightarrow> entry w' = (entry w)(lease_key l \<mapsto> (h, t + ttl_ms ttl))
       | Inl _ \<Rightarrow> entry w' = entry w \<or> entry w' = (entry w)(lease_key l \<mapsto> (h, t + ttl_ms ttl))"
    using assms(1,3) unfolding redis_documented_def set_law_def by blast
  then show ?thesis
    using assms by (auto simp: redis_acquire_def split: option.splits)
qed

lemma mini_redis_documented: "redis_documented mini_redis mr_entry mr_clock"
  unfolding redis_documented_def
proof (intro conjI)
  show "set_law mini_redis mr_entry mr_clock"
    by (fastforce simp: set_law_def mini_redis_def split: if_splits)
  show "eval_law mini_redis mr_entry mr_clock"
    by (fastforce simp: eval_law_def mini_redis_def split: prod.splits)
  show "get_law mini_redis mr_entry mr_clock"
    by (simp add: get_law_def mini_redis_def)
  show "pexpire_law mini_redis mr_entry mr_clock"
    by (auto simp: pexpire_law_def mini_redis_def split: option.splits)
qed

lemma ttl_ms_eq: "ttl_ms d = min (int (d div 1000000)) (2 ^ 63 - 1)"
proof (cases "d div 1000000 < 2 ^ 63")
  case True
  then have "int (d div 1000000) < int (2 ^ 63)" by (simp only: of_nat_less_iff)
  with True show ?thesis by (simp add: ttl_ms_def as_millis_def Let_def del: zdiv_int)
next
  case False
  then have "int (2 ^ 63) \<le> int (d div 1000000)" by (simp only: of_nat_le_iff)
  with False show ?thesis by (simp add: ttl_ms_def as_millis_def Let_def)
qed

lemma default_ttl_ms: "ttl_ms default_lease_ttl = 30000"
  by (simp add: ttl_ms_eq default_lease_ttl_def from_secs_def nanos_per_sec_def)

interpretation redis: exclusive_lease
  "redis_lease_obj \<lparr>conn = mini_redis, lease_key = k\<rparr>" default_lease_ttl mr_entry mr_clock k for k
  using redis_exclusive [of "\<lparr>conn = mini_redis, lease_key = k\<rparr>"] mini_redis_documented
  by (simp add: default_ttl_ms)

section \<open>Properties\<close>

text \<open>
  C8: Mutual exclusion of the Redis lease. Among any number of holders that use one key
  with one TTL of at least 1 ms, in any order, with lost replies, transport errors and
  time passing inside and between commands: once one holder's \<open>acquire\<close> or \<open>renew\<close> was
  answered \<open>true\<close>, no other holder's call is answered \<open>true\<close> until the TTL has run out,
  counted from the moment the first call was sent.
\<close>

theorem redis_grants_apart:
  assumes "redis_documented (conn l) entry clock" "0 < ttl_ms ttl"
    and "lease_step (redis_lease_obj l) ttl entry clock w0 (op1, True) w1"
    and "lease_run (redis_lease_obj l) ttl entry clock w1 as w2"
    and "lease_step (redis_lease_obj l) ttl entry clock w2 (op2, True) w3"
    and "op_holder op1 \<noteq> op_holder op2"
  shows "clock w0 + ttl_ms ttl \<le> clock w3"
  using redis_exclusive [OF assms(1,2)] assms(3-6) by (rule exclusive_lease.grants_apart)

theorem redis_grants_apart_witness:
  "let l = \<lparr>conn = mini_redis, lease_key = lit ''k''\<rparr>;
       w2 = \<lparr>mr_entry = [lit ''k'' \<mapsto> (lit ''a'', 30000)], mr_clock = 30000\<rparr>;
       w3 = \<lparr>mr_entry = [lit ''k'' \<mapsto> (lit ''b'', 60000)], mr_clock = 30000\<rparr>
   in lease_step (redis_lease_obj l) default_lease_ttl mr_entry mr_clock w2 (Acquire (lit ''b''), True) w3 \<and>
      0 + ttl_ms default_lease_ttl \<le> mr_clock w3"
proof -
  let ?l = "\<lparr>conn = mini_redis, lease_key = lit ''k''\<rparr>"
  let ?w0 = "\<lparr>mr_entry = (\<lambda>_. None), mr_clock = 0\<rparr>"
  let ?w1 = "\<lparr>mr_entry = [lit ''k'' \<mapsto> (lit ''a'', 30000)], mr_clock = 0\<rparr>"
  let ?w2 = "\<lparr>mr_entry = [lit ''k'' \<mapsto> (lit ''a'', 30000)], mr_clock = 30000\<rparr>"
  let ?w3 = "\<lparr>mr_entry = [lit ''k'' \<mapsto> (lit ''b'', 60000)], mr_clock = 30000\<rparr>"
  let ?step = "lease_step (redis_lease_obj ?l) default_lease_ttl mr_entry mr_clock"
  have s1: "?step ?w0 (Acquire (lit ''a''), True) ?w1"
    by (rule step_acquire)
      (simp add: redis_lease_obj_def redis_acquire_def mini_redis_def live_at_def default_ttl_ms)
  have "?step ?w1 (Idle, False) ?w2" by (rule step_idle) simp_all
  then have run: "lease_run (redis_lease_obj ?l) default_lease_ttl mr_entry mr_clock ?w1 [(Idle, False)] ?w2"
    by (rule run_cons) (rule run_nil)
  have s2: "?step ?w2 (Acquire (lit ''b''), True) ?w3"
    by (rule step_acquire)
      (simp add: redis_lease_obj_def redis_acquire_def mini_redis_def live_at_def default_ttl_ms)
  have "mr_clock ?w0 + ttl_ms default_lease_ttl \<le> mr_clock ?w3"
    by (rule redis_grants_apart [OF _ _ s1 run s2])
      (simp_all add: mini_redis_documented default_ttl_ms lit_def)
  then show ?thesis using s2 by (simp add: Let_def)
qed

text \<open>
  A lapsed lease can be taken: if the key is not live from the moment \<open>acquire\<close> is sent
  to the moment it is answered, a positive TTL makes the answer \<open>true\<close> unless the client
  reports an error, and the key then records the caller for at least the TTL.
\<close>

lemma redis_lapsed_acquirable:
  assumes "redis_documented (conn l) entry clock" "0 < ttl_ms ttl"
    and "cmd_set_nx_px (conn l) (lease_key l) h (ttl_ms ttl) w = (Inr reply, w')"
    and "\<forall>t \<in> {clock w..clock w'}. live_at (entry w) t (lease_key l) = None"
  shows "redis_acquire l h ttl w = (True, w') \<and>
    (\<exists>d. entry w' (lease_key l) = Some (h, d) \<and> clock w + ttl_ms ttl \<le> d)"
  using assms by (rule redis_lapsed_grant)

text \<open>
  The \<open>PX\<close> argument: whole milliseconds, exact up to \<open>i64::MAX\<close> and saturating there,
  for every duration a caller can construct; a longer TTL never gives a smaller argument.
\<close>

lemma ttl_ms_saturates:
  "ttl_ms d = min (int (d div 1000000)) (2 ^ 63 - 1) \<and> 0 \<le> ttl_ms d \<and> ttl_ms d < 2 ^ 63 \<and>
   ttl_ms d \<le> ttl_ms (d + e)"
  by (simp add: ttl_ms_eq div_le_mono min_le_iff_disj del: zdiv_int)

end
