(* ===== verification/Runner.thy ===== *)
theory Runner
  imports Job Lease
begin

text \<open>
  \<open>src/runner.rs\<close>, one fire of a job: the leader gate, the call of the closure (plain or
  through the circuit breaker) and the recording of its outcome. The scheduling loop
  around it is in \<open>Run_Loop\<close>.

  The build modelled has every feature on (\<open>breaker\<close>, \<open>cron\<close>, \<open>leader\<close>, \<open>redis\<close>) and is a
  release build: the \<open>+ 1\<close> on the \<open>u32\<close> failure streak wraps. The \<open>breaker\<close> crate is a
  parameter (\<open>breaker_crate\<close>); its \<open>call\<close> takes the operation as a function on the world and
  decides whether to run it. \<open>Relaxed\<close> atomics are plain fields: a runner's counters have
  one writer, its own loop (what other threads see of them is in \<open>Snapshots\<close>). What panics leaves the fields written so far.
\<close>

section \<open>Data\<close>

definition job_panic_message :: ustr where
  "job_panic_message = lit ''job panicked (panic payload has no Display)''"

definition job_unclassified_message :: ustr where
  "job_unclassified_message =
     lit ''job rejected by unclassified breaker error (timed out, or a future variant)''"

datatype fire_outcome = Success | Failure ustr | Paused

record stats =
  fires :: u64
  failures :: u64
  skips :: u64
  paused :: u64
  consecutive :: u32
  degraded :: bool
  last_error :: "ustr option"

definition stats_default :: stats where
  "stats_default = \<lparr>fires = 0, failures = 0, skips = 0, paused = 0, consecutive = 0,
     degraded = False, last_error = None\<rparr>"

text \<open>The breaker crate: errors of a call, circuit states, and the operations.\<close>

datatype cb_error = CircuitOpen | Rejected | CbFailure job_error | CbOther

datatype cb_state = Closed | Open | HalfOpen

record ('w, 'b, 'cfg, 'm) breaker_crate =
  cb_new :: "'cfg \<Rightarrow> 'b"
  cb_call :: "('w \<Rightarrow> (job_error + unit) res \<times> 'w) \<Rightarrow> 'b \<Rightarrow> 'w \<Rightarrow> (cb_error + unit) res \<times> 'b \<times> 'w"
  cb_state_of :: "'b \<Rightarrow> 'w \<Rightarrow> cb_state"
  cb_metrics_of :: "'b \<Rightarrow> 'm"

record ('w, 'g, 'b) job_runner =
  spec :: "('w, 'g) job_spec"
  runner_jitter :: jitter_policy
  breaker :: "'b option"
  runner_lease :: "'w lease option"
  runner_lease_ttl :: duration
  leader_held :: bool
  rstats :: stats

section \<open>Construction\<close>

definition job_runner_new :: "('w, 'g) job_spec \<Rightarrow> jitter_policy \<Rightarrow> ('w, 'g, 'b) job_runner" where
  "job_runner_new s j =
     \<lparr>spec = s, runner_jitter = j, breaker = None, runner_lease = None,
      runner_lease_ttl = default_lease_ttl, leader_held = False, rstats = stats_default\<rparr>"

definition with_breaker ::
    "('w, 'b, 'cfg, 'm) breaker_crate \<Rightarrow> 'cfg \<Rightarrow> ('w, 'g, 'b) job_runner \<Rightarrow> ('w, 'g, 'b) job_runner" where
  "with_breaker B config self = self\<lparr>breaker := Some (cb_new B config)\<rparr>"

definition with_lease ::
    "'w lease option \<Rightarrow> duration \<Rightarrow> ('w, 'g, 'b) job_runner \<Rightarrow> ('w, 'g, 'b) job_runner" where
  "with_lease l ttl self = self\<lparr>runner_lease := l, runner_lease_ttl := ttl\<rparr>"

section \<open>Snapshots\<close>

record job_status =
  js_name :: ustr
  js_trigger :: trigger
  js_fires :: u64
  js_failures :: u64
  js_skips :: u64
  js_paused :: u64
  js_consecutive_failures :: u32
  js_degraded :: bool
  js_last_error :: "ustr option"

record job_run_summary =
  rs_name :: ustr
  rs_fires :: u64
  rs_failures :: u64
  rs_skips :: u64
  rs_paused :: u64
  rs_degraded :: bool
  rs_last_error :: "ustr option"

definition runner_name :: "('w, 'g, 'b) job_runner \<Rightarrow> ustr" where
  "runner_name self = spec_name (spec self)"

definition summary :: "('w, 'g, 'b) job_runner \<Rightarrow> job_run_summary" where
  "summary self =
     \<lparr>rs_name = spec_name (spec self), rs_fires = fires (rstats self),
      rs_failures = failures (rstats self), rs_skips = skips (rstats self),
      rs_paused = paused (rstats self), rs_degraded = degraded (rstats self),
      rs_last_error = last_error (rstats self)\<rparr>"

definition status :: "('w, 'g, 'b) job_runner \<Rightarrow> job_status" where
  "status self =
     \<lparr>js_name = spec_name (spec self), js_trigger = spec_trigger (spec self),
      js_fires = fires (rstats self), js_failures = failures (rstats self),
      js_skips = skips (rstats self), js_paused = paused (rstats self),
      js_consecutive_failures = consecutive (rstats self),
      js_degraded = degraded (rstats self), js_last_error = last_error (rstats self)\<rparr>"

definition runner_breaker_state ::
    "('w, 'b, 'cfg, 'm) breaker_crate \<Rightarrow> ('w, 'g, 'b) job_runner \<Rightarrow> 'w \<Rightarrow> cb_state option" where
  "runner_breaker_state B self w = map_option (\<lambda>b. cb_state_of B b w) (breaker self)"

definition runner_breaker_metrics ::
    "('w, 'b, 'cfg, 'm) breaker_crate \<Rightarrow> ('w, 'g, 'b) job_runner \<Rightarrow> 'm option" where
  "runner_breaker_metrics B self = map_option (cb_metrics_of B) (breaker self)"

definition record_last_error :: "ustr \<Rightarrow> ('w, 'g, 'b) job_runner \<Rightarrow> ('w, 'g, 'b) job_runner" where
  "record_last_error message self = self\<lparr>rstats := (rstats self)\<lparr>last_error := Some message\<rparr>\<rparr>"

section \<open>Calling the closure\<close>

definition invoke_plain :: "('w, 'g) job \<Rightarrow> 'g job_context \<Rightarrow> 'w \<Rightarrow> fire_outcome res \<times> 'w" where
  "invoke_plain job ctx w =
     (case job ctx w of
        (Call_panics, w') \<Rightarrow> (Inl User_panic, w')
      | (Returns (Inr _), w') \<Rightarrow> (Inr Success, w')
      | (Returns (Inl e), w') \<Rightarrow> (Inr (Failure (job_error_to_string e)), w')
      | (Panics, w') \<Rightarrow> (Inr (Failure job_panic_message), w'))"

text \<open>The operation handed to the breaker: job errors and caught panics are its errors.\<close>

definition breaker_op :: "('w, 'g) job \<Rightarrow> 'g job_context \<Rightarrow> 'w \<Rightarrow> (job_error + unit) res \<times> 'w" where
  "breaker_op job ctx w =
     (case job ctx w of
        (Call_panics, w') \<Rightarrow> (Inl User_panic, w')
      | (Returns (Inr _), w') \<Rightarrow> (Inr (Inr ()), w')
      | (Returns (Inl e), w') \<Rightarrow> (Inr (Inl e), w')
      | (Panics, w') \<Rightarrow> (Inr (Inl (job_error_msg job_panic_message)), w'))"

definition invoke_through_breaker ::
    "('w, 'b, 'cfg, 'm) breaker_crate \<Rightarrow> 'b \<Rightarrow> ('w, 'g) job \<Rightarrow> 'g job_context \<Rightarrow> 'w \<Rightarrow>
     fire_outcome res \<times> 'b \<times> 'w" where
  "invoke_through_breaker B b job ctx w =
     (case cb_call B (breaker_op job ctx) b w of
        (Inl p, b', w') \<Rightarrow> (Inl p, b', w')
      | (Inr (Inr _), b', w') \<Rightarrow> (Inr Success, b', w')
      | (Inr (Inl CircuitOpen), b', w') \<Rightarrow> (Inr Paused, b', w')
      | (Inr (Inl Rejected), b', w') \<Rightarrow> (Inr Paused, b', w')
      | (Inr (Inl (CbFailure e)), b', w') \<Rightarrow> (Inr (Failure (job_error_to_string e)), b', w')
      | (Inr (Inl CbOther), b', w') \<Rightarrow> (Inr (Failure job_unclassified_message), b', w'))"

definition invoke ::
    "('w, 'b, 'cfg, 'm) breaker_crate \<Rightarrow> 'g job_context \<Rightarrow> ('w, 'g, 'b) job_runner \<Rightarrow> 'w \<Rightarrow>
     fire_outcome res \<times> ('w, 'g, 'b) job_runner \<times> 'w" where
  "invoke B ctx self w =
     (let job = closure (spec self) in
      case (if use_breaker (spec self) then breaker self else None) of
        Some b \<Rightarrow> (case invoke_through_breaker B b job ctx w of
            (r, b', w') \<Rightarrow> (r, self\<lparr>breaker := Some b'\<rparr>, w'))
      | None \<Rightarrow> (case invoke_plain job ctx w of (r, w') \<Rightarrow> (r, self, w')))"

section \<open>One fire\<close>

definition leader_gate ::
    "ustr \<Rightarrow> ('w, 'g, 'b) job_runner \<Rightarrow> 'w \<Rightarrow> bool \<times> ('w, 'g, 'b) job_runner \<times> 'w" where
  "leader_gate holder self w =
     (if leader (spec self) then
        let l = (case runner_lease self of Some l \<Rightarrow> l | None \<Rightarrow> memory_lease);
            ttl = runner_lease_ttl self;
            (elected, w') =
              (if leader_held self
               then case renew l holder ttl w of
                   (True, w1) \<Rightarrow> (True, w1)
                 | (False, w1) \<Rightarrow> acquire l holder ttl w1
               else acquire l holder ttl w)
        in if elected then (True, self\<lparr>leader_held := True\<rparr>, w')
           else (False, self\<lparr>rstats := (rstats self)\<lparr>skips := skips (rstats self) + 1\<rparr>\<rparr>, w')
      else (True, self, w))"

fun record_outcome ::
    "fire_outcome \<Rightarrow> ('w, 'g, 'b) job_runner \<Rightarrow> 'w \<Rightarrow> unit res \<times> ('w, 'g, 'b) job_runner \<times> 'w" where
  "record_outcome Success self w =
     (let st = rstats self in
      (Inr (), self\<lparr>rstats := st\<lparr>fires := fires st + 1, consecutive := 0, degraded := False\<rparr>\<rparr>, w))"
| "record_outcome (Failure message) self w =
     (let st = rstats self;
          c = consecutive st + 1;
          self1 = self\<lparr>rstats := st\<lparr>fires := fires st + 1, failures := failures st + 1, consecutive := c\<rparr>\<rparr>
      in if failure_budget (spec self) \<le> c then
           let was = degraded st;
               self2 = self1\<lparr>rstats := (rstats self1)\<lparr>degraded := True\<rparr>\<rparr>
           in case (if was then None else on_degraded (spec self)) of
                None \<Rightarrow> (Inr (), record_last_error message self2, w)
              | Some hook \<Rightarrow> (case hook message w of
                    (Inl p, w') \<Rightarrow> (Inl p, self2, w')
                  | (Inr _, w') \<Rightarrow> (Inr (), record_last_error message self2, w'))
         else (Inr (), record_last_error message self1, w))"
| "record_outcome Paused self w =
     (let st = rstats self in (Inr (), self\<lparr>rstats := st\<lparr>paused := paused st + 1\<rparr>\<rparr>, w))"

text \<open>The gate and the call, then the recording; \<open>None\<close> is a fire the gate skipped.\<close>

definition fire_attempt ::
    "('w, 'b, 'cfg, 'm) breaker_crate \<Rightarrow> 'g \<Rightarrow> ustr \<Rightarrow> ('w, 'g, 'b) job_runner \<Rightarrow> 'w \<Rightarrow>
     fire_outcome option res \<times> ('w, 'g, 'b) job_runner \<times> 'w" where
  "fire_attempt B shutdown holder self w =
     (case leader_gate holder self w of
        (False, self', w') \<Rightarrow> (Inr None, self', w')
      | (True, self', w') \<Rightarrow>
          let ctx = \<lparr>worker_name = spec_name (spec self), ctx_trigger = spec_trigger (spec self),
                     ctx_shutdown = shutdown\<rparr>
          in case invoke B ctx self' w' of
               (Inl p, self'', w'') \<Rightarrow> (Inl p, self'', w'')
             | (Inr out, self'', w'') \<Rightarrow> (Inr (Some out), self'', w''))"

definition fire ::
    "('w, 'b, 'cfg, 'm) breaker_crate \<Rightarrow> 'g \<Rightarrow> ustr \<Rightarrow> ('w, 'g, 'b) job_runner \<Rightarrow> 'w \<Rightarrow>
     unit res \<times> ('w, 'g, 'b) job_runner \<times> 'w" where
  "fire B shutdown holder self w =
     (case fire_attempt B shutdown holder self w of
        (Inl p, self', w') \<Rightarrow> (Inl p, self', w')
      | (Inr None, self', w') \<Rightarrow> (Inr (), self', w')
      | (Inr (Some out), self', w') \<Rightarrow> record_outcome out self' w')"

section \<open>Specification: statistics as a function of the history\<close>

text \<open>
  A history lists what each fire did: \<open>None\<close> for a fire the leader gate skipped, else the
  outcome of the invocation. The world may change arbitrarily between two fires.
\<close>

type_synonym history = "fire_outcome option list"

inductive fire_history ::
    "('w, 'b, 'cfg, 'm) breaker_crate \<Rightarrow> 'g \<Rightarrow> ustr \<Rightarrow> ('w, 'g, 'b) job_runner \<Rightarrow> history \<Rightarrow>
     ('w, 'g, 'b) job_runner \<Rightarrow> bool"
  for B shutdown holder r where
  history_nil: "fire_history B shutdown holder r [] r"
| history_snoc: "fire_history B shutdown holder r hs r1 \<Longrightarrow>
    fire_attempt B shutdown holder r1 w = (Inr obs, r2, w2) \<Longrightarrow>
    fire B shutdown holder r1 w = (Inr (), r3, w3) \<Longrightarrow>
    fire_history B shutdown holder r (hs @ [obs]) r3"

fun invoked :: "fire_outcome option \<Rightarrow> bool" where
  "invoked (Some Success) = True"
| "invoked (Some (Failure _)) = True"
| "invoked _ = False"

fun failed :: "fire_outcome option \<Rightarrow> bool" where
  "failed (Some (Failure _)) = True"
| "failed _ = False"

fun failure_message :: "fire_outcome option \<Rightarrow> ustr option" where
  "failure_message (Some (Failure m)) = Some m"
| "failure_message _ = None"

text \<open>The failures since the last success: skips and pauses neither extend nor break the streak.\<close>

definition streak :: "history \<Rightarrow> nat" where
  "streak hs = length (takeWhile failed (rev (filter invoked hs)))"

definition tally :: "(fire_outcome option \<Rightarrow> bool) \<Rightarrow> history \<Rightarrow> u64" where
  "tally P hs = of_nat (length (filter P hs))"

definition effective_budget :: "u32 \<Rightarrow> nat" where
  "effective_budget b = max 1 (unat b)"

definition last_failure :: "history \<Rightarrow> ustr option" where
  "last_failure hs =
     (let fs = filter failed hs in if fs = [] then None else failure_message (last fs))"

definition stats_of :: "u32 \<Rightarrow> history \<Rightarrow> stats" where
  "stats_of budget hs =
     \<lparr>fires = tally invoked hs, failures = tally failed hs, skips = tally (\<lambda>h. h = None) hs,
      paused = tally (\<lambda>h. h = Some Paused) hs, consecutive = of_nat (streak hs),
      degraded = (effective_budget budget \<le> streak hs), last_error = last_failure hs\<rparr>"

text \<open>The part of a runner that is fixed at registration.\<close>

definition wiring ::
    "('w, 'g, 'b) job_runner \<Rightarrow> ('w, 'g) job_spec \<times> jitter_policy \<times> 'w lease option \<times> duration" where
  "wiring r = (spec r, runner_jitter r, runner_lease r, runner_lease_ttl r)"

text \<open>The context a fire hands to the closure.\<close>

definition fire_context :: "('w, 'g, 'b) job_runner \<Rightarrow> 'g \<Rightarrow> 'g job_context" where
  "fire_context r g = \<lparr>worker_name = spec_name (spec r), ctx_trigger = spec_trigger (spec r), ctx_shutdown = g\<rparr>"

text \<open>
  The gate while other holders use the same lease: between a refused renewal and the
  acquisition it falls back to, any lease traffic may take place.
\<close>

inductive gate_exec ::
    "'w lease \<Rightarrow> duration \<Rightarrow> ('w \<Rightarrow> keyspace) \<Rightarrow> ('w \<Rightarrow> int) \<Rightarrow> ustr \<Rightarrow> bool \<Rightarrow> 'w \<Rightarrow> bool \<Rightarrow> 'w \<Rightarrow> bool"
  for L ttl entry clock holder where
  gate_renewed: "renew L holder ttl w = (True, w') \<Longrightarrow> gate_exec L ttl entry clock holder True w True w'"
| gate_fallback: "renew L holder ttl w = (False, w1) \<Longrightarrow> lease_run L ttl entry clock w1 as w2 \<Longrightarrow>
    acquire L holder ttl w2 = (b, w') \<Longrightarrow> gate_exec L ttl entry clock holder True w b w'"
| gate_fresh: "acquire L holder ttl w = (b, w') \<Longrightarrow> gate_exec L ttl entry clock holder False w b w'"

text \<open>What the world sees after an outcome is recorded: the hook, on the failure that reaches the budget.\<close>

definition expected_hook ::
    "('w, 'g) job_spec \<Rightarrow> history \<Rightarrow> fire_outcome \<Rightarrow> 'w \<Rightarrow> unit res \<times> 'w" where
  "expected_hook s hs out w =
     (case (out, on_degraded s) of
        (Failure m, Some hook) \<Rightarrow>
          if Suc (streak hs) = effective_budget (failure_budget s) then hook m w else (Inr (), w)
      | _ \<Rightarrow> (Inr (), w))"

section \<open>Documented behaviour of the breaker crate\<close>

text \<open>
  A refused call does not run the operation; any other result comes from running it once
  (observed through a counter of the world, \<open>calls\<close>); a panic that leaves \<open>call\<close> is the
  operation's own; a call the circuit admits hands the operation's result through.
\<close>

definition runs_once_law :: "('w, 'b, 'cfg, 'm) breaker_crate \<Rightarrow> ('w \<Rightarrow> nat) \<Rightarrow> bool" where
  "runs_once_law B calls \<longleftrightarrow>
     (\<forall>op b w r b' w'. (\<forall>v. calls (snd (op v)) = Suc (calls v)) \<longrightarrow> cb_call B op b w = (r, b', w') \<longrightarrow>
        calls w' = (if r \<in> {Inr (Inl CircuitOpen), Inr (Inl Rejected)} then calls w else Suc (calls w)))"

definition own_panics_law :: "('w, 'b, 'cfg, 'm) breaker_crate \<Rightarrow> bool" where
  "own_panics_law B \<longleftrightarrow>
     (\<forall>op b w p b' w'. cb_call B op b w = (Inl p, b', w') \<longrightarrow> (\<exists>v. fst (op v) = Inl p))"

fun admitted :: "(job_error + unit) res \<Rightarrow> (cb_error + unit) res" where
  "admitted (Inl p) = Inl p"
| "admitted (Inr (Inr ())) = Inr (Inr ())"
| "admitted (Inr (Inl e)) = Inr (Inl (CbFailure e))"

text \<open>How a fire reads what the closure did, on either path.\<close>

fun plain_verdict :: "job_run \<Rightarrow> fire_outcome res" where
  "plain_verdict Call_panics = Inl User_panic"
| "plain_verdict Panics = Inr (Failure job_panic_message)"
| "plain_verdict (Returns (Inr ())) = Inr Success"
| "plain_verdict (Returns (Inl e)) = Inr (Failure (job_error_to_string e))"

fun op_verdict :: "job_run \<Rightarrow> (job_error + unit) res" where
  "op_verdict Call_panics = Inl User_panic"
| "op_verdict Panics = Inr (Inl (job_error_msg job_panic_message))"
| "op_verdict (Returns r) = Inr r"

fun breaker_verdict :: "(cb_error + unit) res \<Rightarrow> fire_outcome res" where
  "breaker_verdict (Inl p) = Inl p"
| "breaker_verdict (Inr (Inr ())) = Inr Success"
| "breaker_verdict (Inr (Inl CircuitOpen)) = Inr Paused"
| "breaker_verdict (Inr (Inl Rejected)) = Inr Paused"
| "breaker_verdict (Inr (Inl (CbFailure e))) = Inr (Failure (job_error_to_string e))"
| "breaker_verdict (Inr (Inl CbOther)) = Inr (Failure job_unclassified_message)"

text \<open>A breaker that behaves so: it opens for good after as many failures as its configuration says.\<close>

definition mini_breaker :: "('w, nat \<times> nat, nat, nat) breaker_crate" where
  "mini_breaker =
     \<lparr>cb_new = (\<lambda>limit. (limit, 0)),
      cb_call = (\<lambda>op (limit, failed_calls) w.
        if limit \<le> failed_calls then (Inr (Inl CircuitOpen), (limit, failed_calls), w)
        else case op w of (r, w') \<Rightarrow>
          (admitted r, (limit, if r = Inr (Inr ()) then 0 else Suc failed_calls), w')),
      cb_state_of = (\<lambda>(limit, failed_calls) _. if limit \<le> failed_calls then Open else Closed),
      cb_metrics_of = snd\<rparr>"

text \<open>A runner for concrete runs: the world counts closure calls, the third call succeeds.\<close>

definition flaky_job :: "(nat, unit) job" where
  "flaky_job ctx n =
     (if n = 2 then Returns (Inr ()) else Returns (Inl (job_error_msg (lit ''down''))), Suc n)"

definition demo_spec :: "(nat, unit) job_spec" where
  "demo_spec = (job_spec_new (lit ''sweep'') (Interval 0) flaky_job)
     \<lparr>failure_budget := 2, on_degraded := Some (\<lambda>m n. (Inr (), n))\<rparr>"

definition demo_runner :: "(nat, unit, nat \<times> nat) job_runner" where
  "demo_runner = with_breaker mini_breaker 5 (job_runner_new demo_spec \<lparr>fraction = Fin 0\<rparr>)"

section \<open>Lemmas\<close>

text \<open>What construction sets and leaves.\<close>

lemma runner_construction [frame_simps]:
  "spec (job_runner_new s j) = s" "runner_jitter (job_runner_new s j) = j"
  "breaker (job_runner_new s j) = None" "rstats (job_runner_new s j) = stats_default"
  "leader_held (job_runner_new s j) = False"
  "spec (with_breaker B c r) = spec r" "breaker (with_breaker B c r) = Some (cb_new B c)"
  "rstats (with_breaker B c r) = rstats r" "leader_held (with_breaker B c r) = leader_held r"
  "runner_jitter (with_breaker B c r) = runner_jitter r"
  "spec (with_lease l t r) = spec r" "breaker (with_lease l t r) = breaker r"
  "rstats (with_lease l t r) = rstats r" "leader_held (with_lease l t r) = leader_held r"
  "runner_lease (with_lease l t r) = l" "runner_lease_ttl (with_lease l t r) = t"
  by (simp_all add: job_runner_new_def with_breaker_def with_lease_def)

lemma failed_invoked: "failed h \<Longrightarrow> invoked h"
  by (cases h rule: failed.cases) simp_all

lemma streak_simps [simp]:
  "streak [] = 0"
  "streak (hs @ [None]) = streak hs"
  "streak (hs @ [Some Success]) = 0"
  "streak (hs @ [Some (Failure m)]) = Suc (streak hs)"
  "streak (hs @ [Some Paused]) = streak hs"
  by (simp_all add: streak_def)

lemma tally_simps [simp]:
  "tally P [] = 0"
  "tally P (hs @ [h]) = tally P hs + (if P h then 1 else 0)"
  by (simp_all add: tally_def)

lemma last_failure_simps [simp]:
  "last_failure [] = None"
  "last_failure (hs @ [None]) = last_failure hs"
  "last_failure (hs @ [Some Success]) = last_failure hs"
  "last_failure (hs @ [Some (Failure m)]) = Some m"
  "last_failure (hs @ [Some Paused]) = last_failure hs"
  by (simp_all add: last_failure_def Let_def)

text \<open>How the counters of a history relate.\<close>

lemma unat_tally: "length (filter P hs) < 2 ^ 64 \<Longrightarrow> unat (tally P hs) = length (filter P hs)"
  by (simp add: tally_def unat_of_nat take_bit_nat_eq_self)

lemma streak_le: "streak hs \<le> length (filter failed hs)"
proof (induction hs rule: rev_induct)
  case (snoc h hs)
  then show ?case by (cases h rule: invoked.cases) simp_all
qed simp

lemma failed_le: "length (filter failed hs) \<le> length (filter invoked hs)"
  by (induction hs) (auto simp: failed_invoked)

lemma fires_split:
  "length (filter invoked hs) + length (filter (\<lambda>h. h = None) hs) + length (filter (\<lambda>h. h = Some Paused) hs) = length hs"
proof (induction hs)
  case (Cons h hs)
  then show ?case by (cases h rule: invoked.cases) simp_all
qed simp

lemma last_failure_None: "last_failure hs = None \<longleftrightarrow> filter failed hs = []"
proof (induction hs rule: rev_induct)
  case (snoc h hs)
  then show ?case by (cases h rule: failed.cases) simp_all
qed simp

text \<open>
  The code compares the wrapped \<open>u32\<close> streak with the budget, the specification the true
  streak: they agree on the step where the streak reaches the budget, and the sticky flag
  carries the verdict past a wrap.
\<close>

lemma degraded_step:
  "(budget \<le> (of_nat n + 1 :: u32) \<or> effective_budget budget \<le> n) \<longleftrightarrow>
     effective_budget budget \<le> Suc n"
proof (cases "effective_budget budget \<le> n")
  case False
  then have "n < unat budget \<or> n = 0" by (auto simp: effective_budget_def)
  then have "Suc n < 2 ^ 32"
    using unsigned_less [where 'a = nat, of budget] by auto
  then have "unat (of_nat (Suc n) :: u32) = Suc n" by (simp add: unat_of_nat take_bit_nat_eq_self del: of_nat_Suc)
  then have "budget \<le> of_nat (Suc n) \<longleftrightarrow> unat budget \<le> Suc n" by (simp only: word_le_nat_alt)
  then show ?thesis using False by (auto simp: effective_budget_def add.commute)
qed auto

lemma wiring_spec: "wiring r = wiring r' \<Longrightarrow> spec r = spec r'"
  by (simp add: wiring_def)

lemma leader_gate_frame:
  assumes "leader_gate holder self w = (b, self', w')"
  shows "wiring self' = wiring self" "breaker self' = breaker self"
    "rstats self' = (if b then rstats self else (rstats self)\<lparr>skips := skips (rstats self) + 1\<rparr>)"
  using assms by (auto simp: leader_gate_def wiring_def Let_def split: if_splits prod.splits)

lemma invoke_frame:
  assumes "invoke B ctx self w = (out, self', w')"
  shows "wiring self' = wiring self" "rstats self' = rstats self" "leader_held self' = leader_held self"
  using assms
  by (auto simp: invoke_def wiring_def Let_def split: option.splits prod.splits if_splits)

lemma fire_attempt_cases:
  assumes "fire_attempt B g holder self w = (r, self', w')"
  obtains (skipped) "r = Inr None" "leader_gate holder self w = (False, self', w')"
  | (ran) self1 w1 out where "leader_gate holder self w = (True, self1, w1)"
      "invoke B (fire_context self g) self1 w1 = (out, self', w')" "r = map_sum id Some out"
  using assms
  by (auto simp: fire_attempt_def fire_context_def Let_def split: prod.splits bool.splits sum.splits)

lemma fire_attempt_frame:
  assumes "fire_attempt B g holder self w = (r, self', w')"
  shows "wiring self' = wiring self"
    "rstats self' = (if r = Inr None then (rstats self)\<lparr>skips := skips (rstats self) + 1\<rparr> else rstats self)"
proof (atomize (full), cases rule: fire_attempt_cases [OF assms])
  case 1
  then show "wiring self' = wiring self \<and> rstats self' =
      (if r = Inr None then (rstats self)\<lparr>skips := skips (rstats self) + 1\<rparr> else rstats self)"
    using leader_gate_frame [OF 1(2)] by simp
next
  case (2 self1 w1 out)
  then show "wiring self' = wiring self \<and> rstats self' =
      (if r = Inr None then (rstats self)\<lparr>skips := skips (rstats self) + 1\<rparr> else rstats self)"
    using leader_gate_frame [OF 2(1)] invoke_frame [OF 2(2)] by (cases out) simp_all
qed

lemma record_outcome_only_stats:
  "record_outcome out self w = (r, self', w') \<Longrightarrow> \<exists>st. self' = self\<lparr>rstats := st\<rparr>"
proof (cases out)
  case (Failure message)
  assume "record_outcome out self w = (r, self', w')"
  with Failure show ?thesis
    by (simp add: Let_def record_last_error_def split: if_splits option.splits prod.splits
        sum.splits unit.splits) metis+
qed (auto simp: Let_def)

lemma record_outcome_frame:
  "record_outcome out self w = (r, self', w') \<Longrightarrow> wiring self' = wiring self"
  using record_outcome_only_stats by (fastforce simp: wiring_def)

lemma fire_cases:
  assumes "fire B g holder self w = (r, self', w')"
  obtains (panic) p where "fire_attempt B g holder self w = (Inl p, self', w')" "r = Inl p"
  | (skipped) "fire_attempt B g holder self w = (Inr None, self', w')" "r = Inr ()"
  | (ran) out self1 w1 where "fire_attempt B g holder self w = (Inr (Some out), self1, w1)"
      "record_outcome out self1 w1 = (r, self', w')"
  using assms by (auto simp: fire_def split: prod.splits sum.splits option.splits)

lemma fire_frame: "fire B g holder self w = (r, self', w') \<Longrightarrow> wiring self' = wiring self"
  by (elim fire_cases) (metis fire_attempt_frame(1) record_outcome_frame)+

lemma fire_history_frame: "fire_history B g holder r hs r' \<Longrightarrow> wiring r' = wiring r"
  by (induction rule: fire_history.induct) (simp_all add: fire_frame)

text \<open>One recorded outcome moves the statistics as the specification says.\<close>

lemma record_failure_stats:
  assumes "record_outcome (Failure message) self w = (Inr (), self', w')"
  shows "rstats self' = (rstats self)
    \<lparr>fires := fires (rstats self) + 1, failures := failures (rstats self) + 1,
     consecutive := consecutive (rstats self) + 1,
     degraded := (failure_budget (spec self) \<le> consecutive (rstats self) + 1 \<or> degraded (rstats self)),
     last_error := Some message\<rparr>"
proof (cases "failure_budget (spec self) \<le> consecutive (rstats self) + 1")
  case True
  with assms show ?thesis
    by (simp add: Let_def record_last_error_def split: if_splits option.splits prod.splits
        sum.splits unit.splits) auto
next
  case False
  with assms show ?thesis by (auto simp: Let_def record_last_error_def)
qed

lemma record_outcome_stats:
  assumes st: "rstats self = stats_of (failure_budget (spec self)) hs"
    and rec: "record_outcome out self w = (Inr (), self', w')"
  shows "rstats self' = stats_of (failure_budget (spec self)) (hs @ [Some out])"
proof (cases out)
  case (Failure message)
  from record_failure_stats [OF rec [unfolded Failure]] show ?thesis
    by (simp add: Failure st stats_of_def degraded_step)
qed (use rec in \<open>auto simp: Let_def st stats_of_def effective_budget_def\<close>)

lemma fire_stats:
  assumes "rstats self = stats_of (failure_budget (spec self)) hs"
    and att: "fire_attempt B g holder self w = (Inr obs, self1, w1)"
    and "fire B g holder self w = (Inr (), self', w')"
  shows "rstats self' = stats_of (failure_budget (spec self)) (hs @ [obs])"
proof (cases obs)
  case None
  with assms show ?thesis
    using fire_attempt_frame [OF att] by (auto simp: fire_def stats_of_def)
next
  case (Some out)
  have sp: "spec self1 = spec self" using fire_attempt_frame [OF att] by (simp add: wiring_def)
  have "rstats self1 = stats_of (failure_budget (spec self1)) hs"
    using assms(1) fire_attempt_frame [OF att] Some sp by simp
  moreover have "record_outcome out self1 w1 = (Inr (), self', w')"
    using assms(2,3) Some by (simp add: fire_def)
  ultimately have "rstats self' = stats_of (failure_budget (spec self1)) (hs @ [Some out])"
    by (rule record_outcome_stats)
  then show ?thesis using sp Some by simp
qed

lemma fire_history_stats:
  assumes "fire_history B g holder r hs r'" and "rstats r = stats_default"
  shows "rstats r' = stats_of (failure_budget (spec r)) hs"
  using assms
proof induction
  case history_nil
  then show ?case by (simp add: stats_of_def stats_default_def effective_budget_def)
next
  case (history_snoc hs r1 w obs r2 w2 r3 w3)
  have "spec r1 = spec r" using fire_history_frame [OF history_snoc.hyps(1)] by (rule wiring_spec)
  with fire_stats [OF _ history_snoc.hyps(2,3)] history_snoc show ?case by simp
qed

lemma fire_history_append:
  assumes "fire_history B g holder r1 hs' r2" "fire_history B g holder r hs r1"
  shows "fire_history B g holder r (hs @ hs') r2"
  using assms
proof induction
  case (history_snoc hs1 r1 w obs r2 w2 r3 w3)
  then have "fire_history B g holder r ((hs @ hs1) @ [obs]) r3"
    by (intro fire_history.history_snoc) auto
  then show ?case by simp
qed simp

lemma fire_history_one:
  assumes "fire B g holder r w = (Inr (), r', w')"
  shows "\<exists>obs. fire_history B g holder r [obs] r'"
proof -
  obtain a r1 w1 where a: "fire_attempt B g holder r w = (a, r1, w1)" by (metis prod_cases3)
  with assms obtain obs where "a = Inr obs" by (auto simp: fire_def split: sum.splits)
  with history_snoc [OF history_nil _ assms] a have "fire_history B g holder r ([] @ [obs]) r'" by blast
  then show ?thesis by auto
qed

text \<open>The lease operations behind a verdict of the gate.\<close>

lemma leader_gate_ops:
  assumes "leader_gate holder self w = (b, self', w')" "leader (spec self)" "runner_lease self = Some l"
  obtains (renewed) "leader_held self" b "renew l holder (runner_lease_ttl self) w = (True, w')"
  | (fallback) w1 where "leader_held self" "renew l holder (runner_lease_ttl self) w = (False, w1)"
      "acquire l holder (runner_lease_ttl self) w1 = (b, w')"
  | (fresh) "\<not> leader_held self" "acquire l holder (runner_lease_ttl self) w = (b, w')"
  using assms by (auto simp: leader_gate_def Let_def split: if_splits prod.splits bool.splits)

text \<open>The gate of the runner is such an execution, the one without traffic in between.\<close>

lemma leader_gate_exec:
  assumes "leader_gate holder self w = (b, self', w')" "leader (spec self)" "runner_lease self = Some l"
  shows "gate_exec l (runner_lease_ttl self) entry clock holder (leader_held self) w b w'"
proof (cases rule: leader_gate_ops [OF assms])
  case 1
  then show ?thesis by (auto intro: gate_renewed)
next
  case (2 w1)
  from gate_fallback [OF 2(2) run_nil 2(3)] 2(1) show ?thesis by simp
next
  case 3
  then show ?thesis by (auto intro: gate_fresh)
qed

context lease_trait
begin

lemma gate_holds:
  assumes "leader_gate holder self w = (True, self', w')" "leader (spec self)"
    and "runner_lease self = Some L" "runner_lease_ttl self = ttl"
  shows "holds w' holder"
  using leader_gate_ops [OF assms(1-3), unfolded assms(4)]
  by cases (auto dest: acquire_grants renew_grants)

end

context exclusive_lease
begin

text \<open>A gate passed is a granted lease step, after at most one refused renewal and others' traffic.\<close>

lemma gate_granted:
  assumes "gate_exec L ttl entry clock holder held w True w'"
  obtains as w1 op where "lease_run L ttl entry clock w as w1" "op_holder op = Some holder"
    "lease_step L ttl entry clock w1 (op, True) w'"
  using assms
proof cases
  case gate_renewed
  then show thesis using that [OF run_nil _ step_renew] by simp
next
  case (gate_fallback w1 as w2)
  have "lease_run L ttl entry clock w ((Renew holder, False) # as) w2"
    using step_renew [OF gate_fallback(2)] gate_fallback(3) by (rule run_cons)
  from that [OF this _ step_acquire [OF gate_fallback(4)]] show thesis by simp
next
  case gate_fresh
  then show thesis using that [OF run_nil _ step_acquire] by simp
qed

lemma run_append:
  "lease_run L ttl entry clock w as w' \<Longrightarrow> lease_run L ttl entry clock w' bs w'' \<Longrightarrow>
     lease_run L ttl entry clock w (as @ bs) w''"
  by (induction rule: lease_run.induct) (auto intro: run_cons)

lemma gates_apart:
  assumes first: "gate_exec L ttl entry clock h1 held1 w0 True w1"
    and between: "lease_run L ttl entry clock w1 as w2"
    and second: "gate_exec L ttl entry clock h2 held2 w2 True w3"
    and other: "h1 \<noteq> h2"
  shows "clock w0 + ttl_ms ttl \<le> clock w3"
proof -
  obtain as1 v1 op1 where 1: "lease_run L ttl entry clock w0 as1 v1" "op_holder op1 = Some h1"
      "lease_step L ttl entry clock v1 (op1, True) w1"
    using gate_granted [OF first] .
  obtain as2 v2 op2 where 2: "lease_run L ttl entry clock w2 as2 v2" "op_holder op2 = Some h2"
      "lease_step L ttl entry clock v2 (op2, True) w3"
    using gate_granted [OF second] .
  have "clock v1 + ttl_ms ttl \<le> clock w3"
    using grants_apart [OF 1(3) run_append [OF between 2(1)] 2(3)] 1(2) 2(2) other by simp
  with run_clock_mono [OF 1(1)] show ?thesis by simp
qed

end

text \<open>The two paths, read through the verdicts.\<close>

lemma invoke_plain_eq:
  "invoke_plain job ctx w = (plain_verdict (fst (job ctx w)), snd (job ctx w))"
  by (cases "job ctx w"; cases "fst (job ctx w)" rule: plain_verdict.cases)
    (simp_all add: invoke_plain_def)

lemma breaker_op_eq: "breaker_op job ctx w = (op_verdict (fst (job ctx w)), snd (job ctx w))"
  by (cases "job ctx w"; cases "fst (job ctx w)" rule: plain_verdict.cases)
    (simp_all add: breaker_op_def)

lemma invoke_through_breaker_eq:
  "invoke_through_breaker B b job ctx w =
     (case cb_call B (breaker_op job ctx) b w of (r, b', w') \<Rightarrow> (breaker_verdict r, b', w'))"
proof -
  obtain r b' w' where r: "cb_call B (breaker_op job ctx) b w = (r, b', w')" by (metis prod_cases3)
  then show ?thesis
    by (cases r rule: breaker_verdict.cases) (simp_all add: invoke_through_breaker_def)
qed

lemma plain_verdict_not_Paused [simp]: "plain_verdict r \<noteq> Inr Paused"
  by (cases r rule: plain_verdict.cases) simp_all

lemma breaker_verdict_Paused:
  "breaker_verdict r = Inr Paused \<longleftrightarrow> r \<in> {Inr (Inl CircuitOpen), Inr (Inl Rejected)}"
  by (cases r rule: breaker_verdict.cases) simp_all

lemma breaker_verdict_admitted: "breaker_verdict (admitted (op_verdict r)) = plain_verdict r"
  by (cases r rule: plain_verdict.cases)
    (simp_all add: job_error_to_string_def job_error_msg_def)

lemma plain_verdict_panic: "plain_verdict r = Inl p \<longleftrightarrow> r = Call_panics \<and> p = User_panic"
  by (cases r rule: plain_verdict.cases) auto

lemma op_verdict_panic: "op_verdict r = Inl p \<longleftrightarrow> r = Call_panics \<and> p = User_panic"
  by (cases r rule: op_verdict.cases) auto

lemma breaker_verdict_panic: "breaker_verdict r = Inl p \<longleftrightarrow> r = Inl p"
  by (cases r rule: breaker_verdict.cases) auto

text \<open>An invocation ends on one of the two paths.\<close>

lemma invoke_cases:
  assumes "invoke B ctx self w = (out, self', w')"
  obtains (plain) "self' = self" "out = plain_verdict (fst (closure (spec self) ctx w))"
      "w' = snd (closure (spec self) ctx w)" "use_breaker (spec self) \<longrightarrow> breaker self = None"
  | (through) b r b' where "use_breaker (spec self)" "breaker self = Some b"
      "cb_call B (breaker_op (closure (spec self)) ctx) b w = (r, b', w')"
      "out = breaker_verdict r" "self' = self\<lparr>breaker := Some b'\<rparr>"
proof (cases "if use_breaker (spec self) then breaker self else None")
  case None
  with assms show thesis
    by (intro plain) (simp_all add: invoke_def Let_def invoke_plain_eq split: if_splits)
next
  case (Some b)
  obtain r b' w1 where call: "cb_call B (breaker_op (closure (spec self)) ctx) b w = (r, b', w1)"
    by (metis prod_cases3)
  have brk: "use_breaker (spec self)" "breaker self = Some b" using Some by (simp_all split: if_splits)
  with assms call show thesis
    by (intro through) (auto simp: invoke_def Let_def invoke_through_breaker_eq)
qed

text \<open>Counting closure calls through a fire.\<close>

lemma invoke_calls:
  assumes job: "\<And>ctx w. calls (snd (closure (spec self) ctx w)) = Suc (calls w)"
    and law: "runs_once_law B calls" and eq: "invoke B ctx self w = (out, self', w')"
  shows "calls w' = (if out = Inr Paused then calls w else Suc (calls w))"
proof (cases rule: invoke_cases [OF eq])
  case 1
  then show ?thesis by (simp add: job)
next
  case (2 b r b')
  have "\<forall>v. calls (snd (breaker_op (closure (spec self)) ctx v)) = Suc (calls v)"
    by (simp add: breaker_op_eq job)
  with law 2(3) have "calls w' = (if r \<in> {Inr (Inl CircuitOpen), Inr (Inl Rejected)} then calls w else Suc (calls w))"
    unfolding runs_once_law_def by blast
  with 2 show ?thesis by (simp add: breaker_verdict_Paused)
qed

lemma leader_gate_calls:
  assumes "\<And>l h w. runner_lease self = Some l \<Longrightarrow>
      calls (snd (acquire l h (runner_lease_ttl self) w)) = calls w \<and>
      calls (snd (renew l h (runner_lease_ttl self) w)) = calls w"
    and "leader_gate holder self w = (b, self', w')"
  shows "calls w' = calls w"
proof (cases "leader (spec self) \<and> runner_lease self \<noteq> None")
  case True
  then obtain l where l: "runner_lease self = Some l" "leader (spec self)" by blast
  have acq: "calls v' = calls v" if "acquire l holder (runner_lease_ttl self) v = (x, v')" for v x v'
    using assms(1) [OF l(1), of holder v] that by simp
  have ren: "calls v' = calls v" if "renew l holder (runner_lease_ttl self) v = (x, v')" for v x v'
    using assms(1) [OF l(1), of holder v] that by simp
  from leader_gate_ops [OF assms(2) l(2,1)] show ?thesis
    by cases (auto dest!: acq ren)
next
  case False
  with assms(2) show ?thesis
    by (auto simp: leader_gate_def memory_lease_def Let_def split: if_splits)
qed

lemma record_outcome_world:
  assumes st: "rstats self = stats_of (failure_budget (spec self)) hs"
    and rec: "record_outcome out self w = (res, self', w')"
  shows "(res, w') = expected_hook (spec self) hs out w"
proof (cases out)
  case (Failure m)
  let ?b = "failure_budget (spec self)" and ?n = "streak hs"
  have edge: "?b \<le> of_nat ?n + 1 \<and> \<not> effective_budget ?b \<le> ?n \<longleftrightarrow> Suc ?n = effective_budget ?b"
    using degraded_step [of ?b ?n] by linarith
  have deg: "degraded (rstats self) \<longleftrightarrow> effective_budget ?b \<le> ?n"
    and con: "consecutive (rstats self) = of_nat ?n"
    by (simp_all add: st stats_of_def)
  show ?thesis
  proof (cases "Suc ?n = effective_budget ?b")
    case True
    with edge rec show ?thesis
      by (auto simp: Failure deg con Let_def expected_hook_def split: option.splits prod.splits sum.splits)
  next
    case False
    with edge rec show ?thesis
      by (cases "?b \<le> of_nat ?n + 1")
        (auto simp: Failure deg con Let_def expected_hook_def split: option.splits)
  qed
qed (use rec in \<open>auto simp: Let_def expected_hook_def\<close>)

lemma invoke_no_panic:
  assumes job: "\<And>ctx w. fst (closure (spec self) ctx w) \<noteq> Call_panics" and law: "own_panics_law B"
    and eq: "invoke B ctx self w = (out, self', w')"
  shows "\<exists>o'. out = Inr o'"
proof (cases rule: invoke_cases [OF eq])
  case 1
  with job show ?thesis by (cases out) (metis plain_verdict_panic, blast)
next
  case (2 b r b')
  have "\<forall>p v. fst (breaker_op (closure (spec self)) ctx v) \<noteq> Inl p"
    by (simp add: breaker_op_eq op_verdict_panic job)
  with law 2(3) have "r \<noteq> Inl p" for p unfolding own_panics_law_def by blast
  with 2(4) show ?thesis by (cases out) (metis breaker_verdict_panic, blast)
qed

lemma record_outcome_no_panic:
  assumes "\<And>hook m w. on_degraded (spec self) = Some hook \<Longrightarrow> fst (hook m w) = Inr ()"
    and rec: "record_outcome out self w = (res, self', w')"
  shows "res = Inr ()"
proof (cases out)
  case (Failure m)
  have hook: "hook m w \<noteq> (Inl p, v)" if "on_degraded (spec self) = Some hook" for hook p v
    using assms(1) [OF that, of m w] by auto
  from rec show ?thesis
    by (cases "failure_budget (spec self) \<le> consecutive (rstats self) + 1")
      (auto simp: Failure Let_def hook split: option.splits if_splits prod.splits sum.splits)
qed (use rec in \<open>auto simp: Let_def\<close>)

lemma fire_contained:
  assumes "\<And>ctx w. fst (closure (spec self) ctx w) \<noteq> Call_panics"
    and "\<And>hook m w. on_degraded (spec self) = Some hook \<Longrightarrow> fst (hook m w) = Inr ()"
    and "own_panics_law B"
  shows "fst (fire B g holder self w) = Inr ()"
proof -
  obtain res self' w' where f: "fire B g holder self w = (res, self', w')" by (metis prod_cases3)
  then show ?thesis
  proof (cases rule: fire_cases)
    case (panic p)
    from panic(1) obtain self1 w1 where gate: "leader_gate holder self w = (True, self1, w1)"
      and inv: "invoke B (fire_context self g) self1 w1 = (Inl p, self', w')"
      by (cases rule: fire_attempt_cases) (auto simp: map_sum_def split: sum.splits)
    have "spec self1 = spec self" using leader_gate_frame(1) [OF gate] by (rule wiring_spec)
    with invoke_no_panic [OF _ assms(3) inv] assms(1) show ?thesis by simp
  next
    case skipped
    then show ?thesis using f by simp
  next
    case (ran out self1 w1)
    have "spec self1 = spec self" using fire_attempt_frame(1) [OF ran(1)] by (rule wiring_spec)
    with record_outcome_no_panic [OF _ ran(2)] assms(2) f show ?thesis by simp
  qed
qed

lemma mini_breaker_laws: "runs_once_law mini_breaker calls" "own_panics_law mini_breaker"
proof -
  have "admitted r \<notin> {Inr (Inl CircuitOpen), Inr (Inl Rejected)}" for r
    by (cases r rule: admitted.cases) simp_all
  then show "runs_once_law mini_breaker calls"
    by (auto simp: runs_once_law_def mini_breaker_def split: if_splits prod.splits) (metis snd_conv)+
  have "admitted r = Inl p \<longleftrightarrow> r = Inl p" for r p
    by (cases r rule: admitted.cases) simp_all
  then show "own_panics_law mini_breaker"
    by (auto simp: own_panics_law_def mini_breaker_def split: if_splits prod.splits) (metis fst_conv)
qed

lemma record_outcome_counts:
  assumes "record_outcome out self w = (Inr (), self', w')"
  shows "fires (rstats self') = fires (rstats self) + (if out = Paused then 0 else 1)"
    "skips (rstats self') = skips (rstats self)"
    "paused (rstats self') = paused (rstats self) + (if out = Paused then 1 else 0)"
proof (atomize (full), cases out)
  case (Failure m)
  from record_failure_stats [OF assms [unfolded Failure]] Failure
  show "fires (rstats self') = fires (rstats self) + (if out = Paused then 0 else 1) \<and>
    skips (rstats self') = skips (rstats self) \<and>
    paused (rstats self') = paused (rstats self) + (if out = Paused then 1 else 0)" by simp
qed (use assms in \<open>auto simp: Let_def\<close>)

lemma record_outcome_calls:
  assumes "\<And>hook m w. on_degraded (spec self) = Some hook \<Longrightarrow> calls (snd (hook m w)) = calls w"
    and rec: "record_outcome out self w = (res, self', w')"
  shows "calls w' = calls w"
proof (cases out)
  case (Failure m)
  have hook: "calls v' = calls w" if "on_degraded (spec self) = Some hook" "hook m w = (x, v')" for hook x v'
    using assms(1) [OF that(1), of m w] that(2) by simp
  from rec show ?thesis
    by (cases "failure_budget (spec self) \<le> consecutive (rstats self) + 1")
      (auto simp: Failure Let_def split: option.splits if_splits prod.splits sum.splits dest: hook)
qed (use rec in \<open>auto simp: Let_def\<close>)

lemmas demo_defs = demo_runner_def demo_spec_def job_spec_new_def job_runner_new_def with_breaker_def
  flaky_job_def mini_breaker_def job_error_msg_def job_error_to_string_def stats_default_def

lemmas fire_defs = fire_def fire_attempt_def leader_gate_def invoke_def invoke_through_breaker_eq
  breaker_op_eq record_last_error_def Let_def word_le_nat_alt

lemma demo_history_one:
  "fire_history mini_breaker () h demo_runner [Some (Failure (lit ''down''))]
     (fst (snd (fire mini_breaker () h demo_runner 0)))"
proof -
  have "fire_history mini_breaker () h demo_runner ([] @ [Some (Failure (lit ''down''))])
     (fst (snd (fire mini_breaker () h demo_runner 0)))"
    by (rule history_snoc [OF history_nil, where w = 0]) (simp_all add: demo_defs fire_defs)
  then show ?thesis by simp
qed

lemma demo_history_two:
  "fire_history mini_breaker () h demo_runner (replicate 2 (Some (Failure (lit ''down''))))
     (fst (snd (fire mini_breaker () h (fst (snd (fire mini_breaker () h demo_runner 0))) 1)))"
proof -
  have "fire_history mini_breaker () h demo_runner ([Some (Failure (lit ''down''))] @ [Some (Failure (lit ''down''))])
     (fst (snd (fire mini_breaker () h (fst (snd (fire mini_breaker () h demo_runner 0))) 1)))"
    by (rule history_snoc [OF demo_history_one, where w = 1]) (simp_all add: demo_defs fire_defs)
  then show ?thesis by (simp add: numeral_2_eq_2)
qed

text \<open>A refused renewal of a lapsed lease leaves it lapsed.\<close>

lemma redis_renew_lapsed:
  assumes doc: "redis_documented (conn l) entry clock"
    and ev: "eval_script (conn l) (renew_lua (conn l) (lease_key l) h (ttl_ms ttl)) w = (Inr n, w1)"
    and lapsed: "\<forall>t \<in> {clock w..clock w1}. live_at (entry w) t (lease_key l) = None"
  shows "redis_renew l h ttl w = (False, w1) \<and> entry w1 = entry w \<and> clock w \<le> clock w1"
proof -
  obtain b where b: "redis_renew l h ttl w = (b, w1)" using ev by (simp add: redis_renew_def)
  from redis_renew_effect [OF doc b] lapsed show ?thesis using b by force
qed

section \<open>Properties\<close>

text \<open>
  C3: What a report says of a job is exactly what happened. After any sequence of fires of
  a fresh runner, with the world changing arbitrarily in between, the summary is a function
  of the history: \<open>fires\<close> counts the closure's runs, \<open>failures\<close> the failed ones,
  \<open>skips\<close> the fires the leader gate refused and \<open>paused\<close> those the breaker refused (each
  modulo 2^64); the job is degraded iff the failures since its last success have reached
  the budget (a budget of 0 acts as 1, and a wrapped \<open>u32\<close> streak does not clear the flag),
  and \<open>last_error\<close> is the last failure's message. The registered configuration is kept.
\<close>

theorem summary_refines_history:
  assumes "fire_history B g holder r hs r'" "rstats r = stats_default"
  shows "summary r' =
    \<lparr>rs_name = spec_name (spec r), rs_fires = tally invoked hs, rs_failures = tally failed hs,
     rs_skips = tally (\<lambda>h. h = None) hs, rs_paused = tally (\<lambda>h. h = Some Paused) hs,
     rs_degraded = (max 1 (unat (failure_budget (spec r))) \<le> streak hs),
     rs_last_error = last_failure hs\<rparr> \<and>
    js_consecutive_failures (status r') = of_nat (streak hs) \<and> wiring r' = wiring r"
  using fire_history_stats [OF assms] fire_history_frame [OF assms(1)]
  by (auto simp: summary_def status_def stats_of_def effective_budget_def wiring_def)

theorem summary_refines_history_witness:
  "let r' = fst (snd (fire mini_breaker () [] (fst (snd (fire mini_breaker () [] demo_runner 0))) 1))
   in summary r' = \<lparr>rs_name = lit ''sweep'', rs_fires = 2, rs_failures = 2, rs_skips = 0, rs_paused = 0,
        rs_degraded = True, rs_last_error = Some (lit ''down'')\<rparr> \<and>
      js_consecutive_failures (status r') = 2 \<and> wiring r' = wiring demo_runner"
proof -
  have new: "rstats demo_runner = stats_default" by (simp add: demo_defs)
  have "spec_name (spec demo_runner) = lit ''sweep''" "failure_budget (spec demo_runner) = 2"
    by (simp_all add: demo_defs)
  then show ?thesis
    using summary_refines_history [OF demo_history_two [of "[]"] new]
    by (simp add: Let_def tally_def streak_def last_failure_def numeral_2_eq_2)
qed



text \<open>
  C15: The degradation hook is edge-triggered. Recording the outcome of a fire calls the hook,
  with that fire's message, exactly when the fire is the failure that brings the streak
  since the last success to the budget; on every other fire (earlier or later failures of
  the streak, successes, pauses) the world is left as the closure left it.
\<close>

theorem degraded_hook_edge:
  assumes "fire_history B g holder r hs r1" "rstats r = stats_default"
    and "fire_attempt B g holder r1 w = (Inr (Some out), r2, w2)"
    and "fire B g holder r1 w = (res, r3, w3)"
  shows "(res, w3) =
    (case (out, on_degraded (spec r)) of
       (Failure m, Some hook) \<Rightarrow>
         if Suc (streak hs) = max 1 (unat (failure_budget (spec r))) then hook m w2 else (Inr (), w2)
     | _ \<Rightarrow> (Inr (), w2))"
proof -
  have sp: "spec r2 = spec r"
    using fire_history_frame [OF assms(1)] fire_attempt_frame(1) [OF assms(3)] by (simp add: wiring_def)
  have "rstats r2 = stats_of (failure_budget (spec r2)) hs"
    using fire_history_stats [OF assms(1,2)] fire_attempt_frame(2) [OF assms(3)] sp by simp
  moreover have "record_outcome out r2 w2 = (res, r3, w3)"
    using assms(3,4) by (simp add: fire_def)
  ultimately have "(res, w3) = expected_hook (spec r2) hs out w2" by (rule record_outcome_world)
  then show ?thesis unfolding sp expected_hook_def effective_budget_def .
qed

theorem degraded_hook_edge_witness:
  "let r1 = fst (snd (fire mini_breaker () [] demo_runner 0)); f = fire mini_breaker () [] r1 1
   in (fst f, snd (snd f)) = (Inr (), 2)"
proof -
  let ?r1 = "fst (snd (fire mini_breaker () [] demo_runner 0))"
  let ?a = "fire_attempt mini_breaker () [] ?r1 1" and ?f = "fire mini_breaker () [] ?r1 1"
  have new: "rstats demo_runner = stats_default" by (simp add: demo_defs)
  have att: "?a = (Inr (Some (Failure (lit ''down''))), fst (snd ?a), 2)"
    by (simp add: demo_defs fire_defs)
  have "on_degraded (spec demo_runner) = Some (\<lambda>m n. (Inr (), n))" "failure_budget (spec demo_runner) = 2"
    by (simp_all add: demo_defs)
  then show ?thesis
    using degraded_hook_edge [OF demo_history_one [of "[]"] new att, of "fst ?f" "fst (snd ?f)" "snd (snd ?f)"]
    by (simp add: Let_def)
qed





text \<open>
  C31: A lapsed leader recovers. A runner that has been leader and whose lease has lapsed
  without another holder taking it passes the gate again at its next fire: the refused
  renewal falls back to an acquisition, which is granted when Redis replies, and the key
  then records the holder for at least the TTL.
\<close>

theorem lapsed_leader_recovers:
  assumes "redis_documented (conn l) entry clock" "0 < ttl_ms (runner_lease_ttl self)"
    and "leader (spec self)" "runner_lease self = Some (redis_lease_obj l)" "leader_held self"
    and "eval_script (conn l)
        (renew_lua (conn l) (lease_key l) holder (ttl_ms (runner_lease_ttl self))) w = (Inr n, w1)"
    and "cmd_set_nx_px (conn l) (lease_key l) holder (ttl_ms (runner_lease_ttl self)) w1 = (Inr reply, w2)"
    and "\<forall>t \<in> {clock w..max (clock w1) (clock w2)}. live_at (entry w) t (lease_key l) = None"
  shows "leader_gate holder self w = (True, self, w2) \<and>
    (\<exists>d. entry w2 (lease_key l) = Some (holder, d) \<and> clock w + ttl_ms (runner_lease_ttl self) \<le> d)"
proof -
  have lapsed: "\<forall>t \<in> {clock w..clock w1}. live_at (entry w) t (lease_key l) = None"
    using assms(8) by (auto simp: max.coboundedI1)
  have r: "redis_renew l holder (runner_lease_ttl self) w = (False, w1)" "entry w1 = entry w" "clock w \<le> clock w1"
    using redis_renew_lapsed [OF assms(1,6) lapsed] by blast+
  have "\<forall>t \<in> {clock w1..clock w2}. live_at (entry w1) t (lease_key l) = None"
    using assms(8) r(2,3) by (auto simp: max.coboundedI2)
  from redis_lapsed_grant [OF assms(1,2,7) this] r(3)
  have a: "redis_acquire l holder (runner_lease_ttl self) w1 = (True, w2)"
    "\<exists>d. entry w2 (lease_key l) = Some (holder, d) \<and> clock w + ttl_ms (runner_lease_ttl self) \<le> d"
    by (auto intro: order_trans)
  then show ?thesis
    using assms(3-5) r(1) by (simp add: leader_gate_def redis_lease_obj_def)
qed

theorem lapsed_leader_recovers_witness:
  "let l = \<lparr>conn = mini_redis, lease_key = lit ''k''\<rparr>;
       s = (job_spec_new (lit ''j'') (Interval 0) (\<lambda>_ w. (Panics, w)))\<lparr>leader := True\<rparr>;
       r = (with_lease (Some (redis_lease_obj l)) default_lease_ttl
             (job_runner_new s \<lparr>fraction = Fin 0\<rparr>))\<lparr>leader_held := True\<rparr>
           :: (mini_redis_state, unit, unit) job_runner;
       w = \<lparr>mr_entry = [lit ''k'' \<mapsto> (lit ''a'', 10)], mr_clock = 50\<rparr>;
       w2 = \<lparr>mr_entry = [lit ''k'' \<mapsto> (lit ''a'', 30050)], mr_clock = 50\<rparr>
   in leader_gate (lit ''a'') r w = (True, r, w2) \<and>
      (\<exists>d. mr_entry w2 (lease_key l) = Some (lit ''a'', d) \<and> mr_clock w + ttl_ms (runner_lease_ttl r) \<le> d)"
  unfolding Let_def
  by (rule lapsed_leader_recovers [where n = 0 and reply = "Some (lit ''OK'')"
        and ?w1.0 = "\<lparr>mr_entry = [lit ''k'' \<mapsto> (lit ''a'', 10)], mr_clock = 50\<rparr>"])
    (simp_all add: mini_redis_documented with_lease_def job_runner_new_def default_ttl_ms,
      simp_all add: renew_lua_def mini_redis_def live_at_def)

text \<open>
  C36: A second leader job of the same process starves. While the process's own record is
  live in Redis, the gate of another job that shares the lease and has not been elected yet
  is refused, although the holder is the same: its fire is a skip that calls nothing and
  leaves the record and the job's election state as they were.
\<close>

theorem second_leader_job_starves:
  assumes "redis_documented (conn l) entry clock"
    and "leader (spec self)" "runner_lease self = Some (redis_lease_obj l)" "\<not> leader_held self"
    and "entry w (lease_key l) = Some (holder, d)"
    and "redis_acquire l holder (runner_lease_ttl self) w = (b, w1)" "clock w1 < d"
  shows "fire B g holder self w =
      (Inr (), self\<lparr>rstats := (rstats self)\<lparr>skips := skips (rstats self) + 1\<rparr>\<rparr>, w1) \<and>
    entry w1 = entry w"
proof -
  have "\<not> b \<and> entry w1 = entry w" using assms(1,6,5,7) by (rule redis_acquire_own_record)
  with assms(2-4,6) show ?thesis
    by (simp add: fire_def fire_attempt_def leader_gate_def redis_lease_obj_def)
qed

theorem second_leader_job_starves_witness:
  "let l = \<lparr>conn = mini_redis, lease_key = lit ''k''\<rparr>;
       s = (job_spec_new (lit ''j'') (Interval 0) (\<lambda>_ w. (Panics, w)))\<lparr>leader := True\<rparr>;
       r = with_lease (Some (redis_lease_obj l)) default_lease_ttl (job_runner_new s \<lparr>fraction = Fin 0\<rparr>);
       w = \<lparr>mr_entry = [lit ''k'' \<mapsto> (lit ''a'', 30000)], mr_clock = 7\<rparr>
   in fire (mini_breaker :: (mini_redis_state, nat \<times> nat, nat, nat) breaker_crate) () (lit ''a'') r w =
        (Inr (), r\<lparr>rstats := (rstats r)\<lparr>skips := skips (rstats r) + 1\<rparr>\<rparr>, w) \<and>
      mr_entry w = mr_entry w"
  unfolding Let_def
  by (rule second_leader_job_starves [where clock = mr_clock and d = 30000 and b = False
        and l = "\<lparr>conn = mini_redis, lease_key = lit ''k''\<rparr>"])
    (simp_all add: mini_redis_documented, simp_all add: with_lease_def job_runner_new_def
      redis_acquire_def mini_redis_def live_at_def)



text \<open>
  C35: A panic in the call itself is not contained. When the closure panics before it
  returns its future, the panic leaves the fire, both on the plain path and through a
  breaker that admits the call: no counter moves, no error is recorded and the hook is
  not called.
\<close>

theorem call_panic_escapes:
  assumes "closure (spec self) (fire_context self g) w = (Call_panics, w')" "\<not> leader (spec self)"
    and "\<And>b op. use_breaker (spec self) \<Longrightarrow> breaker self = Some b \<Longrightarrow>
      \<exists>b'. cb_call B op b w = (admitted (fst (op w)), b', snd (op w))"
  shows "\<exists>br. fire B g holder self w = (Inl User_panic, self\<lparr>breaker := br\<rparr>, w')"
proof -
  obtain out self' v where inv: "invoke B (fire_context self g) self w = (out, self', v)" by (metis prod_cases3)
  have "out = Inl User_panic \<and> v = w' \<and> (\<exists>br. self' = self\<lparr>breaker := br\<rparr>)"
  proof (cases rule: invoke_cases [OF inv])
    case 1
    then show ?thesis using assms(1) by (auto intro: exI [of _ "breaker self"])
  next
    case (2 b r b')
    with assms(3) [of b "breaker_op (closure (spec self)) (fire_context self g)"] assms(1) show ?thesis
      by (auto simp: breaker_op_eq)
  qed
  with inv assms(2) show ?thesis
    by (auto simp: fire_def fire_attempt_def leader_gate_def fire_context_def)
qed

theorem call_panic_escapes_witness:
  "let r = demo_runner\<lparr>spec := demo_spec\<lparr>closure := \<lambda>_ w. (Call_panics, w)\<rparr>\<rparr>
   in use_breaker (spec r) \<and> (\<exists>br. fire mini_breaker () [] r 0 = (Inl User_panic, r\<lparr>breaker := br\<rparr>, 0))"
proof -
  let ?r = "demo_runner\<lparr>spec := demo_spec\<lparr>closure := \<lambda>_ w. (Call_panics, w)\<rparr>\<rparr>"
  have "\<exists>br. fire mini_breaker () [] ?r 0 = (Inl User_panic, ?r\<lparr>breaker := br\<rparr>, 0)"
    by (rule call_panic_escapes) (auto simp: demo_defs split: prod.splits)
  then show ?thesis by (simp add: Let_def demo_defs)
qed

text \<open>
  C30: The breaker path agrees with the plain path. When the circuit admits a call, the
  breaker path and the plain path give the same outcome, message included, and the same
  world; and the operation reports an error to the breaker exactly when the outcome is a
  failure, so every failed fire, panics included, counts against the circuit.
\<close>

theorem breaker_agrees_with_plain:
  assumes "cb_call B (breaker_op job ctx) b w =
      (admitted (fst (breaker_op job ctx w)), b', snd (breaker_op job ctx w))"
  shows "invoke_through_breaker B b job ctx w =
      (fst (invoke_plain job ctx w), b', snd (invoke_plain job ctx w)) \<and>
    ((\<exists>e. fst (breaker_op job ctx w) = Inr (Inl e)) \<longleftrightarrow>
     (\<exists>m. fst (invoke_plain job ctx w) = Inr (Failure m)))"
proof -
  have "(\<exists>e. op_verdict r = Inr (Inl e)) \<longleftrightarrow> (\<exists>m. plain_verdict r = Inr (Failure m))" for r
    by (cases r rule: plain_verdict.cases) simp_all
  with assms show ?thesis
    by (simp add: invoke_through_breaker_eq breaker_op_eq invoke_plain_eq breaker_verdict_admitted)
qed

theorem breaker_agrees_with_plain_witness:
  "let job = (\<lambda>_ w. (Panics, Suc w)); ctx = fire_context demo_runner ()
   in invoke_through_breaker mini_breaker (5, 0) job ctx 0 =
        (fst (invoke_plain job ctx 0), (5, 1), snd (invoke_plain job ctx 0)) \<and>
      ((\<exists>e. fst (breaker_op job ctx 0) = Inr (Inl e)) \<longleftrightarrow>
       (\<exists>m. fst (invoke_plain job ctx 0) = Inr (Failure m)))"
  unfolding Let_def
  by (rule breaker_agrees_with_plain) (simp add: mini_breaker_def breaker_op_eq)

end
