(* ===== verification/Run_Loop.thy ===== *)
theory Run_Loop
  imports Runner
begin

text \<open>
  \<open>src/runner.rs\<close>, the scheduling loop of a job (\<open>run_loop\<close>, \<open>first_tick\<close>,
  \<open>next_tick_or_park\<close>, \<open>std_instant_at\<close>).

  What the operating system and the async runtime do is the parameter \<open>host\<close>: reading the
  two clocks, hashing with a freshly keyed \<open>RandomState\<close>, and \<open>select!\<close> over the shutdown
  watch channel and \<open>sleep_until\<close>, which reports either that the channel changed (with the
  value \<open>borrow_and_update\<close> then reads) or that the deadline elapsed. The loop may run
  forever, so \<open>job_loop\<close> and \<open>run_loop\<close> return an option: \<open>None\<close> is a run that never ends.
\<close>

section \<open>The host\<close>

datatype wake = Changed bool | Elapsed

record 'w host =
  system_now :: "'w \<Rightarrow> system_time \<times> 'w"
  instant_now :: "'w \<Rightarrow> instant \<times> 'w"
  build_hash :: "ustr \<Rightarrow> 'w \<Rightarrow> u64 \<times> 'w"
  select_wait :: "instant \<Rightarrow> 'w \<Rightarrow> wake \<times> 'w"

section \<open>Ticks and deadlines\<close>

definition first_tick ::
    "'w host \<Rightarrow> ('sch, 'dt, 'e) cron_crate \<Rightarrow> trigger \<Rightarrow> 'w \<Rightarrow> system_time res \<times> 'w" where
  "first_tick H C tr w =
     (let (now, w1) = system_now H w in
      (bind_res (next_fire_after C tr now) (\<lambda>r.
         case r of Some t \<Rightarrow> Inr t | None \<Rightarrow> system_time_add now schedule_park), w1))"

definition next_tick_or_park ::
    "('sch, 'dt, 'e) cron_crate \<Rightarrow> trigger \<Rightarrow> system_time \<Rightarrow> system_time \<Rightarrow> system_time res" where
  "next_tick_or_park C tr tick completed =
     bind_res (next_fire_after C tr tick) (\<lambda>r.
       case r of Some t \<Rightarrow> Inr t | None \<Rightarrow> system_time_add completed schedule_park)"

definition std_instant_at :: "'w host \<Rightarrow> system_time \<Rightarrow> 'w \<Rightarrow> instant \<times> 'w" where
  "std_instant_at H moment w =
     (let (now_system, w1) = system_now H w;
          (now_instant, w2) = instant_now H w1
      in (case duration_since moment now_system of
            Inr ahead \<Rightarrow> (case instant_checked_add now_instant ahead of Some t \<Rightarrow> t | None \<Rightarrow> now_instant)
          | Inl behind \<Rightarrow> (case instant_checked_sub now_instant behind of Some t \<Rightarrow> t | None \<Rightarrow> now_instant),
          w2))"

section \<open>The loop\<close>

record ('w, 'g, 'b) loop_state =
  ls_tick :: system_time
  ls_rng :: split_mix64
  ls_runner :: "('w, 'g, 'b) job_runner"
  ls_world :: 'w

datatype 's control = Continue 's | Break 's | Panic panic 's

text \<open>The jittered moment of the next fire.\<close>

definition planned_fire ::
    "'w host \<Rightarrow> jitter_policy \<Rightarrow> system_time \<Rightarrow> split_mix64 \<Rightarrow> 'w \<Rightarrow>
     (system_time \<times> split_mix64) res \<times> 'w" where
  "planned_fire H policy tick rng w =
     (let (now, w1) = system_now H w;
          gap = duration_since_or_zero tick now
      in (bind_res (jitter (random_range split_mix64_next_u64) policy gap rng) (\<lambda>(delay, rng').
            bind_res (system_time_add tick delay) (\<lambda>fire_at. Inr (fire_at, rng'))), w1))"

text \<open>The sleep branch: fire, read the clock, and coalesce.\<close>

definition fire_and_reschedule ::
    "'w host \<Rightarrow> ('sch, 'dt, 'e) cron_crate \<Rightarrow> ('w, 'b, 'cfg, 'm) breaker_crate \<Rightarrow> 'g \<Rightarrow> ustr \<Rightarrow>
     ('w, 'g, 'b) loop_state \<Rightarrow> ('w, 'g, 'b) loop_state control" where
  "fire_and_reschedule H C B shutdown holder st =
     (case fire B shutdown holder (ls_runner st) (ls_world st) of
        (Inl p, self, w) \<Rightarrow> Panic p (st\<lparr>ls_runner := self, ls_world := w\<rparr>)
      | (Inr _, self, w) \<Rightarrow>
          let (completed, w') = system_now H w;
              st' = st\<lparr>ls_runner := self, ls_world := w'\<rparr>
          in case next_tick_or_park C (spec_trigger (spec self)) (ls_tick st) completed of
               Inl p \<Rightarrow> Panic p st'
             | Inr tick \<Rightarrow> Continue (st'\<lparr>ls_tick := (if tick \<le> completed then completed else tick)\<rparr>))"

definition loop_body ::
    "'w host \<Rightarrow> ('sch, 'dt, 'e) cron_crate \<Rightarrow> ('w, 'b, 'cfg, 'm) breaker_crate \<Rightarrow> 'g \<Rightarrow> ustr \<Rightarrow>
     ('w, 'g, 'b) loop_state \<Rightarrow> ('w, 'g, 'b) loop_state control" where
  "loop_body H C B shutdown holder st =
     (case planned_fire H (runner_jitter (ls_runner st)) (ls_tick st) (ls_rng st) (ls_world st) of
        (Inl p, w) \<Rightarrow> Panic p (st\<lparr>ls_world := w\<rparr>)
      | (Inr (fire_at, rng), w) \<Rightarrow>
          let (deadline, w1) = std_instant_at H fire_at w;
              (woken, w2) = select_wait H deadline w1;
              st' = st\<lparr>ls_rng := rng, ls_world := w2\<rparr>
          in case woken of
               Changed b \<Rightarrow> if b then Break st' else Continue st'
             | Elapsed \<Rightarrow> fire_and_reschedule H C B shutdown holder st')"

partial_function (option) job_loop ::
    "'w host \<Rightarrow> ('sch, 'dt, 'e) cron_crate \<Rightarrow> ('w, 'b, 'cfg, 'm) breaker_crate \<Rightarrow> 'g \<Rightarrow> ustr \<Rightarrow>
     ('w, 'g, 'b) loop_state \<Rightarrow> (unit res \<times> ('w, 'g, 'b) loop_state) option" where
  "job_loop H C B shutdown holder st =
     (case loop_body H C B shutdown holder st of
        Continue st' \<Rightarrow> job_loop H C B shutdown holder st'
      | Break st' \<Rightarrow> Some (Inr (), st')
      | Panic p st' \<Rightarrow> Some (Inl p, st'))"

text \<open>A fire that the spec asks for (\<open>fire_at_start\<close>, \<open>drain_pass\<close>) or not.\<close>

definition fire_if ::
    "bool \<Rightarrow> ('w, 'b, 'cfg, 'm) breaker_crate \<Rightarrow> 'g \<Rightarrow> ustr \<Rightarrow> ('w, 'g, 'b) job_runner \<Rightarrow> 'w \<Rightarrow>
     unit res \<times> ('w, 'g, 'b) job_runner \<times> 'w" where
  "fire_if b B shutdown holder self w =
     (if b then fire B shutdown holder self w else (Inr (), self, w))"

text \<open>The worker's generator: the supervisor's seed XOR a hash of the name under fresh keys.\<close>

definition worker_rng :: "'w host \<Rightarrow> ustr \<Rightarrow> u64 \<Rightarrow> 'w \<Rightarrow> split_mix64 \<times> 'w" where
  "worker_rng H name seed w =
     (let (name_hash, w') = build_hash H name w;
          effective_seed = seed XOR name_hash
      in (split_mix64_new effective_seed, w'))"

definition run_loop ::
    "'w host \<Rightarrow> ('sch, 'dt, 'e) cron_crate \<Rightarrow> ('w, 'b, 'cfg, 'm) breaker_crate \<Rightarrow>
     ('w, 'g, 'b) job_runner \<Rightarrow> 'g \<Rightarrow> ustr \<Rightarrow> u64 \<Rightarrow> 'w \<Rightarrow>
     (job_run_summary res \<times> ('w, 'g, 'b) job_runner \<times> 'w) option" where
  "run_loop H C B self shutdown holder seed w =
     (let (rng, w0) = worker_rng H (spec_name (spec self)) seed w
      in case fire_if (fire_at_start (spec self)) B shutdown holder self w0 of
           (Inl p, self1, w1) \<Rightarrow> Some (Inl p, self1, w1)
         | (Inr _, self1, w1) \<Rightarrow>
             (case first_tick H C (spec_trigger (spec self1)) w1 of
                (Inl p, w2) \<Rightarrow> Some (Inl p, self1, w2)
              | (Inr tick, w2) \<Rightarrow>
                  (case job_loop H C B shutdown holder
                          \<lparr>ls_tick = tick, ls_rng = rng, ls_runner = self1, ls_world = w2\<rparr> of
                     None \<Rightarrow> None
                   | Some (Inl p, st) \<Rightarrow> Some (Inl p, ls_runner st, ls_world st)
                   | Some (Inr _, st) \<Rightarrow>
                       (case fire_if (drain_pass (spec (ls_runner st))) B shutdown holder
                               (ls_runner st) (ls_world st) of
                          (Inl p, self3, w3) \<Rightarrow> Some (Inl p, self3, w3)
                        | (Inr _, self3, w3) \<Rightarrow> Some (Inr (summary self3), self3, w3)))))"

section \<open>Reachable loop states\<close>

text \<open>The states at the head of the loop, from a given one.\<close>

inductive loop_reach ::
    "'w host \<Rightarrow> ('sch, 'dt, 'e) cron_crate \<Rightarrow> ('w, 'b, 'cfg, 'm) breaker_crate \<Rightarrow> 'g \<Rightarrow> ustr \<Rightarrow>
     ('w, 'g, 'b) loop_state \<Rightarrow> ('w, 'g, 'b) loop_state \<Rightarrow> bool"
  for H C B g h where
  reach_refl: "loop_reach H C B g h st st"
| reach_step: "loop_body H C B g h st = Continue st1 \<Longrightarrow> loop_reach H C B g h st1 st2 \<Longrightarrow>
    loop_reach H C B g h st st2"

text \<open>
  A host whose two clocks are one time line \<open>time\<close> read with a fixed offset, which does not
  run backwards and stays in the first 2^62 seconds; \<open>sleep_until\<close> does not return early.
\<close>

definition steady_host :: "'w host \<Rightarrow> ('w \<Rightarrow> int) \<Rightarrow> int \<Rightarrow> bool" where
  "steady_host H time offset \<longleftrightarrow> offset \<le> 0 \<and> (\<forall>w. 0 \<le> time w \<and> time w < 2 ^ 62 * 1000000000) \<and>
     (\<forall>w t w'. system_now H w = (t, w') \<longrightarrow> t = time w' \<and> time w \<le> time w') \<and>
     (\<forall>w i w'. instant_now H w = (i, w') \<longrightarrow> i = time w' + offset \<and> time w \<le> time w') \<and>
     (\<forall>d w k w'. select_wait H d w = (k, w') \<longrightarrow> time w \<le> time w' \<and> (k = Elapsed \<longrightarrow> d \<le> time w' + offset))"

text \<open>
  A world in which shutdown is on its way: every wait either reports it or uses up one of
  \<open>pending\<close> wakes, which nothing else the host does adds to.
\<close>

definition shutdown_coming :: "'w host \<Rightarrow> ('w \<Rightarrow> nat) \<Rightarrow> bool" where
  "shutdown_coming H pending \<longleftrightarrow>
     (\<forall>d w. fst (select_wait H d w) = Changed True \<or> pending (snd (select_wait H d w)) < pending w) \<and>
     (\<forall>d w. pending (snd (select_wait H d w)) \<le> pending w) \<and>
     (\<forall>w. pending (snd (system_now H w)) \<le> pending w) \<and>
     (\<forall>w. pending (snd (instant_now H w)) \<le> pending w) \<and>
     (\<forall>n w. pending (snd (build_hash H n w)) \<le> pending w)"

text \<open>Two hosts for concrete runs: the world is the time in nanoseconds.\<close>

definition demo_host :: "nat host" where
  "demo_host =
     \<lparr>system_now = (\<lambda>w. (int w, w)), instant_now = (\<lambda>w. (int w, w)),
      build_hash = (\<lambda>_ w. (of_nat w, w)),
      select_wait = (\<lambda>d w. if 3000000 \<le> w then (Changed True, w) else (Elapsed, max (Suc w) (nat d)))\<rparr>"

definition tiny_host :: "nat host" where
  "tiny_host =
     \<lparr>system_now = (\<lambda>w. (int (min w 1000), w)), instant_now = (\<lambda>w. (int (min w 1000), w)),
      build_hash = (\<lambda>_ w. (of_nat w, w)),
      select_wait = (\<lambda>d w. if d \<le> 1000 then (Elapsed, max w (nat d)) else (Changed True, w))\<rparr>"

definition still_runner :: "(nat, unit, nat \<times> nat) job_runner" where
  "still_runner = job_runner_new
     ((job_spec_new (lit ''still'') (Interval 0) (\<lambda>_ w. (Panics, w)))\<lparr>fire_at_start := True, use_breaker := False\<rparr>)
     \<lparr>fraction = Fin 0\<rparr>"

definition empty_cron :: "(unit, system_time, unit) cron_crate" where
  "empty_cron =
     \<lparr>parse_schedule = (\<lambda>_. Inr ()), utc_of = Inr, next_after = (\<lambda>_ _. None), system_of = (\<lambda>t. t)\<rparr>"

section \<open>Lemmas\<close>

lemma planned_fire_cases:
  assumes "planned_fire H policy tick rng w = (Inr (fire_at, rng'), w')"
  obtains now delay where "system_now H w = (now, w')"
    "jitter (random_range split_mix64_next_u64) policy (duration_since_or_zero tick now) rng = Inr (delay, rng')"
    "fire_at = tick + int delay" "fire_at < time_limit"
  using assms
  by (auto simp: planned_fire_def Let_def bind_res_eq_Inr_iff system_time_add_Inr_iff split: prod.splits)

lemma loop_body_cases:
  assumes "loop_body H C B g h st = c"
  obtains (unplanned) p w where
      "planned_fire H (runner_jitter (ls_runner st)) (ls_tick st) (ls_rng st) (ls_world st) = (Inl p, w)"
      "c = Panic p (st\<lparr>ls_world := w\<rparr>)"
  | (woken) fire_at rng w b w2 where
      "planned_fire H (runner_jitter (ls_runner st)) (ls_tick st) (ls_rng st) (ls_world st) = (Inr (fire_at, rng), w)"
      "select_wait H (fst (std_instant_at H fire_at w)) (snd (std_instant_at H fire_at w)) = (Changed b, w2)"
      "c = (if b then Break else Continue) (st\<lparr>ls_rng := rng, ls_world := w2\<rparr>)"
  | (elapsed) fire_at rng w w2 where
      "planned_fire H (runner_jitter (ls_runner st)) (ls_tick st) (ls_rng st) (ls_world st) = (Inr (fire_at, rng), w)"
      "select_wait H (fst (std_instant_at H fire_at w)) (snd (std_instant_at H fire_at w)) = (Elapsed, w2)"
      "c = fire_and_reschedule H C B g h (st\<lparr>ls_rng := rng, ls_world := w2\<rparr>)"
proof -
  obtain r w where p: "planned_fire H (runner_jitter (ls_runner st)) (ls_tick st) (ls_rng st) (ls_world st) = (r, w)"
    by (meson surj_pair)
  show thesis
  proof (cases r)
    case (Inl e)
    with p assms that(1) show thesis by (simp add: loop_body_def)
  next
    case (Inr x)
    obtain fire_at rng where x: "x = (fire_at, rng)" by (cases x)
    obtain k w2 where s: "select_wait H (fst (std_instant_at H fire_at w)) (snd (std_instant_at H fire_at w)) = (k, w2)"
      by (meson surj_pair)
    show thesis
    proof (cases k)
      case (Changed b)
      with p s Inr x assms show thesis
        by (intro that(2) [of fire_at rng w b w2]) (auto simp: loop_body_def Let_def split_beta)
    next
      case Elapsed
      with p s Inr x assms show thesis
        by (intro that(3) [of fire_at rng w w2]) (auto simp: loop_body_def Let_def split_beta)
    qed
  qed
qed

lemma fire_and_reschedule_Continue:
  assumes "fire_and_reschedule H C B g h st = Continue st'"
  obtains self w completed w' t where "fire B g h (ls_runner st) (ls_world st) = (Inr (), self, w)"
    "system_now H w = (completed, w')"
    "next_tick_or_park C (spec_trigger (spec (ls_runner st))) (ls_tick st) completed = Inr t"
    "st' = st\<lparr>ls_runner := self, ls_world := w', ls_tick := max completed t\<rparr>"
proof -
  obtain r self w where f: "fire B g h (ls_runner st) (ls_world st) = (r, self, w)" by (metis prod_cases3)
  have sp: "spec self = spec (ls_runner st)" using fire_frame [OF f] by (rule wiring_spec)
  obtain completed w' where n: "system_now H w = (completed, w')" by (meson surj_pair)
  obtain t where t: "next_tick_or_park C (spec_trigger (spec (ls_runner st))) (ls_tick st) completed = Inr t"
    and r: "r = Inr ()"
    using assms f n sp by (auto simp: fire_and_reschedule_def Let_def split: sum.splits)
  then show thesis
    using assms f n sp
    by (intro that [of self w completed w' t])
      (auto simp: fire_and_reschedule_def Let_def max_def split: if_splits)
qed

lemma fire_and_reschedule_not_Break: "fire_and_reschedule H C B g h st \<noteq> Break st'"
  by (auto simp: fire_and_reschedule_def Let_def split: sum.splits prod.splits)

text \<open>What a round of the loop does to the runner, the tick and the world.\<close>

lemma loop_body_Continue:
  assumes "loop_body H C B g h st = Continue st'"
  obtains (spurious) "ls_runner st' = ls_runner st" "ls_tick st' = ls_tick st"
  | (fired) w self w1 completed w2 t where "fire B g h (ls_runner st) w = (Inr (), self, w1)"
      "system_now H w1 = (completed, w2)"
      "next_tick_or_park C (spec_trigger (spec (ls_runner st))) (ls_tick st) completed = Inr t"
      "ls_runner st' = self" "ls_tick st' = max completed t"
  using assms
proof (cases rule: loop_body_cases)
  case (woken fire_at rng w b w2)
  then show thesis using spurious by (auto split: if_splits)
next
  case (elapsed fire_at rng w w2)
  show thesis
    by (rule fire_and_reschedule_Continue [OF elapsed(3) [symmetric]]) (rule fired [of w2], auto)
qed simp

lemma loop_reach_history:
  assumes "loop_reach H C B g h st st'"
  shows "\<exists>hs. fire_history B g h (ls_runner st) hs (ls_runner st')"
  using assms
proof induction
  case (reach_refl st)
  show ?case by (rule exI) (rule history_nil)
next
  case (reach_step st st1 st2)
  then obtain hs where hs: "fire_history B g h (ls_runner st1) hs (ls_runner st2)" by blast
  from reach_step.hyps(1) show ?case
  proof (cases rule: loop_body_Continue)
    case spurious
    with hs show ?thesis by auto
  next
    case fired
    then obtain obs where "fire_history B g h (ls_runner st) [obs] (ls_runner st1)"
      using fire_history_one by metis
    with hs show ?thesis using fire_history_append by metis
  qed
qed

text \<open>\<open>job_loop\<close> ends exactly where a reachable state breaks or panics.\<close>

lemma job_loop_reach:
  assumes "loop_reach H C B g h st st'"
  shows "job_loop H C B g h st = job_loop H C B g h st'"
  using assms by induction (simp_all add: job_loop.simps)

lemma job_loop_end:
  assumes "job_loop H C B g h st = Some y"
  shows "\<exists>st1. loop_reach H C B g h st st1 \<and>
    loop_body H C B g h st1 = (case fst y of Inr _ \<Rightarrow> Break (snd y) | Inl p \<Rightarrow> Panic p (snd y))"
proof (rule job_loop.raw_induct [OF _ assms])
  fix loop H C B g h st y
  assume IH: "\<And>H C B g h st y. loop H C B g h st = Some y \<Longrightarrow>
      \<exists>st1. loop_reach H C B g h st st1 \<and>
        loop_body H C B g h st1 = (case fst y of Inr _ \<Rightarrow> Break (snd y) | Inl p \<Rightarrow> Panic p (snd y))"
    and eq: "(case loop_body H C B g h st of Continue st' \<Rightarrow> loop H C B g h st'
      | Break st' \<Rightarrow> Some (Inr (), st') | Panic p st' \<Rightarrow> Some (Inl p, st')) = Some y"
  show "\<exists>st1. loop_reach H C B g h st st1 \<and>
      loop_body H C B g h st1 = (case fst y of Inr _ \<Rightarrow> Break (snd y) | Inl p \<Rightarrow> Panic p (snd y))"
  proof (cases "loop_body H C B g h st")
    case (Continue st1)
    with eq have "loop H C B g h st1 = Some y" by simp
    from IH [OF this] show ?thesis using reach_step [OF Continue] by blast
  qed (use eq in \<open>auto intro: reach_refl\<close>)
qed

lemma job_loop_history:
  assumes "job_loop H C B g h st = Some (Inr u, st')"
  shows "\<exists>hs. fire_history B g h (ls_runner st) hs (ls_runner st')"
proof -
  obtain st1 where st1: "loop_reach H C B g h st st1" "loop_body H C B g h st1 = Break st'"
    using job_loop_end [OF assms] by auto
  have "ls_runner st' = ls_runner st1"
    using st1(2) by (cases rule: loop_body_cases)
      (auto simp: fire_and_reschedule_not_Break dest: sym split: if_splits)
  with loop_reach_history [OF st1(1)] show ?thesis by simp
qed

lemma fire_if_history:
  assumes "fire_if b B g h self w = (Inr u, self', w')"
  shows "\<exists>hs. length hs = of_bool b \<and> fire_history B g h self hs self'"
proof (cases b)
  case True
  with assms have "fire B g h self w = (Inr (), self', w')" by (simp add: fire_if_def)
  from fire_history_one [OF this] True show ?thesis by force
next
  case False
  with assms history_nil [of B g h self] show ?thesis by (auto simp: fire_if_def)
qed

text \<open>Termination: the pending wakes are a measure.\<close>

lemma snd_std_instant_at: "snd (std_instant_at H t w) = snd (instant_now H (snd (system_now H w)))"
  by (simp add: std_instant_at_def Let_def split_beta)

lemma shutdown_coming_reads:
  assumes "shutdown_coming H pending"
  shows "pending (snd (system_now H w)) \<le> pending w" "pending (snd (instant_now H w)) \<le> pending w"
    "pending (snd (build_hash H n w)) \<le> pending w" "pending (snd (select_wait H d w)) \<le> pending w"
  using assms unfolding shutdown_coming_def by blast+

lemma shutdown_coming_wait:
  assumes "shutdown_coming H pending" "select_wait H d w = (k, w')" "k \<noteq> Changed True"
  shows "pending w' < pending w"
proof -
  have "fst (select_wait H d w) = Changed True \<or> pending (snd (select_wait H d w)) < pending w"
    using assms(1) unfolding shutdown_coming_def by blast
  with assms(2,3) show ?thesis by simp
qed

lemma std_instant_at_pending:
  assumes "shutdown_coming H pending"
  shows "pending (snd (std_instant_at H t w)) \<le> pending w"
  unfolding snd_std_instant_at
  using shutdown_coming_reads(2) [OF assms] shutdown_coming_reads(1) [OF assms] by (rule order_trans)

lemma planned_fire_pending:
  "shutdown_coming H pending \<Longrightarrow> pending (snd (planned_fire H policy t rng w)) \<le> pending w"
  by (simp add: shutdown_coming_reads planned_fire_def Let_def split_beta)

lemma loop_body_pending:
  assumes coming: "shutdown_coming H pending"
    and fires: "\<And>r w. wiring r = wiring (ls_runner st) \<Longrightarrow> pending (snd (snd (fire B g h r w))) \<le> pending w"
    and eq: "loop_body H C B g h st = Continue st'"
  shows "pending (ls_world st') < pending (ls_world st) \<and> wiring (ls_runner st') = wiring (ls_runner st)"
  using eq
proof (cases rule: loop_body_cases)
  case (woken fire_at rng w b w2)
  let ?d = "std_instant_at H fire_at w"
  have "pending w2 < pending (snd ?d)"
    by (rule shutdown_coming_wait [OF coming woken(2)]) (use woken(3) in auto)
  then show ?thesis
    using std_instant_at_pending [OF coming, of fire_at w] woken
      planned_fire_pending [OF coming, of "runner_jitter (ls_runner st)" "ls_tick st" "ls_rng st" "ls_world st"]
    by (auto split: if_splits)
next
  case (elapsed fire_at rng w w2)
  let ?d = "std_instant_at H fire_at w"
  have "pending w2 < pending (snd ?d)"
    by (rule shutdown_coming_wait [OF coming elapsed(2)]) simp
  then have w2: "pending w2 < pending (ls_world st)"
    using std_instant_at_pending [OF coming, of fire_at w] elapsed
      planned_fire_pending [OF coming, of "runner_jitter (ls_runner st)" "ls_tick st" "ls_rng st" "ls_world st"]
    by auto
  obtain self w' completed w'' t where f: "fire B g h (ls_runner st) w2 = (Inr (), self, w')"
      "system_now H w' = (completed, w'')" "ls_world st' = w''" "ls_runner st' = self"
    by (rule fire_and_reschedule_Continue [OF elapsed(3) [symmetric]]) simp
  have "pending w'' \<le> pending w'" using shutdown_coming_reads(1) [OF coming, of w'] f(2) by simp
  with w2 fires [of "ls_runner st" w2] f fire_frame [OF f(1)] show ?thesis by simp
qed simp

text \<open>No outcome of a round adds pending wakes.\<close>

lemma fire_and_reschedule_pending_le:
  assumes coming: "shutdown_coming H pending"
    and fires: "pending (snd (snd (fire B g h (ls_runner st) (ls_world st)))) \<le> pending (ls_world st)"
    and eq: "fire_and_reschedule H C B g h st = c" "c \<in> {Continue st', Break st', Panic p st'}"
  shows "pending (ls_world st') \<le> pending (ls_world st)"
proof -
  obtain x self w where f: "fire B g h (ls_runner st) (ls_world st) = (x, self, w)" by (metis prod_cases3)
  obtain completed w1 where n: "system_now H w = (completed, w1)" by (meson surj_pair)
  have "pending w1 \<le> pending w" using shutdown_coming_reads(1) [OF coming, of w] n by simp
  with fires f have "pending w1 \<le> pending (ls_world st)" "pending w \<le> pending (ls_world st)" by simp_all
  moreover have "ls_world st' \<in> {w, w1}"
    using eq f n by (auto simp: fire_and_reschedule_def Let_def split: sum.splits)
  ultimately show ?thesis by auto
qed

lemma loop_body_pending_le:
  assumes coming: "shutdown_coming H pending"
    and fires: "\<And>w. pending (snd (snd (fire B g h (ls_runner st) w))) \<le> pending w"
    and eq: "loop_body H C B g h st = c" "c \<in> {Continue st', Break st', Panic p st'}"
  shows "pending (ls_world st') \<le> pending (ls_world st)"
  using eq(1)
proof (cases rule: loop_body_cases)
  case (unplanned q w)
  with eq(2) planned_fire_pending [OF coming, of "runner_jitter (ls_runner st)" "ls_tick st" "ls_rng st" "ls_world st"]
  show ?thesis by auto
next
  case (woken fire_at rng w b w2)
  with eq(2) planned_fire_pending [OF coming, of "runner_jitter (ls_runner st)" "ls_tick st" "ls_rng st" "ls_world st"]
    std_instant_at_pending [OF coming, of fire_at w]
    shutdown_coming_reads(4) [OF coming, of "fst (std_instant_at H fire_at w)" "snd (std_instant_at H fire_at w)"]
  show ?thesis by (auto split: if_splits)
next
  case (elapsed fire_at rng w w2)
  have "pending w2 \<le> pending (ls_world st)"
    using elapsed(1,2) planned_fire_pending [OF coming, of "runner_jitter (ls_runner st)" "ls_tick st" "ls_rng st" "ls_world st"]
      std_instant_at_pending [OF coming, of fire_at w]
      shutdown_coming_reads(4) [OF coming, of "fst (std_instant_at H fire_at w)" "snd (std_instant_at H fire_at w)"]
    by auto
  with fire_and_reschedule_pending_le [OF coming _ elapsed(3) [symmetric] eq(2)] fires show ?thesis by fastforce
qed

lemma job_loop_returns:
  assumes "shutdown_coming H pending"
    and "\<And>r w. wiring r = wiring (ls_runner st) \<Longrightarrow> pending (snd (snd (fire B g h r w))) \<le> pending w"
  shows "\<exists>y. job_loop H C B g h st = Some y"
  using assms(2)
proof (induction "pending (ls_world st)" arbitrary: st rule: less_induct)
  case less
  show ?case
  proof (cases "loop_body H C B g h st")
    case (Continue st1)
    note step = loop_body_pending [OF assms(1) less.prems Continue]
    with less.hyps [of st1] less.prems have "\<exists>y. job_loop H C B g h st1 = Some y" by simp
    with Continue show ?thesis by (simp add: job_loop.simps)
  qed (simp_all add: job_loop.simps)
qed

lemma run_loop_returned:
  assumes "run_loop H C B self g holder seed w = Some (Inr sm, self', w')"
  obtains w0 u1 self1 w1 tick w2 st0 u2 st u3 where
    "fire_if (fire_at_start (spec self)) B g holder self w0 = (Inr u1, self1, w1)"
    "first_tick H C (spec_trigger (spec self1)) w1 = (Inr tick, w2)"
    "ls_runner st0 = self1" "ls_tick st0 = tick"
    "job_loop H C B g holder st0 = Some (Inr u2, st)"
    "fire_if (drain_pass (spec (ls_runner st))) B g holder (ls_runner st) (ls_world st) = (Inr u3, self', w')"
    "sm = summary self'"
proof -
  obtain rng w0 where w0: "worker_rng H (spec_name (spec self)) seed w = (rng, w0)" by (meson surj_pair)
  obtain r1 self1 w1 where f1: "fire_if (fire_at_start (spec self)) B g holder self w0 = (r1, self1, w1)"
    by (metis prod_cases3)
  with assms w0 obtain u1 where r1: "r1 = Inr u1" by (auto simp: run_loop_def split: sum.splits)
  obtain r2 w2 where f2: "first_tick H C (spec_trigger (spec self1)) w1 = (r2, w2)" by (meson surj_pair)
  with assms w0 f1 r1 obtain tick where r2: "r2 = Inr tick" by (auto simp: run_loop_def split: sum.splits)
  let ?st0 = "\<lparr>ls_tick = tick, ls_rng = rng, ls_runner = self1, ls_world = w2\<rparr>"
  from assms w0 f1 r1 f2 r2 obtain y where y: "job_loop H C B g holder ?st0 = Some y"
    by (auto simp: run_loop_def Let_def split: option.splits)
  obtain r3 st where y': "y = (r3, st)" by (cases y)
  from assms w0 f1 r1 f2 r2 y y' obtain u2 where r3: "r3 = Inr u2"
    by (auto simp: run_loop_def Let_def split: sum.splits)
  obtain r4 self3 w3 where f4: "fire_if (drain_pass (spec (ls_runner st))) B g holder (ls_runner st) (ls_world st) = (r4, self3, w3)"
    by (metis prod_cases3)
  from assms w0 f1 r1 f2 r2 y y' r3 f4 have "\<exists>u3. r4 = Inr u3 \<and> self3 = self' \<and> w3 = w' \<and> sm = summary self'"
    by (auto simp: run_loop_def Let_def split: sum.splits)
  with f1 r1 f2 r2 y y' r3 f4 show thesis by (intro that [of w0 u1 self1 w1 tick w2 ?st0 u2 st]) auto
qed

lemma planned_fire_range:
  assumes "planned_fire H policy tick rng w = (Inr (fire_at, rng'), w')"
  shows "tick \<le> fire_at \<and> fire_at \<le> tick + max 0 (tick - fst (system_now H w))"
  using assms
proof (cases rule: planned_fire_cases)
  case (1 now delay)
  from provided.jitter_le_window [OF 1(2)] have "delay \<le> nat (tick - now)"
    by (auto simp: duration_since_or_zero_eq)
  with 1 show ?thesis by auto
qed

lemma interval_next_tick:
  assumes "next_tick_or_park C (Interval i) tick completed = Inr t"
  shows "t = tick + max (int i) 1000000"
proof -
  obtain r where r: "next_fire_after C (Interval i) tick = Inr r"
    and t: "(case r of Some t \<Rightarrow> Inr t | None \<Rightarrow> system_time_add completed schedule_park) = Inr t"
    using assms unfolding next_tick_or_park_def bind_res_eq_Inr_iff by blast
  from r have "r = Some (tick + int (max i min_interval))" by (simp only: next_fire_after_interval_Inr)
  with t show ?thesis by (simp add: min_interval_eq of_nat_max)
qed

lemma loop_reach_wiring:
  assumes "loop_reach H C B g h st st'"
  shows "wiring (ls_runner st') = wiring (ls_runner st)"
  using loop_reach_history [OF assms] by (auto dest: fire_history_frame)

lemma planned_fire_no_gap:
  assumes "system_now H w = (now, w')" "tick \<le> now" "tick < time_limit"
    and "fraction policy = Fin f" "0 \<le> f" "f \<le> 1"
  shows "planned_fire H policy tick rng w = (Inr (tick, rng), w')"
  using assms(1-3) window_zero_gap [OF assms(4-6)]
  by (simp add: planned_fire_def duration_since_or_zero_eq jitter_def is_zero_def system_time_add_def)

lemma steady_hostD:
  assumes "steady_host H time offset"
  shows "offset \<le> 0" "0 \<le> time w" "time w < 2 ^ 62 * 1000000000"
    "system_now H w = (t, w') \<Longrightarrow> t = time w' \<and> time w \<le> time w'"
    "instant_now H w = (i, w') \<Longrightarrow> i = time w' + offset \<and> time w \<le> time w'"
    "select_wait H d w = (k, w') \<Longrightarrow> time w \<le> time w' \<and> (k = Elapsed \<longrightarrow> d \<le> time w' + offset)"
  using assms unfolding steady_host_def by blast+

text \<open>The deadline handed to the timer is not earlier than the moment it stands for.\<close>

lemma std_instant_at_not_early:
  assumes H: "steady_host H time offset" and "moment < 2 ^ 62 * 1000000000"
    and "std_instant_at H moment w = (deadline, w')" "deadline \<le> now + offset" "time w' \<le> now"
  shows "moment \<le> now"
proof -
  obtain sys w1 where s: "system_now H w = (sys, w1)" by (meson surj_pair)
  obtain inst w2 where i: "instant_now H w1 = (inst, w2)" by (meson surj_pair)
  have eqs: "sys = time w1" "inst = time w2 + offset" "time w1 \<le> time w2" "w2 = w'"
    using steady_hostD(4) [OF H s] steady_hostD(5) [OF H i] assms(3) s i
    by (auto simp: std_instant_at_def)
  show ?thesis
  proof (cases "sys \<le> moment")
    case True
    have "inst + (moment - sys) < time_limit"
      using steady_hostD(1) [OF H] steady_hostD(2) [OF H, of w1] steady_hostD(3) [OF H, of w2] assms(2) eqs
      by (simp add: time_limit_def)
    with True assms(3) s i have "deadline = inst + (moment - sys)"
      by (auto simp: std_instant_at_def duration_since_def instant_checked_add_def)
    with eqs assms(4) show ?thesis by simp
  next
    case False
    with eqs assms(5) show ?thesis by simp
  qed
qed

lemma planned_fire_no_jitter:
  assumes "system_now H w = (now, w')" "fraction policy = Fin 0" "tick < time_limit" "0 \<le> now"
  shows "planned_fire H policy tick rng w = (Inr (tick, rng), w')"
proof -
  have "nat (tick - now) \<le> 2 ^ 64 * nanos_per_sec"
    using assms(3,4) by (simp add: time_limit_def nanos_per_sec_def)
  from window_no_jitter [OF assms(2) this] assms show ?thesis
    by (simp add: planned_fire_def duration_since_or_zero_eq jitter_def is_zero_def system_time_add_def)
qed

lemma demo_host_sel:
  "system_now demo_host w = (int w, w)" "instant_now demo_host w = (int w, w)"
  "build_hash demo_host n w = (of_nat w, w)"
  "select_wait demo_host d w = (if 3000000 \<le> w then (Changed True, w) else (Elapsed, max (Suc w) (nat d)))"
  by (simp_all add: demo_host_def)

lemma tiny_host_steady: "steady_host tiny_host (\<lambda>w. int (min w 1000)) 0"
  by (auto simp: steady_host_def tiny_host_def split: if_splits)

lemma demo_runner_sel:
  "runner_jitter demo_runner = \<lparr>fraction = Fin 0\<rparr>" "spec demo_runner = demo_spec"
  "spec_trigger demo_spec = Interval 0" "rstats demo_runner = stats_default"
  by (simp_all add: demo_runner_def demo_spec_def with_breaker_def job_runner_new_def job_spec_new_def)

lemma demo_next_tick: "t + 1000000 < time_limit \<Longrightarrow> next_tick_or_park C (Interval 0) t completed = Inr (t + 1000000)"
  by (simp add: next_tick_or_park_def system_time_add_def min_interval_eq)

lemma demo_first_fire: "fst (fire mini_breaker () [] demo_runner w) = Inr () \<and>
    snd (snd (fire mini_breaker () [] demo_runner w)) = Suc w"
  by (simp add: demo_defs fire_defs)

text \<open>On any tick source, a fire moves the loop's tick strictly forward unless it parks.\<close>

context tick_source
begin

lemma resumed_later:
  assumes "next_tick t = Inr r" "(case r of Some t' \<Rightarrow> Inr t' | None \<Rightarrow> system_time_add completed park) = Inr t'"
    and "0 < park" "t \<le> completed"
  shows "t < max completed t'"
  using assms by (cases r) (auto simp: system_time_add_Inr_iff dest: advances)

end

lemma loop_tick_strict:
  assumes "cron_strict C" "fire_and_reschedule H C B g h st = Continue st'"
    and "\<And>w c w'. system_now H w = (c, w') \<Longrightarrow> ls_tick st \<le> c"
  shows "ls_tick st < ls_tick st'"
proof (rule fire_and_reschedule_Continue [OF assms(2)])
  fix self w completed w' t
  assume now: "system_now H w = (completed, w')"
    and t: "next_tick_or_park C (spec_trigger (spec (ls_runner st))) (ls_tick st) completed = Inr t"
    and st': "st' = st\<lparr>ls_runner := self, ls_world := w', ls_tick := max completed t\<rparr>"
  from t obtain r where "next_fire_after C (spec_trigger (spec (ls_runner st))) (ls_tick st) = Inr r"
      "(case r of Some t \<Rightarrow> Inr t | None \<Rightarrow> system_time_add completed schedule_park) = Inr t"
    by (auto simp: next_tick_or_park_def bind_res_eq_Inr_iff)
  from tick_source.resumed_later [OF trigger_tick_source [OF assms(1)] this] assms(3) [OF now] st'
  show ?thesis by (simp add: schedule_park_def from_secs_def nanos_per_sec_def)
qed

lemma demo_shutdown_coming: "shutdown_coming demo_host (\<lambda>w. 3000000 - w)"
  by (auto simp: shutdown_coming_def demo_host_sel)

lemma still_runner_fire:
  assumes "wiring r = wiring still_runner"
  shows "snd (snd (fire B g h r w)) = w"
proof -
  have "spec r = spec still_runner" using assms by (rule wiring_spec)
  then show ?thesis
    by (simp add: fire_def fire_attempt_def leader_gate_def invoke_def invoke_plain_eq
        record_last_error_def Let_def still_runner_def frame_simps job_spec_new_def)
qed

text \<open>
  Types. The model computes with unbounded numbers; what a clock reads and what the cron
  crate converts to is in the range of the Rust types.
\<close>

definition clocks_typed :: "'w host \<Rightarrow> ('sch, 'dt, 'e) cron_crate \<Rightarrow> bool" where
  "clocks_typed H C \<longleftrightarrow>
     (\<forall>w. system_time_ok (fst (system_now H w))) \<and> (\<forall>w. system_time_ok (fst (instant_now H w))) \<and>
     (\<forall>dt. system_time_ok (system_of C dt))"

lemma clocks_typedD:
  assumes "clocks_typed H C"
  shows "system_now H w = (t, w') \<Longrightarrow> system_time_ok t" "instant_now H w = (t, w') \<Longrightarrow> system_time_ok t"
    "system_time_ok (system_of C dt)"
  using assms by (auto simp: clocks_typed_def dest: spec [of _ w])

lemma system_time_add_ok: "system_time_add t d = Inr t' \<Longrightarrow> system_time_ok t \<Longrightarrow> system_time_ok t'"
  by (auto simp: system_time_add_Inr_iff system_time_ok_def)

lemma next_fire_after_ok:
  assumes "clocks_typed H C" "system_time_ok t" "next_fire_after C tr t = Inr (Some t')"
  shows "system_time_ok t'"
proof (cases tr)
  case (Cron expr)
  with assms(3) obtain dt where "t' = system_of C dt"
    by (cases "parse_schedule C expr") (auto simp: bind_res_eq_Inr_iff)
  with assms(1) show ?thesis by (simp add: clocks_typedD(3))
qed (use assms in \<open>auto simp: bind_res_eq_Inr_iff intro: system_time_add_ok\<close>)

lemma park_ok:
  assumes "clocks_typed H C" "system_time_ok t" "system_time_ok now"
    and "bind_res (next_fire_after C tr t) (case_option (system_time_add now schedule_park) Inr) = Inr t'"
  shows "system_time_ok t'"
  using assms by (auto simp: bind_res_eq_Inr_iff split: option.splits intro: next_fire_after_ok system_time_add_ok)

lemma first_tick_ok:
  assumes "clocks_typed H C" "first_tick H C tr w = (Inr t, w')"
  shows "system_time_ok t"
proof -
  obtain now w1 where now: "system_now H w = (now, w1)" by (meson surj_pair)
  with assms(1) have "system_time_ok now" by (rule clocks_typedD)
  then show ?thesis using park_ok [OF assms(1), of now now tr t] assms(2) now by (simp add: first_tick_def)
qed

lemma loop_reach_tick_ok:
  assumes "loop_reach H C B g h st st'" "clocks_typed H C" "system_time_ok (ls_tick st)"
  shows "system_time_ok (ls_tick st')"
  using assms
proof induction
  case (reach_step st st1 st2)
  from reach_step.hyps(1) have "system_time_ok (ls_tick st1)"
  proof (cases rule: loop_body_Continue)
    case (fired w self w1 completed w2 t)
    have now: "system_time_ok completed" using reach_step.prems(1) fired(2) by (rule clocks_typedD)
    then have "system_time_ok t"
      using park_ok [OF reach_step.prems, of completed _ t] fired(3) by (simp add: next_tick_or_park_def)
    with now fired(5) show ?thesis by (simp add: max_def)
  qed (use reach_step.prems in simp)
  with reach_step show ?case by blast
qed

lemma std_instant_at_ok:
  assumes "clocks_typed H C"
  shows "system_time_ok (fst (std_instant_at H moment w))"
proof -
  obtain now w1 where now: "system_now H w = (now, w1)" by (meson surj_pair)
  obtain i w2 where i: "instant_now H w1 = (i, w2)" by (meson surj_pair)
  with assms have "system_time_ok i" by (rule clocks_typedD)
  with now i show ?thesis
    by (auto simp: std_instant_at_def instant_checked_add_def instant_checked_sub_def system_time_ok_def
        split: sum.splits option.splits if_splits)
qed

section \<open>Properties\<close>

text \<open>
  C9: The report of a job's run tells what happened. If the loop of a freshly registered
  job returns, its summary is the function of the fires it made: one at the start iff
  \<open>fire_at_start\<close>, those of the loop, and one last iff \<open>drain_pass\<close>; the counters, the
  degraded flag and the last error are those of that history.
\<close>

theorem run_loop_report:
  assumes "run_loop H C B self g holder seed w = Some (Inr sm, self', w')"
    and "rstats self = stats_default"
  shows "\<exists>starting looping draining. length starting = of_bool (fire_at_start (spec self)) \<and>
    length draining = of_bool (drain_pass (spec self)) \<and>
    fire_history B g holder self (starting @ looping @ draining) self' \<and>
    sm = summary (self\<lparr>rstats := stats_of (failure_budget (spec self)) (starting @ looping @ draining)\<rparr>)"
proof (cases rule: run_loop_returned [OF assms(1)])
  case (1 w0 u1 self1 w1 tick w2 st0 u2 st u3)
  obtain hs1 where hs1: "length hs1 = of_bool (fire_at_start (spec self))" "fire_history B g holder self hs1 self1"
    using fire_if_history [OF 1(1)] by blast
  obtain hs2 where hs2: "fire_history B g holder self1 hs2 (ls_runner st)"
    using job_loop_history [OF 1(5)] 1(3) by auto
  obtain hs3 where hs3: "length hs3 = of_bool (drain_pass (spec (ls_runner st)))"
      "fire_history B g holder (ls_runner st) hs3 self'"
    using fire_if_history [OF 1(6)] by blast
  have all: "fire_history B g holder self (hs1 @ hs2 @ hs3) self'"
    using fire_history_append [OF hs3(2) fire_history_append [OF hs2 hs1(2)]] by simp
  have "spec (ls_runner st) = spec self"
    using fire_history_append [OF hs2 hs1(2), THEN fire_history_frame] by (rule wiring_spec)
  moreover have "spec self' = spec self" using fire_history_frame [OF all] by (rule wiring_spec)
  ultimately show ?thesis
    using hs1(1) hs3(1) all fire_history_stats [OF all assms(2)] 1(7)
    by (intro exI [of _ hs1] exI [of _ hs2] exI [of _ hs3]) (simp add: summary_def)
qed

theorem run_loop_report_witness:
  "let self = demo_runner\<lparr>spec := demo_spec\<lparr>drain_pass := True\<rparr>\<rparr>
   in \<exists>sm self' w'. run_loop demo_host empty_cron mini_breaker self () [] 7 3000000 = Some (Inr sm, self', w') \<and>
     (\<exists>starting looping draining. length starting = of_bool (fire_at_start (spec self)) \<and>
       length draining = of_bool (drain_pass (spec self)) \<and>
       fire_history mini_breaker () [] self (starting @ looping @ draining) self' \<and>
       sm = summary (self\<lparr>rstats := stats_of (failure_budget (spec self)) (starting @ looping @ draining)\<rparr>))"
proof -
  let ?self = "demo_runner\<lparr>spec := demo_spec\<lparr>drain_pass := True\<rparr>\<rparr>"
  let ?st = "\<lambda>rng. \<lparr>ls_tick = 4000000, ls_rng = rng, ls_runner = ?self, ls_world = 3000000\<rparr>"
  have "planned_fire demo_host (runner_jitter ?self) 4000000 rng 3000000 = (Inr (4000000, rng), 3000000)" for rng
    by (rule planned_fire_no_jitter [where now = 3000000]) (simp_all add: demo_host_sel demo_runner_sel time_limit_def)
  then have "loop_body demo_host empty_cron mini_breaker () [] (?st rng) = Break (?st rng)" for rng
    by (subst loop_body_def) (simp add: demo_host_sel std_instant_at_def)
  then have loop: "job_loop demo_host empty_cron mini_breaker () [] (?st rng) = Some (Inr (), ?st rng)" for rng
    by (subst job_loop.simps) simp
  have "first_tick demo_host empty_cron (Interval 0) 3000000 = (Inr 4000000, 3000000)"
    by (simp add: first_tick_def demo_host_sel system_time_add_def time_limit_def min_interval_eq)
  moreover have "fst (fire mini_breaker () [] ?self 3000000) = Inr ()"
    by (rule fire_contained [OF _ _ mini_breaker_laws(2)]) (auto simp: demo_defs split: if_splits)
  ultimately have "\<exists>sm self' w'. run_loop demo_host empty_cron mini_breaker ?self () [] 7 3000000 = Some (Inr sm, self', w')"
    using loop by (auto simp: run_loop_def worker_rng_def demo_host_sel fire_if_def demo_runner_sel
        demo_spec_def job_spec_new_def split: prod.splits)
  then obtain sm self' w' where run: "run_loop demo_host empty_cron mini_breaker ?self () [] 7 3000000 = Some (Inr sm, self', w')"
    by blast
  moreover have "rstats ?self = stats_default" by (simp add: demo_runner_sel)
  ultimately show ?thesis
    using run_loop_report [OF run] unfolding Let_def by blast
qed

text \<open>
  C10: The loop stops when shutdown comes. If every wait either reports the shutdown or uses
  up one of a finite number of pending wakes (ticks, spurious changes), and neither the
  clocks nor the fires add any, the run of the job returns.
\<close>

theorem run_loop_returns:
  assumes "shutdown_coming H pending"
    and "\<And>r w. wiring r = wiring self \<Longrightarrow> pending (snd (snd (fire B g holder r w))) \<le> pending w"
  shows "\<exists>r. run_loop H C B self g holder seed w = Some r"
proof -
  obtain rng w0 where w0: "worker_rng H (spec_name (spec self)) seed w = (rng, w0)" by (meson surj_pair)
  obtain r1 self1 w1 where f1: "fire_if (fire_at_start (spec self)) B g holder self w0 = (r1, self1, w1)"
    by (metis prod_cases3)
  obtain r2 w2 where f2: "first_tick H C (spec_trigger (spec self1)) w1 = (r2, w2)" by (meson surj_pair)
  have "wiring self1 = wiring self" using f1 by (auto simp: fire_if_def fire_frame split: if_splits)
  then have "\<exists>y. job_loop H C B g holder
      \<lparr>ls_tick = t, ls_rng = rng, ls_runner = self1, ls_world = w2\<rparr> = Some y" for t
    by (intro job_loop_returns [OF assms(1)]) (use assms(2) in simp)
  with w0 f1 f2 show ?thesis
    by (cases r1; cases r2) (auto simp: run_loop_def Let_def split: prod.splits sum.splits option.splits)
qed

theorem run_loop_returns_witness:
  "\<exists>r. run_loop demo_host empty_cron mini_breaker still_runner () [] 7 (0::nat) = Some r"
  by (rule run_loop_returns [where pending = "\<lambda>w. 3000000 - w", OF demo_shutdown_coming])
    (simp add: still_runner_fire)

text \<open>
  C7: Fires never pile up. Whatever the jobs' run times, spurious wakes and clock readings,
  after \<open>n\<close> fires of an interval job the loop's tick is at least \<open>n\<close> clamped intervals past
  the one it started from: a backlog is coalesced, not worked off.
\<close>

theorem fire_rate_bound:
  assumes "loop_reach H C B g h st st'" and "spec_trigger (spec (ls_runner st)) = Interval i"
  shows "\<exists>hs. fire_history B g h (ls_runner st) hs (ls_runner st') \<and>
    ls_tick st + int (length hs) * max (int i) 1000000 \<le> ls_tick st'"
  using assms
proof induction
  case (reach_refl st)
  show ?case by (rule exI [of _ "[]"]) (simp add: history_nil)
next
  case (reach_step st st1 st2)
  have sp: "spec (ls_runner st1) = spec (ls_runner st)"
    using loop_reach_wiring [OF reach_step.hyps(1) [THEN loop_reach.reach_step, OF reach_refl]]
    by (rule wiring_spec)
  then obtain hs where hs: "fire_history B g h (ls_runner st1) hs (ls_runner st2)"
      "ls_tick st1 + int (length hs) * max (int i) 1000000 \<le> ls_tick st2"
    using reach_step by auto
  from reach_step.hyps(1) show ?case
  proof (cases rule: loop_body_Continue)
    case spurious
    with hs show ?thesis by auto
  next
    case (fired w self w1 completed w2 t)
    then obtain obs where "fire_history B g h (ls_runner st) [obs] (ls_runner st1)"
      using fire_history_one by metis
    then have all: "fire_history B g h (ls_runner st) ([obs] @ hs) (ls_runner st2)"
      using fire_history_append [OF hs(1)] by blast
    have "ls_tick st + max (int i) 1000000 \<le> ls_tick st1"
      using fired(5) interval_next_tick [of C i "ls_tick st" completed t] fired(3) reach_step.prems by simp
    with hs(2) all show ?thesis by (intro exI [of _ "[obs] @ hs"]) (simp add: algebra_simps)
  qed
qed

theorem fire_rate_bound_witness:
  "let st = \<lparr>ls_tick = 1000000, ls_rng = split_mix64_new 0, ls_runner = demo_runner, ls_world = 0\<rparr>
   in \<exists>st'. st' \<noteq> st \<and> (\<exists>hs. fire_history mini_breaker () [] (ls_runner st) hs (ls_runner st') \<and>
        ls_tick st + int (length hs) * max (int 0) 1000000 \<le> ls_tick st')"
proof -
  let ?st = "\<lparr>ls_tick = 1000000, ls_rng = split_mix64_new 0, ls_runner = demo_runner, ls_world = 0\<rparr>"
  let ?f = "fire mini_breaker () [] demo_runner 1000000"
  let ?st' = "?st\<lparr>ls_runner := fst (snd ?f), ls_world := 1000001, ls_tick := 2000000\<rparr>"
  have f: "?f = (Inr (), fst (snd ?f), 1000001)"
    using demo_first_fire [of 1000000] by (simp add: prod_eq_iff)
  have sp: "spec_trigger (spec (fst (snd ?f))) = Interval 0"
    using fire_frame [OF f] demo_runner_sel by (simp add: wiring_def)
  have "planned_fire demo_host (runner_jitter demo_runner) 1000000 (split_mix64_new 0) 0 =
      (Inr (1000000, split_mix64_new 0), 0)"
    by (rule planned_fire_no_jitter [where now = 0]) (simp_all add: demo_host_def demo_runner_sel time_limit_def)
  then have "loop_body demo_host empty_cron mini_breaker () [] ?st = Continue ?st'"
    by (subst loop_body_def, subst fire_and_reschedule_def)
      (simp add: demo_host_sel std_instant_at_def duration_since_def instant_checked_add_def
        time_limit_def, subst f, simp add: sp demo_next_tick time_limit_def demo_host_sel)
  then have "loop_reach demo_host empty_cron mini_breaker () [] ?st ?st'"
    by (rule reach_step) (rule reach_refl)
  from fire_rate_bound [OF this, of 0] show ?thesis
    unfolding Let_def by (intro exI [of _ ?st']) (simp add: demo_runner_sel)
qed

text \<open>
  C19: Nothing fires early. On a host with steady clocks, when the timer wakes the loop for
  a tick, the wall clock has passed the planned moment, which is not before the tick and
  at most the remaining gap after it.
\<close>

theorem never_fires_early:
  assumes "steady_host H time offset"
    and "planned_fire H policy tick rng w = (Inr (fire_at, rng'), w1)" "fire_at < 2 ^ 62 * 1000000000"
    and "std_instant_at H fire_at w1 = (deadline, w2)" "select_wait H deadline w2 = (Elapsed, w3)"
  shows "tick \<le> fire_at \<and> fire_at \<le> time w3 \<and>
    fire_at \<le> tick + max 0 (tick - fst (system_now H w))"
  using std_instant_at_not_early [OF assms(1,3,4), of "time w3"] steady_hostD(6) [OF assms(1,5)]
    planned_fire_range [OF assms(2)] by simp

theorem never_fires_early_witness:
  "select_wait tiny_host 5 0 = (Elapsed, 5) \<and>
   (5::int) \<le> 5 \<and> 5 \<le> int (min 5 1000) \<and> 5 \<le> 5 + max 0 (5 - fst (system_now tiny_host 0))"
proof -
  have plan: "planned_fire tiny_host \<lparr>fraction = Fin 0\<rparr> 5 (split_mix64_new 0) 0 = (Inr (5, split_mix64_new 0), 0)"
    by (rule planned_fire_no_jitter [where now = 0]) (simp_all add: tiny_host_def time_limit_def)
  have deadline: "std_instant_at tiny_host 5 0 = (5, 0)"
    by (simp add: tiny_host_def std_instant_at_def duration_since_def instant_checked_add_def time_limit_def)
  have wake: "select_wait tiny_host 5 0 = (Elapsed, 5)" by (simp add: tiny_host_def)
  from never_fires_early [OF tiny_host_steady plan _ deadline wake] wake show ?thesis by simp
qed

text \<open>
  C18: Coalescing. When a fire outlasts its gap, so that the schedule's next tick is not
  after the completion time, the loop re-anchors to the completion time and plans the next
  fire for that very moment, without jitter, provided the clock does not run backwards and
  the policy's fraction is in [0, 1]; otherwise the next tick is the schedule's.
\<close>

theorem overrun_coalesces:
  assumes "fire B g h (ls_runner st) (ls_world st) = (Inr (), self, w)"
    and "system_now H w = (completed, w1)" "system_now H w1 = (now, w2)" "completed \<le> now"
    and "next_tick_or_park C (spec_trigger (spec (ls_runner st))) (ls_tick st) completed = Inr t"
    and "completed < time_limit" "fraction (runner_jitter (ls_runner st)) = Fin f" "0 \<le> f" "f \<le> 1"
  shows "fire_and_reschedule H C B g h st =
      Continue (st\<lparr>ls_runner := self, ls_world := w1, ls_tick := max completed t\<rparr>) \<and>
    (if t \<le> completed
     then planned_fire H (runner_jitter self) (max completed t) (ls_rng st) w1 = (Inr (completed, ls_rng st), w2)
     else max completed t = t)"
proof -
  have w: "wiring self = wiring (ls_runner st)" by (rule fire_frame [OF assms(1)])
  then have sp: "spec self = spec (ls_runner st)" and j: "runner_jitter self = runner_jitter (ls_runner st)"
    by (simp_all add: wiring_def)
  have "planned_fire H (runner_jitter self) completed (ls_rng st) w1 = (Inr (completed, ls_rng st), w2)"
    using assms(3,4,6) assms(7-9) [folded j] by (rule planned_fire_no_gap)
  with assms(1,2,5) sp show ?thesis
    by (auto simp: fire_and_reschedule_def max_def)
qed

theorem overrun_coalesces_witness:
  "let st = \<lparr>ls_tick = 1000000, ls_rng = split_mix64_new 0, ls_runner = demo_runner, ls_world = 5000000\<rparr>;
       self = fst (snd (fire mini_breaker () [] demo_runner 5000000))
   in fire_and_reschedule demo_host empty_cron mini_breaker () [] st =
        Continue (st\<lparr>ls_runner := self, ls_world := 5000001, ls_tick := max 5000001 2000000\<rparr>) \<and>
      (if 2000000 \<le> (5000001::int)
       then planned_fire demo_host (runner_jitter self) (max 5000001 2000000) (ls_rng st) 5000001 =
         (Inr (5000001, ls_rng st), 5000001)
       else max 5000001 2000000 = (2000000::int))"
  unfolding Let_def
proof (rule overrun_coalesces [where f = 0 and w = 5000001 and now = 5000001])
  let ?st = "\<lparr>ls_tick = 1000000, ls_rng = split_mix64_new 0, ls_runner = demo_runner, ls_world = 5000000\<rparr>"
  show "fire mini_breaker () [] (ls_runner ?st) (ls_world ?st) =
      (Inr (), fst (snd (fire mini_breaker () [] demo_runner 5000000)), 5000001)"
    using demo_first_fire [of 5000000] by (simp add: prod_eq_iff)
qed (simp_all add: demo_host_sel demo_runner_sel demo_next_tick time_limit_def)

text \<open>
  C38: An exhausted schedule keeps firing. When a cron trigger has no tick left, the loop
  does not only park and look again: the moment 60 s after the completion becomes the
  next tick, so after every park the closure runs.
\<close>

theorem exhausted_schedule_fires:
  assumes "next_fire_after C (spec_trigger (spec (ls_runner st))) (ls_tick st) = Inr None"
    and "planned_fire H (runner_jitter (ls_runner st)) (ls_tick st) (ls_rng st) (ls_world st) = (Inr (fire_at, rng), w)"
    and "std_instant_at H fire_at w = (deadline, w1)" "select_wait H deadline w1 = (Elapsed, w2)"
    and "fire B g h (ls_runner st) w2 = (Inr (), self, w3)" "system_now H w3 = (completed, w4)"
    and "completed + 60000000000 < time_limit"
  shows "loop_body H C B g h st =
    Continue (st\<lparr>ls_rng := rng, ls_runner := self, ls_world := w4, ls_tick := completed + 60000000000\<rparr>)"
proof -
  have "spec self = spec (ls_runner st)" using fire_frame [OF assms(5)] by (rule wiring_spec)
  moreover have "next_tick_or_park C (spec_trigger (spec (ls_runner st))) (ls_tick st) completed =
      Inr (completed + 60000000000)"
    using assms(1,7) by (simp add: next_tick_or_park_def schedule_park_def from_secs_def
        nanos_per_sec_def system_time_add_def)
  ultimately show ?thesis
    using assms(2-6) by (simp add: loop_body_def fire_and_reschedule_def)
qed

theorem exhausted_schedule_fires_witness:
  "let r = demo_runner\<lparr>spec := demo_spec\<lparr>spec_trigger := Cron []\<rparr>\<rparr>;
       st = \<lparr>ls_tick = 1000000, ls_rng = split_mix64_new 0, ls_runner = r, ls_world = 0\<rparr>;
       self = fst (snd (fire mini_breaker () [] r 1000000))
   in loop_body demo_host empty_cron mini_breaker () [] st =
     Continue (st\<lparr>ls_rng := split_mix64_new 0, ls_runner := self, ls_world := 1000001, ls_tick := 1000001 + 60000000000\<rparr>)"
  unfolding Let_def
proof (rule exhausted_schedule_fires [where fire_at = 1000000 and w = 0 and ?w1.0 = 0 and deadline = 1000000
      and ?w2.0 = 1000000 and ?w3.0 = 1000001 and completed = 1000001])
  let ?r = "demo_runner\<lparr>spec := demo_spec\<lparr>spec_trigger := Cron []\<rparr>\<rparr>"
  let ?st = "\<lparr>ls_tick = 1000000, ls_rng = split_mix64_new 0, ls_runner = ?r, ls_world = 0\<rparr>"
  show "planned_fire demo_host (runner_jitter (ls_runner ?st)) (ls_tick ?st) (ls_rng ?st) (ls_world ?st) =
      (Inr (1000000, split_mix64_new 0), 0)"
    by simp (rule planned_fire_no_jitter [where now = 0], simp_all add: demo_host_sel demo_runner_sel time_limit_def)
  show "fire mini_breaker () [] (ls_runner ?st) 1000000 = (Inr (), fst (snd (fire mini_breaker () [] ?r 1000000)), 1000001)"
    by (simp add: demo_defs fire_defs)
qed (simp_all add: empty_cron_def demo_host_sel std_instant_at_def duration_since_def instant_checked_add_def time_limit_def)

text \<open>
  C39: A huge interval passes validation and panics at the start. Every interval is accepted
  at registration; if the first tick would lie past the last representable time, the run of
  the job panics before its first wait (after the fire at start, if any).
\<close>

theorem huge_interval_panics:
  assumes "\<not> fire_at_start (spec self)" "spec_trigger (spec self) = Interval i"
    and "build_hash H (spec_name (spec self)) w = (nh, w0)" "system_now H w0 = (now, w1)"
    and "time_limit \<le> now + int i"
  shows "validate C (spec_trigger (spec self)) = Inr () \<and>
    run_loop H C B self g holder seed w = Some (Inl Time_overflow, self, w1)"
proof -
  have "next_fire_after C (Interval i) now = Inl Time_overflow"
    using assms(5) by (simp only: next_fire_after_interval_Inl) simp
  with assms(1-4) show ?thesis
    by (simp add: run_loop_def worker_rng_def fire_if_def first_tick_def del: next_fire_after.simps)
qed

theorem huge_interval_panics_witness:
  "let i = 2 ^ 63 * 1000000000; self = demo_runner\<lparr>spec := demo_spec\<lparr>spec_trigger := Interval i\<rparr>\<rparr>
   in validate empty_cron (spec_trigger (spec self)) = Inr () \<and>
      run_loop demo_host empty_cron mini_breaker self () [] 7 (0::nat) = Some (Inl Time_overflow, self, 0)"
  unfolding Let_def
  by (rule huge_interval_panics [where i = "2 ^ 63 * 1000000000" and now = 0 and nh = 0 and ?w0.0 = 0])
    (simp_all add: demo_spec_def job_spec_new_def demo_host_sel time_limit_def)

text \<open>
  Seeded runs are not reproducible. The generator of a worker starts from the
  supervisor's seed XOR a hash with fresh random keys; for one seed and one job, two runs
  whose hashes differ draw different first values.
\<close>

lemma seed_not_reproducible:
  "fst (split_mix64_next_u64 (fst (worker_rng H name seed w))) =
   fst (split_mix64_next_u64 (fst (worker_rng H name seed w'))) \<longleftrightarrow>
     fst (build_hash H name w) = fst (build_hash H name w')"
proof -
  have "seed XOR h1 = seed XOR h2 \<longleftrightarrow> h1 = h2" for h1 h2 :: u64 by (metis bit.xor_left_self)
  then show ?thesis
    by (simp add: worker_rng_def split_beta mix64_eq [symmetric] inj_eq [OF inj_mix64])
qed



end
