(* ===== verification/Supervisor.thy ===== *)
theory Supervisor
  imports Run_Loop "HOL-Library.Multiset"
begin

text \<open>
  \<open>src/supervisor.rs\<close>: the worker supervisor, its configuration and registration, the status
  views, and \<open>run\<close>: spawn one loop per job, wait for shutdown, drain up to the cap, report.

  The builder methods and \<open>register\<close> take \<open>&mut self\<close>: each definition returns the updated
  supervisor. A \<open>BTreeMap\<close> is a finite map. \<open>run\<close> is a step relation: the spawned loops
  interleave round by round on one shared world, the environment may change the world at
  any time between rounds, and the drain joins finished loops in any order or gives up at the
  cap. \<open>CircuitBreakerConfig::standard()\<close> of the breaker crate is an argument of \<open>new\<close>.
\<close>

section \<open>Data\<close>

definition default_drain_cap :: duration where
  "default_drain_cap = from_secs 30"

record run_report =
  per_job :: "job_run_summary list"

record ('w, 'g, 'b, 'cfg) worker_supervisor =
  sv_shutdown :: 'g
  sv_jitter :: jitter_policy
  sv_seed :: "u64 option"
  sv_drain_cap :: duration
  sv_holder :: ustr
  runners :: "('w, 'g, 'b) job_runner list"
  sv_breaker_config :: 'cfg
  sv_lease :: "'w lease option"
  sv_lease_ttl :: duration

section \<open>Construction and configuration\<close>

definition holder_id :: "system_time \<Rightarrow> ustr" where
  "holder_id now = lit ''worker-kit-'' @ decimal (unat (clock_seed now))"

definition worker_supervisor_new ::
    "'cfg \<Rightarrow> system_time \<Rightarrow> 'g \<Rightarrow> ('w, 'g, 'b, 'cfg) worker_supervisor" where
  "worker_supervisor_new default_breaker_config now shutdown =
     \<lparr>sv_shutdown = shutdown, sv_jitter = jitter_policy_default, sv_seed = None,
      sv_drain_cap = default_drain_cap, sv_holder = holder_id now, runners = [],
      sv_breaker_config = default_breaker_config, sv_lease = None,
      sv_lease_ttl = default_lease_ttl\<rparr>"

definition set_seed :: "u64 \<Rightarrow> ('w, 'g, 'b, 'cfg) worker_supervisor \<Rightarrow> ('w, 'g, 'b, 'cfg) worker_supervisor" where
  "set_seed seed self = self\<lparr>sv_seed := Some seed\<rparr>"

definition set_jitter :: "jitter_policy \<Rightarrow> ('w, 'g, 'b, 'cfg) worker_supervisor \<Rightarrow> ('w, 'g, 'b, 'cfg) worker_supervisor" where
  "set_jitter policy self = self\<lparr>sv_jitter := policy\<rparr>"

definition set_drain_cap :: "duration \<Rightarrow> ('w, 'g, 'b, 'cfg) worker_supervisor \<Rightarrow> ('w, 'g, 'b, 'cfg) worker_supervisor" where
  "set_drain_cap cap self = self\<lparr>sv_drain_cap := cap\<rparr>"

definition set_breaker_config :: "'cfg \<Rightarrow> ('w, 'g, 'b, 'cfg) worker_supervisor \<Rightarrow> ('w, 'g, 'b, 'cfg) worker_supervisor" where
  "set_breaker_config config self = self\<lparr>sv_breaker_config := config\<rparr>"

definition set_lease :: "'w lease \<Rightarrow> ('w, 'g, 'b, 'cfg) worker_supervisor \<Rightarrow> ('w, 'g, 'b, 'cfg) worker_supervisor" where
  "set_lease l self = self\<lparr>sv_lease := Some l\<rparr>"

definition set_lease_ttl :: "duration \<Rightarrow> ('w, 'g, 'b, 'cfg) worker_supervisor \<Rightarrow> ('w, 'g, 'b, 'cfg) worker_supervisor" where
  "set_lease_ttl ttl self = self\<lparr>sv_lease_ttl := ttl\<rparr>"

section \<open>Registration\<close>

definition register ::
    "('w, 'b, 'cfg, 'm) breaker_crate \<Rightarrow> ('sch, 'dt, 'e) cron_crate \<Rightarrow> ('w, 'g) job_spec \<Rightarrow>
     ('w, 'g, 'b, 'cfg) worker_supervisor \<Rightarrow>
     ('e register_error + unit) \<times> ('w, 'g, 'b, 'cfg) worker_supervisor" where
  "register B C s self =
     (if \<not> is_valid_name (spec_name s) then (Inl (InvalidName (spec_name s)), self)
      else case validate C (spec_trigger s) of
          Inl e \<Rightarrow> (Inl e, self)
        | Inr _ \<Rightarrow>
            let runner = job_runner_new s (sv_jitter self);
                runner = (if use_breaker s then with_breaker B (sv_breaker_config self) runner else runner);
                runner = with_lease (sv_lease self) (sv_lease_ttl self) runner
            in (Inr (), self\<lparr>runners := runners self @ [runner]\<rparr>))"

section \<open>Views\<close>

definition shutdown_handle :: "('w, 'g, 'b, 'cfg) worker_supervisor \<Rightarrow> 'g" where
  "shutdown_handle self = sv_shutdown self"

definition supervisor_status :: "('w, 'g, 'b, 'cfg) worker_supervisor \<Rightarrow> job_status list" where
  "supervisor_status self = sort_key js_name (map status (runners self))"

definition breaker_state ::
    "('w, 'b, 'cfg, 'm) breaker_crate \<Rightarrow> ('w, 'g, 'b, 'cfg) worker_supervisor \<Rightarrow> ustr \<Rightarrow> 'w \<Rightarrow> cb_state option" where
  "breaker_state B self name w =
     (case find (\<lambda>r. runner_name r = name) (runners self) of
        None \<Rightarrow> None
      | Some r \<Rightarrow> runner_breaker_state B r w)"

definition breaker_metrics ::
    "('w, 'b, 'cfg, 'm) breaker_crate \<Rightarrow> ('w, 'g, 'b, 'cfg) worker_supervisor \<Rightarrow> ustr \<Rightarrow> 'm option" where
  "breaker_metrics B self =
     foldl (\<lambda>m (name, metrics). m(name \<mapsto> metrics)) Map.empty
       (List.map_filter (\<lambda>(name, metrics). map_option (Pair name) metrics)
         (map (\<lambda>r. (runner_name r, runner_breaker_metrics B r)) (runners self)))"

section \<open>The run\<close>

text \<open>
  A spawned loop: not started yet (with its seed), at the head of its loop, returned, or
  ended by a panic (a \<open>JoinError\<close> for the drain).
\<close>

datatype task = Spawned u64 | Looping system_time split_mix64 | Returned job_run_summary | Crashed

datatype phase = Serving | Draining | Reported run_report

record ('w, 'g, 'b) run_state =
  rn_runners :: "('w, 'g, 'b) job_runner list"
  rn_tasks :: "task list"
  rn_slots :: "job_run_summary option list"
  rn_loops :: "nat set"
  rn_phase :: phase
  rn_world :: 'w

text \<open>The seed of each spawned loop: the configured one, or the clock read anew for each.\<close>

fun spawn_seeds ::
    "'w host \<Rightarrow> ('w, 'g, 'b, 'cfg) worker_supervisor \<Rightarrow> ('w, 'g, 'b) job_runner list \<Rightarrow> 'w \<Rightarrow> task list \<times> 'w" where
  "spawn_seeds H self [] w = ([], w)"
| "spawn_seeds H self (r # rs) w =
     (let (seed, w1) = (case sv_seed self of
              Some s \<Rightarrow> (s, w)
            | None \<Rightarrow> (case system_now H w of (now, w1) \<Rightarrow> (clock_seed now, w1)));
          (ts, w2) = spawn_seeds H self rs w1
      in (Spawned seed # ts, w2))"

definition run_start ::
    "'w host \<Rightarrow> ('w, 'g, 'b, 'cfg) worker_supervisor \<Rightarrow> 'w \<Rightarrow> ('w, 'g, 'b) run_state" where
  "run_start H self w =
     (case spawn_seeds H self (runners self) w of
        (ts, w') \<Rightarrow>
          \<lparr>rn_runners = runners self, rn_tasks = ts,
           rn_slots = map (\<lambda>_. None) [0..<length (runners self)],
           rn_loops = {0..<length (runners self)}, rn_phase = Serving, rn_world = w'\<rparr>)"

text \<open>One scheduling quantum of a loop: its start up to the first wait, or one round.\<close>

definition task_start ::
    "'w host \<Rightarrow> ('sch, 'dt, 'e) cron_crate \<Rightarrow> ('w, 'b, 'cfg, 'm) breaker_crate \<Rightarrow> 'g \<Rightarrow> ustr \<Rightarrow> u64 \<Rightarrow>
     ('w, 'g, 'b) job_runner \<Rightarrow> 'w \<Rightarrow> task \<times> ('w, 'g, 'b) job_runner \<times> 'w" where
  "task_start H C B shutdown holder seed self w =
     (case worker_rng H (spec_name (spec self)) seed w of
        (rng, w0) \<Rightarrow>
          (case fire_if (fire_at_start (spec self)) B shutdown holder self w0 of
             (Inl p, self1, w1) \<Rightarrow> (Crashed, self1, w1)
           | (Inr _, self1, w1) \<Rightarrow>
               (case first_tick H C (spec_trigger (spec self1)) w1 of
                  (Inl p, w2) \<Rightarrow> (Crashed, self1, w2)
                | (Inr tick, w2) \<Rightarrow> (Looping tick rng, self1, w2))))"

definition task_round ::
    "'w host \<Rightarrow> ('sch, 'dt, 'e) cron_crate \<Rightarrow> ('w, 'b, 'cfg, 'm) breaker_crate \<Rightarrow> 'g \<Rightarrow> ustr \<Rightarrow>
     system_time \<Rightarrow> split_mix64 \<Rightarrow> ('w, 'g, 'b) job_runner \<Rightarrow> 'w \<Rightarrow> task \<times> ('w, 'g, 'b) job_runner \<times> 'w" where
  "task_round H C B shutdown holder tick rng self w =
     (case loop_body H C B shutdown holder \<lparr>ls_tick = tick, ls_rng = rng, ls_runner = self, ls_world = w\<rparr> of
        Continue st \<Rightarrow> (Looping (ls_tick st) (ls_rng st), ls_runner st, ls_world st)
      | Panic p st \<Rightarrow> (Crashed, ls_runner st, ls_world st)
      | Break st \<Rightarrow>
          (case fire_if (drain_pass (spec (ls_runner st))) B shutdown holder (ls_runner st) (ls_world st) of
             (Inl p, self', w') \<Rightarrow> (Crashed, self', w')
           | (Inr _, self', w') \<Rightarrow> (Returned (summary self'), self', w')))"

fun task_quantum ::
    "'w host \<Rightarrow> ('sch, 'dt, 'e) cron_crate \<Rightarrow> ('w, 'b, 'cfg, 'm) breaker_crate \<Rightarrow> 'g \<Rightarrow> ustr \<Rightarrow> task \<Rightarrow>
     ('w, 'g, 'b) job_runner \<Rightarrow> 'w \<Rightarrow> task \<times> ('w, 'g, 'b) job_runner \<times> 'w" where
  "task_quantum H C B shutdown holder (Spawned seed) self w = task_start H C B shutdown holder seed self w"
| "task_quantum H C B shutdown holder (Looping tick rng) self w = task_round H C B shutdown holder tick rng self w"
| "task_quantum H C B shutdown holder (Returned s) self w = (Returned s, self, w)"
| "task_quantum H C B shutdown holder Crashed self w = (Crashed, self, w)"

text \<open>One \<open>join_next\<close>: a returned loop fills its slot, a crashed one fills none.\<close>

fun join_one :: "nat \<Rightarrow> task \<Rightarrow> job_run_summary option list \<Rightarrow> job_run_summary option list" where
  "join_one i (Returned s) slots = (if i < length slots then slots[i := Some s] else slots)"
| "join_one i _ slots = slots"

text \<open>The report: missing slots are read from the live statistics, then sorted by name.\<close>

definition fill_slots ::
    "('w, 'g, 'b) job_runner list \<Rightarrow> job_run_summary option list \<Rightarrow> job_run_summary option list" where
  "fill_slots rs slots =
     map (\<lambda>(runner, slot). case slot of Some s \<Rightarrow> Some s | None \<Rightarrow> Some (summary runner)) (zip rs slots)"

definition make_report ::
    "('w, 'g, 'b) job_runner list \<Rightarrow> job_run_summary option list \<Rightarrow> run_report" where
  "make_report rs slots =
     \<lparr>per_job = sort_key rs_name (List.map_filter (\<lambda>s. s) (fill_slots rs slots))\<rparr>"

inductive run_step ::
    "'w host \<Rightarrow> ('sch, 'dt, 'e) cron_crate \<Rightarrow> ('w, 'b, 'cfg, 'm) breaker_crate \<Rightarrow> 'g \<Rightarrow> ustr \<Rightarrow>
     ('w, 'g, 'b) run_state \<Rightarrow> ('w, 'g, 'b) run_state \<Rightarrow> bool"
  for H C B g h where
  step_task: "i < length (rn_tasks s) \<Longrightarrow> (\<forall>rep. rn_phase s \<noteq> Reported rep) \<Longrightarrow>
    task_quantum H C B g h (rn_tasks s ! i) (rn_runners s ! i) (rn_world s) = (t, r, w) \<Longrightarrow>
    run_step H C B g h s (s\<lparr>rn_tasks := (rn_tasks s)[i := t], rn_runners := (rn_runners s)[i := r], rn_world := w\<rparr>)"
| step_env: "run_step H C B g h s (s\<lparr>rn_world := w\<rparr>)"
| step_shutdown: "rn_phase s = Serving \<Longrightarrow> run_step H C B g h s (s\<lparr>rn_phase := Draining\<rparr>)"
| step_join: "rn_phase s = Draining \<Longrightarrow> i \<in> rn_loops s \<Longrightarrow>
    rn_tasks s ! i = Crashed \<or> (\<exists>sm. rn_tasks s ! i = Returned sm) \<Longrightarrow>
    run_step H C B g h s
      (s\<lparr>rn_slots := join_one i (rn_tasks s ! i) (rn_slots s), rn_loops := rn_loops s - {i}\<rparr>)"
| step_drained: "rn_phase s = Draining \<Longrightarrow> rn_loops s = {} \<Longrightarrow>
    run_step H C B g h s (s\<lparr>rn_phase := Reported (make_report (rn_runners s) (rn_slots s))\<rparr>)"
| step_cap: "rn_phase s = Draining \<Longrightarrow>
    run_step H C B g h s (s\<lparr>rn_loops := {}, rn_phase := Reported (make_report (rn_runners s) (rn_slots s))\<rparr>)"

inductive run_reach ::
    "'w host \<Rightarrow> ('sch, 'dt, 'e) cron_crate \<Rightarrow> ('w, 'b, 'cfg, 'm) breaker_crate \<Rightarrow> 'g \<Rightarrow> ustr \<Rightarrow>
     ('w, 'g, 'b) run_state \<Rightarrow> ('w, 'g, 'b) run_state \<Rightarrow> bool"
  for H C B g h s0 where
  run_init: "run_reach H C B g h s0 s0"
| run_next: "run_reach H C B g h s0 s \<Longrightarrow> run_step H C B g h s s' \<Longrightarrow> run_reach H C B g h s0 s'"

text \<open>Scheduling alone: quanta of loops that have not ended, in any order.\<close>

fun unfinished :: "task \<Rightarrow> bool" where
  "unfinished (Spawned _) = True"
| "unfinished (Looping _ _) = True"
| "unfinished _ = False"

inductive quanta ::
    "'w host \<Rightarrow> ('sch, 'dt, 'e) cron_crate \<Rightarrow> ('w, 'b, 'cfg, 'm) breaker_crate \<Rightarrow> 'g \<Rightarrow> ustr \<Rightarrow>
     ('w, 'g, 'b) run_state \<Rightarrow> nat \<Rightarrow> ('w, 'g, 'b) run_state \<Rightarrow> bool"
  for H C B g h s where
  quanta_0: "quanta H C B g h s 0 s"
| quanta_Suc: "quanta H C B g h s n s1 \<Longrightarrow> i < length (rn_tasks s1) \<Longrightarrow> unfinished (rn_tasks s1 ! i) \<Longrightarrow>
    task_quantum H C B g h (rn_tasks s1 ! i) (rn_runners s1 ! i) (rn_world s1) = (t, r, w) \<Longrightarrow>
    quanta H C B g h s (Suc n)
      (s1\<lparr>rn_tasks := (rn_tasks s1)[i := t], rn_runners := (rn_runners s1)[i := r], rn_world := w\<rparr>)"

fun task_weight :: "task \<Rightarrow> nat" where
  "task_weight (Spawned _) = 2"
| "task_weight (Looping _ _) = 1"
| "task_weight _ = 0"

section \<open>Specification\<close>

text \<open>Configuration as a sequence of operations.\<close>

datatype ('w, 'g, 'cfg) config_op =
    Seed u64
  | Jitter jitter_policy
  | Drain_cap duration
  | Breaker_config 'cfg
  | Set_lease "'w lease"
  | Lease_ttl duration
  | Register "('w, 'g) job_spec"

fun apply_op ::
    "('w, 'b, 'cfg, 'm) breaker_crate \<Rightarrow> ('sch, 'dt, 'e) cron_crate \<Rightarrow> ('w, 'g, 'cfg) config_op \<Rightarrow>
     ('w, 'g, 'b, 'cfg) worker_supervisor \<Rightarrow> ('w, 'g, 'b, 'cfg) worker_supervisor" where
  "apply_op B C (Seed x) self = set_seed x self"
| "apply_op B C (Jitter x) self = set_jitter x self"
| "apply_op B C (Drain_cap x) self = set_drain_cap x self"
| "apply_op B C (Breaker_config x) self = set_breaker_config x self"
| "apply_op B C (Set_lease x) self = set_lease x self"
| "apply_op B C (Lease_ttl x) self = set_lease_ttl x self"
| "apply_op B C (Register x) self = snd (register B C x self)"

definition configured ::
    "('w, 'b, 'cfg, 'm) breaker_crate \<Rightarrow> ('sch, 'dt, 'e) cron_crate \<Rightarrow> ('w, 'g, 'cfg) config_op list \<Rightarrow>
     ('w, 'g, 'b, 'cfg) worker_supervisor \<Rightarrow> ('w, 'g, 'b, 'cfg) worker_supervisor" where
  "configured B C ops self = fold (apply_op B C) ops self"

text \<open>The jobs a sequence of operations registers, in order: valid name, parseable trigger.\<close>

definition acceptable :: "('sch, 'dt, 'e) cron_crate \<Rightarrow> ('w, 'g) job_spec \<Rightarrow> bool" where
  "acceptable C s \<longleftrightarrow> is_valid_name (spec_name s) \<and> validate C (spec_trigger s) = Inr ()"

fun registered :: "('sch, 'dt, 'e) cron_crate \<Rightarrow> ('w, 'g, 'cfg) config_op list \<Rightarrow> ('w, 'g) job_spec list" where
  "registered C [] = []"
| "registered C (Register s # ops) = (if acceptable C s then s # registered C ops else registered C ops)"
| "registered C (_ # ops) = registered C ops"

text \<open>A runner as \<open>register\<close> leaves it.\<close>

definition fresh_runner :: "('w, 'b, 'cfg, 'm) breaker_crate \<Rightarrow> ('w, 'g, 'b) job_runner \<Rightarrow> bool" where
  "fresh_runner B r \<longleftrightarrow> rstats r = stats_default \<and> \<not> leader_held r \<and>
     (if use_breaker (spec r) then \<exists>cfg. breaker r = Some (cb_new B cfg) else breaker r = None)"

text \<open>A supervisor for concrete runs: two jobs, registered out of order.\<close>

definition demo_ops :: "(nat, unit, nat) config_op list" where
  "demo_ops =
     [Seed 7, Jitter \<lparr>fraction = Fin 0\<rparr>, Register demo_spec, Register (demo_spec\<lparr>spec_name := []\<rparr>),
      Lease_ttl 5, Register (demo_spec\<lparr>spec_name := lit ''gc''\<rparr>)]"

definition demo_supervisor :: "(nat, unit, nat \<times> nat, nat) worker_supervisor" where
  "demo_supervisor = configured mini_breaker empty_cron demo_ops (worker_supervisor_new 5 0 ())"

text \<open>What holds of every state of a run that started with the runners \<open>rs0\<close>.\<close>

definition run_inv :: "('w, 'g, 'b) job_runner list \<Rightarrow> ('w, 'g, 'b) run_state \<Rightarrow> bool" where
  "run_inv rs0 s \<longleftrightarrow> map wiring (rn_runners s) = map wiring rs0 \<and>
     length (rn_tasks s) = length rs0 \<and> length (rn_slots s) = length rs0 \<and>
     rn_loops s \<subseteq> {0..<length rs0} \<and>
     (\<forall>i < length rs0. \<forall>sm. rn_tasks s ! i = Returned sm \<longrightarrow> sm = summary (rn_runners s ! i)) \<and>
     (\<forall>i < length rs0. \<forall>sm. rn_slots s ! i = Some sm \<longrightarrow> rn_tasks s ! i = Returned sm) \<and>
     (\<forall>rep. rn_phase s = Reported rep \<longrightarrow> rep = make_report (rn_runners s) (rn_slots s))"

text \<open>Jobs whose panics are contained: neither calling the closure nor the hook panics.\<close>

definition well_behaved :: "('w, 'g) job_spec \<Rightarrow> bool" where
  "well_behaved sp \<longleftrightarrow> (\<forall>ctx w. fst (closure sp ctx w) \<noteq> Call_panics) \<and>
     (\<forall>hook m w. on_degraded sp = Some hook \<longrightarrow> fst (hook m w) = Inr ())"

section \<open>Lemmas: configuration\<close>

declare set_seed_def [model_defs] set_jitter_def [model_defs] set_drain_cap_def [model_defs]
  set_breaker_config_def [model_defs] set_lease_def [model_defs] set_lease_ttl_def [model_defs]

lemma register_cases:
  "register B C sp self =
     (if acceptable C sp
      then (Inr (), self\<lparr>runners := runners self @ [with_lease (sv_lease self) (sv_lease_ttl self)
        (if use_breaker sp then with_breaker B (sv_breaker_config self) (job_runner_new sp (sv_jitter self))
         else job_runner_new sp (sv_jitter self))]\<rparr>)
      else (Inl (if is_valid_name (spec_name sp) then projl (validate C (spec_trigger sp))
                 else InvalidName (spec_name sp)), self))"
  by (auto simp: register_def acceptable_def Let_def split: sum.splits)

lemma configured_Cons [simp]: "configured B C (a # ops) self = configured B C ops (apply_op B C a self)"
  by (simp add: configured_def)

lemma configured_Nil [simp]: "configured B C [] self = self"
  by (simp add: configured_def)

lemma apply_op_runners:
  "\<exists>new. runners (apply_op B C a self) = runners self @ new \<and> map spec new = registered C [a] \<and>
     (\<forall>r \<in> set new. fresh_runner B r)"
proof (cases a)
  case (Register sp)
  then show ?thesis
    by (auto simp: register_cases fresh_runner_def frame_simps)
qed (simp_all add: model_defs)

lemma registered_Cons: "registered C (a # ops) = registered C [a] @ registered C ops"
  by (cases a) simp_all

lemma configured_runners:
  "\<exists>new. runners (configured B C ops self) = runners self @ new \<and> map spec new = registered C ops \<and>
     (\<forall>r \<in> set new. fresh_runner B r)"
proof (induction ops arbitrary: self)
  case Nil
  show ?case by simp
next
  case (Cons a ops)
  obtain n1 where n1: "runners (apply_op B C a self) = runners self @ n1" "map spec n1 = registered C [a]"
      "\<forall>r \<in> set n1. fresh_runner B r"
    using apply_op_runners by blast
  obtain n2 where n2: "runners (configured B C ops (apply_op B C a self)) = runners (apply_op B C a self) @ n2"
      "map spec n2 = registered C ops" "\<forall>r \<in> set n2. fresh_runner B r"
    using Cons.IH by blast
  show ?case
    by (rule exI [of _ "n1 @ n2"]) (use n1 n2 in \<open>auto simp: registered_Cons [of C a ops]\<close>)
qed

section \<open>Lemmas: the run\<close>

lemma fire_if_wiring: "fire_if b B g h self w = (r, self', w') \<Longrightarrow> wiring self' = wiring self"
  by (auto simp: fire_if_def fire_frame split: if_splits)

lemma fire_and_reschedule_wiring:
  assumes "fire_and_reschedule H C B g h st = c" "c \<in> {Continue st', Break st', Panic p st'}"
  shows "wiring (ls_runner st') = wiring (ls_runner st)"
proof -
  obtain r self w where f: "fire B g h (ls_runner st) (ls_world st) = (r, self, w)" by (metis prod_cases3)
  from fire_frame [OF f] assms f show ?thesis
    by (auto simp: fire_and_reschedule_def Let_def split: sum.splits prod.splits)
qed

lemma loop_body_wiring:
  assumes "loop_body H C B g h st = c" "c \<in> {Continue st', Break st', Panic p st'}"
  shows "wiring (ls_runner st') = wiring (ls_runner st)"
  using assms(1)
proof (cases rule: loop_body_cases)
  case (elapsed fire_at rng w w2)
  from fire_and_reschedule_wiring [OF elapsed(3) [symmetric] assms(2)] show ?thesis by simp
qed (use assms(2) in \<open>auto split: if_splits\<close>)

text \<open>A quantum keeps the wiring, and a loop that returns returns its runner's summary.\<close>

lemma task_start_effect:
  assumes "task_start H C B g h seed self w = (t, self', w')"
  shows "wiring self' = wiring self \<and> (\<forall>sm. t \<noteq> Returned sm)"
proof -
  obtain rng w0 where w0: "worker_rng H (spec_name (spec self)) seed w = (rng, w0)" by (meson surj_pair)
  obtain r1 self1 w1 where f1: "fire_if (fire_at_start (spec self)) B g h self w0 = (r1, self1, w1)"
    by (metis prod_cases3)
  from fire_if_wiring [OF f1] assms w0 f1 show ?thesis
    by (cases r1) (auto simp: task_start_def split: prod.splits sum.splits)
qed

lemma task_round_effect:
  assumes "task_round H C B g h tick rng self w = (t, self', w')"
  shows "wiring self' = wiring self \<and> (\<forall>sm. t = Returned sm \<longrightarrow> sm = summary self')"
proof -
  let ?st = "\<lparr>ls_tick = tick, ls_rng = rng, ls_runner = self, ls_world = w\<rparr>"
  show ?thesis
  proof (cases "loop_body H C B g h ?st")
    case (Continue st)
    with assms loop_body_wiring [OF Continue] show ?thesis by (auto simp: task_round_def)
  next
    case (Panic p st)
    with assms loop_body_wiring [OF Panic] show ?thesis by (auto simp: task_round_def)
  next
    case (Break st)
    obtain r s2 w2 where f: "fire_if (drain_pass (spec (ls_runner st))) B g h (ls_runner st) (ls_world st) = (r, s2, w2)"
      by (metis prod_cases3)
    have "wiring s2 = wiring self" using fire_if_wiring [OF f] loop_body_wiring [OF Break] by simp
    with assms Break f show ?thesis by (cases r) (auto simp: task_round_def)
  qed
qed

lemma task_quantum_effect:
  assumes "task_quantum H C B g h t self w = (t', self', w')"
  shows "wiring self' = wiring self"
    "t' = Returned sm \<Longrightarrow> (\<forall>sm. t = Returned sm \<longrightarrow> sm = summary self) \<Longrightarrow> sm = summary self'"
    "t = Returned sm \<Longrightarrow> t' = t \<and> self' = self"
  using assms
  by (cases t; auto dest: task_start_effect task_round_effect)+

text \<open>Under contained panics, a quantum is a sequence of completed fires.\<close>

lemma fire_if_contained:
  assumes ok: "\<And>r w. wiring r = wiring self \<Longrightarrow> fst (fire B g h r w) = Inr ()"
    and eq: "fire_if b B g h self w = (r, self', w')"
  shows "\<exists>hs. fire_history B g h self hs self'"
proof -
  have "r = Inr ()" using ok [of self w] eq by (auto simp: fire_if_def split: if_splits)
  with fire_if_history [of b B g h self w "()" self' w'] eq show ?thesis by blast
qed

lemma fire_and_reschedule_contained:
  assumes ok: "\<And>r w. wiring r = wiring (ls_runner st) \<Longrightarrow> fst (fire B g h r w) = Inr ()"
    and eq: "fire_and_reschedule H C B g h st = c" "c \<in> {Continue st', Break st', Panic p st'}"
  shows "\<exists>hs. fire_history B g h (ls_runner st) hs (ls_runner st')"
proof -
  obtain self w where f: "fire B g h (ls_runner st) (ls_world st) = (Inr (), self, w)"
    using ok [of "ls_runner st" "ls_world st"] by (metis fst_conv prod_cases3)
  then have "ls_runner st' = self"
    using eq by (auto simp: fire_and_reschedule_def Let_def split: sum.splits prod.splits)
  with fire_history_one [OF f] show ?thesis by blast
qed

lemma loop_body_contained:
  assumes ok: "\<And>r w. wiring r = wiring (ls_runner st) \<Longrightarrow> fst (fire B g h r w) = Inr ()"
    and eq: "loop_body H C B g h st = c" "c \<in> {Continue st', Break st', Panic p st'}"
  shows "\<exists>hs. fire_history B g h (ls_runner st) hs (ls_runner st')"
  using eq(1)
proof (cases rule: loop_body_cases)
  case (elapsed fire_at rng w w2)
  from fire_and_reschedule_contained [OF _ elapsed(3) [symmetric] eq(2)] ok show ?thesis by simp
qed (use eq(2) in \<open>auto intro!: exI [of _ "[]"] history_nil split: if_splits\<close>)

lemma task_quantum_contained:
  assumes ok: "\<And>r w. wiring r = wiring self \<Longrightarrow> fst (fire B g h r w) = Inr ()"
    and eq: "task_quantum H C B g h t self w = (t', self', w')"
  shows "\<exists>hs. fire_history B g h self hs self'"
proof (cases t)
  case (Spawned seed)
  obtain rng w0 where w0: "worker_rng H (spec_name (spec self)) seed w = (rng, w0)" by (meson surj_pair)
  obtain r1 self1 w1 where f1: "fire_if (fire_at_start (spec self)) B g h self w0 = (r1, self1, w1)"
    by (metis prod_cases3)
  with eq w0 Spawned have "self' = self1"
    by (auto simp: task_start_def split: prod.splits sum.splits)
  with fire_if_contained [OF ok f1] show ?thesis by simp
next
  case (Looping tick rng)
  let ?st = "\<lparr>ls_tick = tick, ls_rng = rng, ls_runner = self, ls_world = w\<rparr>"
  have ok': "wiring r = wiring (ls_runner ?st) \<Longrightarrow> fst (fire B g h r w) = Inr ()" for r w
    using ok by simp
  show ?thesis
  proof (cases "loop_body H C B g h ?st")
    case (Continue st)
    with eq Looping loop_body_contained [OF ok' Continue] show ?thesis by (auto simp: task_round_def)
  next
    case (Panic p st)
    with eq Looping loop_body_contained [OF ok' Panic] show ?thesis by (auto simp: task_round_def)
  next
    case (Break st)
    obtain r s2 w2 where f: "fire_if (drain_pass (spec (ls_runner st))) B g h (ls_runner st) (ls_world st) = (r, s2, w2)"
      by (metis prod_cases3)
    obtain hs where hs: "fire_history B g h self hs (ls_runner st)"
      using loop_body_contained [OF ok' Break] by auto
    then obtain hs' where "fire_history B g h (ls_runner st) hs' s2"
      using fire_if_contained [OF _ f] ok fire_history_frame [OF hs] by auto
    moreover have "self' = s2" using eq Looping Break f by (cases r) (auto simp: task_round_def)
    ultimately show ?thesis using fire_history_append [OF _ hs] by blast
  qed
qed (use eq in \<open>auto intro!: exI [of _ "[]"] history_nil\<close>)

text \<open>Termination: a quantum of an unfinished loop uses up pending wakes or the loop's weight.\<close>

lemma fire_if_pending:
  assumes "\<And>w. pending (snd (snd (fire B g h self w))) \<le> (pending w :: nat)" "fire_if b B g h self w = (x, self', w')"
  shows "pending w' \<le> pending w"
  using assms(1) [of w] assms(2) by (auto simp: fire_if_def split: if_splits)

lemma task_start_pending:
  assumes coming: "shutdown_coming H pending"
    and fires: "\<And>w. pending (snd (snd (fire B g h self w))) \<le> pending w"
    and eq: "task_start H C B g h seed self w = (t, self', w')"
  shows "pending w' \<le> pending w \<and> task_weight t \<le> 1"
proof -
  obtain rng w0 where w0: "worker_rng H (spec_name (spec self)) seed w = (rng, w0)" by (meson surj_pair)
  obtain x self1 w1 where f: "fire_if (fire_at_start (spec self)) B g h self w0 = (x, self1, w1)" by (metis prod_cases3)
  obtain y w2 where n: "first_tick H C (spec_trigger (spec self1)) w1 = (y, w2)" by (meson surj_pair)
  have "pending w0 \<le> pending w"
    using shutdown_coming_reads(3) [OF coming, of "spec_name (spec self)" w] w0 by (auto simp: worker_rng_def split: prod.splits)
  moreover have "pending w1 \<le> pending w0" using fires by (rule fire_if_pending [OF _ f])
  moreover have "pending w2 \<le> pending w1"
    using shutdown_coming_reads(1) [OF coming, of w1] n by (auto simp: first_tick_def split: prod.splits)
  ultimately show ?thesis
    using eq w0 f n by (cases x; cases y) (auto simp: task_start_def)
qed

lemma task_round_pending:
  assumes coming: "shutdown_coming H pending"
    and fires: "\<And>r w. wiring r = wiring self \<Longrightarrow> pending (snd (snd (fire B g h r w))) \<le> pending w"
    and eq: "task_round H C B g h tick rng self w = (t, self', w')"
  shows "pending w' + task_weight t \<le> pending w"
proof -
  let ?st = "\<lparr>ls_tick = tick, ls_rng = rng, ls_runner = self, ls_world = w\<rparr>"
  have fires': "wiring r = wiring (ls_runner ?st) \<Longrightarrow> pending (snd (snd (fire B g h r v))) \<le> pending v" for r v
    using fires by simp
  have one: "pending (snd (snd (fire B g h (ls_runner ?st) v))) \<le> pending v" for v
    using fires by simp
  show ?thesis
  proof (cases "loop_body H C B g h ?st")
    case (Continue st)
    with loop_body_pending [OF coming fires' Continue] eq show ?thesis by (auto simp: task_round_def)
  next
    case (Panic p st)
    with loop_body_pending_le [OF coming one Panic, of st p] eq show ?thesis by (auto simp: task_round_def)
  next
    case (Break st)
    obtain x s2 w2 where f: "fire_if (drain_pass (spec (ls_runner st))) B g h (ls_runner st) (ls_world st) = (x, s2, w2)"
      by (metis prod_cases3)
    have "wiring (ls_runner st) = wiring self" using loop_body_wiring [OF Break, of st] by simp
    with fires have "pending w2 \<le> pending (ls_world st)" by (intro fire_if_pending [OF _ f]) simp
    moreover have "pending (ls_world st) \<le> pending w" using loop_body_pending_le [OF coming one Break, of st] by simp
    ultimately show ?thesis using eq Break f by (cases x) (auto simp: task_round_def)
  qed
qed

lemma task_quantum_decreases:
  assumes "shutdown_coming H pending" "unfinished t"
    and "\<And>r w. wiring r = wiring self \<Longrightarrow> pending (snd (snd (fire B g h r w))) \<le> pending w"
    and "task_quantum H C B g h t self w = (t', self', w')"
  shows "pending w' + task_weight t' < pending w + task_weight t"
proof (cases t)
  case (Spawned seed)
  with assms(4) have eq: "task_start H C B g h seed self w = (t', self', w')" by simp
  have "pending w' \<le> pending w \<and> task_weight t' \<le> 1"
    using assms(3) by (intro task_start_pending [OF assms(1) _ eq]) simp
  with Spawned show ?thesis by simp
next
  case (Looping tick rng)
  with assms(4) have eq: "task_round H C B g h tick rng self w = (t', self', w')" by simp
  have "pending w' + task_weight t' \<le> pending w"
    using assms(3) by (intro task_round_pending [OF assms(1) _ eq]) simp
  with Looping show ?thesis by simp
qed (use assms(2) in simp_all)

lemma quanta_bound:
  assumes coming: "shutdown_coming H pending"
    and fires: "\<And>r w. wiring r \<in> set (map wiring (rn_runners s)) \<Longrightarrow> pending (snd (snd (fire B g h r w))) \<le> pending w"
    and len: "length (rn_tasks s) = length (rn_runners s)"
    and "quanta H C B g h s n s'"
  shows "n + pending (rn_world s') + sum_list (map task_weight (rn_tasks s')) \<le>
      pending (rn_world s) + sum_list (map task_weight (rn_tasks s)) \<and>
    map wiring (rn_runners s') = map wiring (rn_runners s) \<and> length (rn_tasks s') = length (rn_tasks s)"
  using assms(4)
proof induction
  case quanta_0
  show ?case by simp
next
  case (quanta_Suc n s1 i t r w)
  have i: "i < length (rn_runners s1)"
    using quanta_Suc len by (metis length_map)
  have wi: "wiring (rn_runners s1 ! i) \<in> set (map wiring (rn_runners s))"
    using quanta_Suc.IH i by (metis in_set_conv_nth length_map nth_map)
  have dec: "pending w + task_weight t < pending (rn_world s1) + task_weight (rn_tasks s1 ! i)"
    by (rule task_quantum_decreases [OF coming quanta_Suc.hyps(3) _ quanta_Suc.hyps(4)]) (use fires wi in simp)
  have "task_weight (rn_tasks s1 ! i) \<le> sum_list (map task_weight (rn_tasks s1))"
    using quanta_Suc.hyps(2) by (intro member_le_sum_list) auto
  then have "sum_list (map task_weight ((rn_tasks s1)[i := t])) + task_weight (rn_tasks s1 ! i) =
      sum_list (map task_weight (rn_tasks s1)) + task_weight t"
    using quanta_Suc.hyps(2) by (simp add: map_update sum_list_update)
  moreover have "map wiring ((rn_runners s1)[i := r]) = map wiring (rn_runners s1)"
    using task_quantum_effect(1) [OF quanta_Suc.hyps(4)] i by (simp add: map_update) (metis list_update_id nth_map)
  ultimately show ?case using quanta_Suc.IH dec by simp
qed

text \<open>The invariant of a run.\<close>

lemma spawn_seeds_length: "spawn_seeds H self rs w = (ts, w') \<Longrightarrow> length ts = length rs"
  by (induction rs arbitrary: w ts w') (auto simp: Let_def split: prod.splits option.splits)

lemma spawn_seeds_Spawned: "spawn_seeds H self rs w = (ts, w') \<Longrightarrow> t \<in> set ts \<Longrightarrow> \<exists>seed. t = Spawned seed"
  by (induction rs arbitrary: w ts w') (auto simp: Let_def split: prod.splits option.splits)

lemma spawn_seeds_pending:
  assumes "shutdown_coming H pending"
  shows "spawn_seeds H self rs w = (ts, w') \<Longrightarrow> pending w' \<le> pending w"
proof (induction rs arbitrary: w ts w')
  case (Cons r rs)
  obtain seed w1 where h: "(case sv_seed self of Some s \<Rightarrow> (s, w)
      | None \<Rightarrow> (case system_now H w of (now, w1) \<Rightarrow> (clock_seed now, w1))) = (seed, w1)" by (meson surj_pair)
  have "pending w1 \<le> pending w"
    using h shutdown_coming_reads(1) [OF assms, of w] by (auto split: option.splits prod.splits)
  with Cons h show ?case by (fastforce split: prod.splits)
qed simp

lemma run_inv_start: "run_inv (runners self) (run_start H self w)"
proof -
  obtain ts w' where sp: "spawn_seeds H self (runners self) w = (ts, w')" by (meson surj_pair)
  have "i < length (runners self) \<Longrightarrow> ts ! i \<noteq> Returned sm" for i sm
    using spawn_seeds_Spawned [OF sp, of "ts ! i"] spawn_seeds_length [OF sp] by auto
  then show ?thesis
    using spawn_seeds_length [OF sp] by (auto simp: run_inv_def run_start_def sp)
qed

lemma run_inv_task:
  assumes inv: "run_inv rs0 s" and i: "i < length (rn_tasks s)" and ph: "\<forall>rep. rn_phase s \<noteq> Reported rep"
    and q: "task_quantum H C B g h (rn_tasks s ! i) (rn_runners s ! i) (rn_world s) = (t, r, w)"
  shows "run_inv rs0 (s\<lparr>rn_tasks := (rn_tasks s)[i := t], rn_runners := (rn_runners s)[i := r], rn_world := w\<rparr>)"
proof -
  have len: "length (rn_runners s) = length rs0" "length (rn_tasks s) = length rs0"
    using inv by (auto simp: run_inv_def dest: map_eq_imp_length_eq)
  have wr: "map wiring ((rn_runners s)[i := r]) = map wiring rs0"
    using inv i len task_quantum_effect(1) [OF q]
    by (simp add: run_inv_def map_update) (metis list_update_id nth_map)
  have ret: "sm = summary ((rn_runners s)[i := r] ! j)"
    if "j < length rs0" "(rn_tasks s)[i := t] ! j = Returned sm" for j sm
    using that inv len i task_quantum_effect(2) [OF q, of sm]
    by (cases "j = i") (auto simp: run_inv_def)
  have slot: "(rn_tasks s)[i := t] ! j = Returned sm"
    if "j < length rs0" "rn_slots s ! j = Some sm" for j sm
  proof -
    have "rn_tasks s ! j = Returned sm" using inv that by (simp add: run_inv_def)
    then show ?thesis using task_quantum_effect(3) [OF q, of sm] len that(1) by (cases "j = i") auto
  qed
  show ?thesis using inv wr ret slot ph by (simp add: run_inv_def)
qed

lemma run_inv_join:
  assumes inv: "run_inv rs0 s" and ph: "rn_phase s = Draining" and i: "i \<in> rn_loops s"
  shows "run_inv rs0 (s\<lparr>rn_slots := join_one i (rn_tasks s ! i) (rn_slots s), rn_loops := rn_loops s - {i}\<rparr>)"
proof (cases "rn_tasks s ! i")
  case (Returned sm)
  have "rn_tasks s ! j = Returned sm'" if "j < length rs0" "(rn_slots s)[i := Some sm] ! j = Some sm'" for j sm'
    using inv that Returned by (cases "j = i") (auto simp: run_inv_def)
  then show ?thesis using inv Returned ph i by (auto simp: run_inv_def)
qed (use inv ph in \<open>auto simp: run_inv_def\<close>)

lemma run_inv_step:
  assumes "run_step H C B g h s s'" "run_inv rs0 s"
  shows "run_inv rs0 s'"
  using assms(1)
proof cases
  case (step_task i t r w)
  from run_inv_task [OF assms(2) step_task(2-4)] step_task(1) show ?thesis by simp
next
  case (step_join i)
  from run_inv_join [OF assms(2) step_join(2,3)] step_join(1) show ?thesis by simp
qed (use assms(2) in \<open>auto simp: run_inv_def\<close>)

interpretation running: step_invariant "run_step H C B g h" "run_inv rs0" for H C B g h rs0
  by unfold_locales (rule run_inv_step)

lemma run_reach_steps: "run_reach H C B g h s0 s \<Longrightarrow> (run_step H C B g h)\<^sup>*\<^sup>* s0 s"
  by (induction rule: run_reach.induct) (auto intro: rtranclp.rtrancl_into_rtrancl)

lemmas run_inv_reach = running.kept [OF run_reach_steps]

text \<open>A filled slot repeats the live summary, so the report is that of the live summaries.\<close>

lemma make_report_live:
  assumes "run_inv rs0 s"
  shows "make_report (rn_runners s) (rn_slots s) = \<lparr>per_job = sort_key rs_name (map summary (rn_runners s))\<rparr>"
proof -
  have len: "length (rn_runners s) = length rs0" "length (rn_slots s) = length rs0"
    using assms by (auto simp: run_inv_def dest: map_eq_imp_length_eq)
  have "fill_slots (rn_runners s) (rn_slots s) = map (\<lambda>r. Some (summary r)) (rn_runners s)"
  proof (rule nth_equalityI)
    fix i assume "i < length (fill_slots (rn_runners s) (rn_slots s))"
    then have "i < length rs0" by (simp add: fill_slots_def len)
    with assms len show "fill_slots (rn_runners s) (rn_slots s) ! i = map (\<lambda>r. Some (summary r)) (rn_runners s) ! i"
      by (auto simp: fill_slots_def run_inv_def split: option.splits)
  qed (simp add: fill_slots_def len)
  then show ?thesis by (simp add: make_report_def map_filter_def comp_def)
qed

lemma run_histories_step:
  assumes ok: "\<And>r w. r \<in> set rs0 \<Longrightarrow> well_behaved (spec r)" and law: "own_panics_law B"
    and inv: "run_inv rs0 s"
    and IH: "\<forall>i < length rs0. \<exists>hs. fire_history B g h (rs0 ! i) hs (rn_runners s ! i)"
    and step: "run_step H C B g h s s'"
  shows "\<forall>i < length rs0. \<exists>hs. fire_history B g h (rs0 ! i) hs (rn_runners s' ! i)"
  using step
proof cases
  case (step_task i t r w)
  have len: "length (rn_runners s) = length rs0"
    using inv by (auto simp: run_inv_def dest: map_eq_imp_length_eq)
  have i: "i < length rs0" using inv step_task(2) by (simp add: run_inv_def)
  obtain hs where hs: "fire_history B g h (rs0 ! i) hs (rn_runners s ! i)" using IH i by blast
  have sp: "spec (rn_runners s ! i) = spec (rs0 ! i)" using fire_history_frame [OF hs] by (rule wiring_spec)
  have "fst (fire B g h r' w') = Inr ()" if "wiring r' = wiring (rn_runners s ! i)" for r' w'
  proof -
    have "well_behaved (spec r')" using ok [of "rs0 ! i"] i sp wiring_spec [OF that] by simp
    then show ?thesis by (intro fire_contained [OF _ _ law]) (auto simp: well_behaved_def)
  qed
  from task_quantum_contained [OF this step_task(4)] obtain hs' where
    "fire_history B g h (rn_runners s ! i) hs' r" by blast
  from fire_history_append [OF this hs] IH len step_task(1) show ?thesis
    by (auto simp: nth_list_update i)
qed (use IH in auto)

lemma run_histories:
  assumes reach: "run_reach H C B g h s0 s" and "rn_runners s0 = rs0" "run_inv rs0 s0"
    and ok: "\<And>r. r \<in> set rs0 \<Longrightarrow> well_behaved (spec r)" "own_panics_law B"
  shows "\<forall>i < length rs0. \<exists>hs. fire_history B g h (rs0 ! i) hs (rn_runners s ! i)"
  using reach
proof induction
  case run_init
  show ?case using assms(2) history_nil by metis
next
  case (run_next s s')
  from run_histories_step [OF ok(1,2) run_inv_reach [OF run_next.hyps(1) assms(3)] run_next.IH run_next.hyps(2)]
  show ?case .
qed

lemma summary_name: "rs_name (summary r) = runner_name r"
  by (simp add: summary_def runner_name_def)

lemma map_runner_name:
  assumes "map wiring rs = map wiring rs'"
  shows "map runner_name rs = map runner_name rs'"
proof -
  have "map (spec_name \<circ> fst) (map wiring rs) = map (spec_name \<circ> fst) (map wiring rs')"
    using assms by (rule arg_cong)
  then show ?thesis by (simp add: runner_name_def [abs_def] wiring_def comp_def)
qed

lemma find_filter: "find P xs = (case filter P xs of [] \<Rightarrow> None | x # _ \<Rightarrow> Some x)"
  by (induction xs) simp_all

lemma collect_metrics:
  "foldl (\<lambda>m (name, metrics). m(name \<mapsto> metrics)) Map.empty
     (List.map_filter (\<lambda>(name, metrics). map_option (Pair name) metrics)
       (map (\<lambda>r. (runner_name r, runner_breaker_metrics B r)) rs)) name =
     (case rev [r \<leftarrow> rs. runner_name r = name \<and> breaker r \<noteq> None] of
        [] \<Rightarrow> None | r # _ \<Rightarrow> map_option (cb_metrics_of B) (breaker r))"
  by (induction rs rule: rev_induct) (auto simp: map_filter_def runner_breaker_metrics_def)

lemma demo_supervisor_runners:
  "\<exists>r1 r2. runners demo_supervisor = [r1, r2] \<and> spec r1 = demo_spec \<and>
     spec r2 = demo_spec\<lparr>spec_name := lit ''gc''\<rparr> \<and> rstats r1 = stats_default \<and> rstats r2 = stats_default"
proof -
  have names: "is_valid_name (spec_name demo_spec)" "is_valid_name (lit ''gc'')" "\<not> is_valid_name []"
    by (simp_all add: is_valid_name_def name_max_len_def str_len_def utf8_width_def demo_spec_def
        job_spec_new_def lit_def is_ascii_lowercase_def)
  show ?thesis
    by (simp add: demo_supervisor_def demo_ops_def model_defs frame_simps worker_supervisor_new_def
        register_cases acceptable_def names demo_runner_sel)
qed

lemma demo_run:
  "\<exists>s rep. run_reach demo_host empty_cron mini_breaker g h (run_start demo_host demo_supervisor 0) s \<and>
     rn_phase s = Reported rep \<and> rep = make_report (rn_runners s) (rn_slots s)"
proof -
  let ?s0 = "run_start demo_host demo_supervisor 0"
  let ?s1 = "?s0\<lparr>rn_phase := Draining\<rparr>"
  let ?s2 = "?s1\<lparr>rn_loops := {}, rn_phase := Reported (make_report (rn_runners ?s1) (rn_slots ?s1))\<rparr>"
  let ?reach = "run_reach demo_host empty_cron mini_breaker g h ?s0"
  have "?reach ?s1"
    by (rule run_next [OF run_init step_shutdown]) (simp add: run_start_def split: prod.splits)
  then have "?reach ?s2" by (rule run_next [OF _ step_cap]) simp
  then show ?thesis by (intro exI [of _ ?s2]) simp
qed

lemma run_report_histories:
  assumes "run_reach H C B g h (run_start H self w) s" "rn_phase s = Reported rep"
    and "\<And>r. r \<in> set (runners self) \<Longrightarrow> well_behaved (spec r) \<and> rstats r = stats_default"
    and "own_panics_law B"
  shows "\<exists>hss. length hss = length (runners self) \<and>
    (\<forall>i < length (runners self). fire_history B g h (runners self ! i) (hss ! i) (rn_runners s ! i)) \<and>
    per_job rep = sort_key rs_name (map2 (\<lambda>r hs.
      summary (r\<lparr>rstats := stats_of (failure_budget (spec r)) hs\<rparr>)) (runners self) hss)"
proof -
  let ?rs = "runners self"
  have inv: "run_inv ?rs s" using assms(1) run_inv_start by (rule run_inv_reach)
  have len: "length (rn_runners s) = length ?rs" using inv by (auto simp: run_inv_def dest: map_eq_imp_length_eq)
  have "rn_runners (run_start H self w) = ?rs" by (simp add: run_start_def split: prod.splits)
  from run_histories [OF assms(1) this run_inv_start _ assms(4)] assms(3)
  obtain f where f: "\<forall>i < length ?rs. fire_history B g h (?rs ! i) (f i) (rn_runners s ! i)" by metis
  define hss where "hss = map f [0..<length ?rs]"
  have hss: "\<forall>i < length ?rs. fire_history B g h (?rs ! i) (hss ! i) (rn_runners s ! i)"
    using f by (simp add: hss_def)
  have entry: "summary (rn_runners s ! i) = summary ((?rs ! i)\<lparr>rstats := stats_of (failure_budget (spec (?rs ! i))) (hss ! i)\<rparr>)"
    if "i < length ?rs" for i
    using fire_history_stats [of B g h "?rs ! i" "hss ! i" "rn_runners s ! i"] hss that assms(3)
      fire_history_frame [of B g h "?rs ! i" "hss ! i" "rn_runners s ! i"]
    by (auto simp: summary_def wiring_def)
  have "map summary (rn_runners s) = map2 (\<lambda>r hs. summary (r\<lparr>rstats := stats_of (failure_budget (spec r)) hs\<rparr>)) ?rs hss"
    by (rule nth_equalityI) (simp_all add: len hss_def entry [unfolded hss_def])
  moreover have "per_job rep = sort_key rs_name (map summary (rn_runners s))"
    using make_report_live [OF inv] assms(2) inv by (auto simp: run_inv_def)
  ultimately show ?thesis using hss by (intro exI [of _ hss]) (simp add: hss_def)
qed

lemma configured_holder:
  "sv_holder (configured B C ops self) = sv_holder self \<and> sv_shutdown (configured B C ops self) = sv_shutdown self"
proof (induction ops arbitrary: self)
  case (Cons a ops)
  have "sv_holder (apply_op B C a self) = sv_holder self \<and> sv_shutdown (apply_op B C a self) = sv_shutdown self"
    by (cases a) (simp_all add: model_defs register_cases)
  with Cons show ?case by simp
qed simp

section \<open>Properties\<close>

text \<open>
  C12: The report of a run. Whatever the interleaving of the loops, the environment, the
  order of the joins, loops that panic and a drain cap that cuts the drain short: a
  report lists every registered job exactly once, ordered by name, equal names in
  registration order, and every entry is that job's live summary at the time of the report.
\<close>

theorem run_report_complete:
  assumes "run_reach H C B g h (run_start H self w) s" "rn_phase s = Reported rep"
  shows "map wiring (rn_runners s) = map wiring (runners self) \<and>
    mset (per_job rep) = mset (map summary (rn_runners s)) \<and>
    mset (map rs_name (per_job rep)) = mset (map runner_name (runners self)) \<and>
    sorted (map rs_name (per_job rep)) \<and>
    [e \<leftarrow> per_job rep. rs_name e = name] = map summary [r \<leftarrow> rn_runners s. runner_name r = name]"
proof -
  have inv: "run_inv (runners self) s" using assms(1) run_inv_start by (rule run_inv_reach)
  then have rep: "per_job rep = sort_key rs_name (map summary (rn_runners s))"
    using make_report_live [OF inv] assms(2) by (auto simp: run_inv_def)
  have w: "map wiring (rn_runners s) = map wiring (runners self)" using inv by (simp add: run_inv_def)
  have "map runner_name (rn_runners s) = map runner_name (runners self)" using w by (rule map_runner_name)
  then have "mset (map runner_name (rn_runners s)) = mset (map runner_name (runners self))" by simp
  then have "mset (map rs_name (per_job rep)) = mset (map runner_name (runners self))"
    by (simp add: rep image_mset.compositionality comp_def summary_name)
  moreover have "[e \<leftarrow> per_job rep. rs_name e = name] = map summary [r \<leftarrow> rn_runners s. runner_name r = name]"
    by (simp add: rep stable_sort_group filter_map comp_def summary_name)
  ultimately show ?thesis using w by (simp add: rep map_key_sorted)
qed

theorem run_report_complete_witness:
  "\<exists>(s :: (nat, unit, nat \<times> nat) run_state) rep. rn_phase s = Reported rep \<and>
    map wiring (rn_runners s) = map wiring (runners demo_supervisor) \<and>
    mset (per_job rep) = mset (map summary (rn_runners s)) \<and>
    mset (map rs_name (per_job rep)) = mset (map runner_name (runners demo_supervisor)) \<and>
    sorted (map rs_name (per_job rep)) \<and>
    [e \<leftarrow> per_job rep. rs_name e = lit ''gc''] = map summary [r \<leftarrow> rn_runners s. runner_name r = lit ''gc'']"
proof -
  obtain s rep where run: "run_reach demo_host empty_cron mini_breaker () [] (run_start demo_host demo_supervisor 0) s"
    "rn_phase s = Reported rep" using demo_run by blast
  from run_report_complete [OF run, of "lit ''gc''"] run(2) show ?thesis by blast
qed


text \<open>
  C11: The drain ends under every scheduling. Once shutdown is on its way (each wait reports
  it or uses up one of finitely many pending wakes, and no fire adds any), the loops
  together have at most as many quanta left as there are pending wakes plus two per job, in
  whatever order they are scheduled: every loop returns or crashes.
\<close>

theorem drain_bounded:
  assumes "shutdown_coming H pending"
    and "\<And>r w. wiring r \<in> set (map wiring (runners self)) \<Longrightarrow>
      pending (snd (snd (fire B g h r w))) \<le> pending w"
    and "quanta H C B g h (run_start H self w) n s"
  shows "n \<le> pending w + 2 * length (runners self)"
proof -
  obtain ts w' where sp: "spawn_seeds H self (runners self) w = (ts, w')" by (meson surj_pair)
  then have start: "rn_runners (run_start H self w) = runners self" "rn_tasks (run_start H self w) = ts"
      "rn_world (run_start H self w) = w'"
    by (simp_all add: run_start_def)
  have "task_weight t = 2" if "t \<in> set ts" for t
    using spawn_seeds_Spawned [OF sp that] by auto
  then have "map task_weight ts = replicate (length (runners self)) 2"
    using spawn_seeds_length [OF sp] by (intro replicate_eqI) auto
  moreover have "pending w' \<le> pending w" by (rule spawn_seeds_pending [OF assms(1) sp])
  ultimately show ?thesis
    using quanta_bound [OF assms(1) _ _ assms(3)] assms(2) spawn_seeds_length [OF sp]
    by (auto simp: start sum_list_replicate)
qed

theorem drain_bounded_witness:
  "let sv = (worker_supervisor_new 5 0 ())\<lparr>runners := [still_runner]\<rparr> :: (nat, unit, nat \<times> nat, nat) worker_supervisor;
       s0 = run_start demo_host sv 0
   in (\<exists>s. quanta demo_host empty_cron mini_breaker () [] s0 1 s) \<and> 1 \<le> (3000000 - 0) + 2 * length (runners sv)"
proof -
  let ?sv = "(worker_supervisor_new 5 0 ())\<lparr>runners := [still_runner]\<rparr> :: (nat, unit, nat \<times> nat, nat) worker_supervisor"
  let ?s0 = "run_start demo_host ?sv 0"
  have s0: "rn_tasks ?s0 = [Spawned (clock_seed 0)]" "rn_runners ?s0 = [still_runner]"
    by (simp_all add: run_start_def worker_supervisor_new_def demo_host_sel)
  obtain t r w where "task_quantum demo_host empty_cron mini_breaker () [] (rn_tasks ?s0 ! 0) (rn_runners ?s0 ! 0) (rn_world ?s0) = (t, r, w)"
    by (metis prod_cases3)
  from quanta_Suc [OF quanta_0 _ _ this] obtain s where q: "quanta demo_host empty_cron mini_breaker () [] ?s0 1 s"
    by (auto simp: s0)
  have "1 \<le> (3000000 - 0) + 2 * length (runners ?sv)"
    by (rule drain_bounded [where pending = "\<lambda>w. 3000000 - w", OF demo_shutdown_coming _ q])
      (simp add: still_runner_fire)
  with q show ?thesis unfolding Let_def by blast
qed

text \<open>
  C21: Registration. After any sequence of setters and registrations, the supervisor runs
  the jobs of the accepted registrations, in order and after the earlier ones, which stay
  untouched (later setters do not reach registered jobs); a registration is accepted iff
  the name is valid and a cron expression parses, and a refused one changes nothing. New
  runners are fresh, with a closed-over breaker iff the spec asks for one.
\<close>

theorem configuration_appends:
  "\<exists>new. runners (configured B C ops self) = runners self @ new \<and> map spec new = registered C ops \<and>
     list_all (fresh_runner B) new"
  using configured_runners by (simp add: list_all_iff)

text \<open>
  The status view: one snapshot per registered job, ordered by name, equal names in
  registration order.
\<close>

lemma status_sorted_stable:
  "mset (supervisor_status self) = mset (map status (runners self)) \<and>
   sorted (map js_name (supervisor_status self)) \<and>
   [e \<leftarrow> supervisor_status self. js_name e = name] = map status [r \<leftarrow> runners self. runner_name r = name]"
  by (simp add: supervisor_status_def map_key_sorted stable_sort_group filter_map comp_def
      status_def runner_name_def)

text \<open>
  Holder ids. Two supervisors created at different clock readings, less than \<open>2^64\<close> ns
  (584 years) apart, get different holder ids, so a lease tells them apart.
\<close>

lemma holder_ids_distinct:
  assumes "0 \<le> t" "0 \<le> t'" "\<bar>t - t'\<bar> < 2 ^ 64" "t \<noteq> t'"
  shows "holder_id t \<noteq> holder_id t'"
proof -
  have "clock_seed t \<noteq> clock_seed t'" using clock_seed_distinct [OF assms] by blast
  then show ?thesis by (simp add: holder_id_def inj_eq [OF inj_decimal] word_unat_eq_iff)
qed

text \<open>
  Breaker views of duplicate names. \<open>breaker_state\<close> reads the first job registered
  under a name (and answers \<open>None\<close> when that job opted out of the breaker), while
  \<open>breaker_metrics\<close> keeps the last one that has a breaker.
\<close>

lemma breaker_views:
  "breaker_state B self name w =
     (case [r \<leftarrow> runners self. runner_name r = name] of
        [] \<Rightarrow> None | r # _ \<Rightarrow> map_option (\<lambda>b. cb_state_of B b w) (breaker r)) \<and>
   breaker_metrics B self name =
     (case rev [r \<leftarrow> runners self. runner_name r = name \<and> breaker r \<noteq> None] of
        [] \<Rightarrow> None | r # _ \<Rightarrow> map_option (cb_metrics_of B) (breaker r))"
  by (simp add: breaker_state_def breaker_metrics_def find_filter collect_metrics
      runner_breaker_state_def split: list.splits)

end
