(* ===== verification/Snapshots.thy ===== *)
theory Snapshots
  imports Runner
begin

text \<open>
  \<open>src/runner.rs\<close>: \<open>status\<close> and \<open>summary\<close> while the job's own loop is writing. \<open>fire\<close> in
  \<open>Runner\<close> records an outcome in one step; here the recording is the sequence of its
  atomic writes, and a snapshot the sequence of its loads, with the two running
  concurrently. The loads are \<open>Relaxed\<close>: a load may return any value its variable has had,
  except that one thread never sees a variable go back (coherence). The lock around
  \<open>last_error\<close> only excludes behaviours that this allows.
\<close>

section \<open>The writes of a fire\<close>

datatype stat_field = F_fires | F_failures | F_skips | F_paused | F_consecutive | F_degraded | F_last_error

text \<open>The fields are finitely many: what is claimed of each of them can be computed.\<close>

instantiation stat_field :: enum
begin

definition "enum_stat_field = [F_fires, F_failures, F_skips, F_paused, F_consecutive, F_degraded, F_last_error]"

definition "enum_all_stat_field P \<longleftrightarrow>
  P F_fires \<and> P F_failures \<and> P F_skips \<and> P F_paused \<and> P F_consecutive \<and> P F_degraded \<and> P F_last_error"

definition "enum_ex_stat_field P \<longleftrightarrow>
  P F_fires \<or> P F_failures \<or> P F_skips \<or> P F_paused \<or> P F_consecutive \<or> P F_degraded \<or> P F_last_error"

lemma stat_field_UNIV: "(UNIV :: stat_field set) = set enum_class.enum"
  by (auto simp: enum_stat_field_def intro: stat_field.exhaust)

instance
  by standard (auto simp: stat_field_UNIV enum_stat_field_def enum_all_stat_field_def enum_ex_stat_field_def
      intro: stat_field.exhaust)

end

text \<open>\<open>fetch_add(1)\<close>, \<open>store(0)\<close>, \<open>store(false)\<close>, \<open>swap(true)\<close> and the locked assignment.\<close>

datatype stat_write =
    Add_fires | Add_failures | Add_skips | Add_paused
  | Add_consecutive | Reset_consecutive
  | Swap_degraded | Clear_degraded
  | Put_error ustr

fun apply_write :: "stat_write \<Rightarrow> stats \<Rightarrow> stats" where
  "apply_write Add_fires st = st\<lparr>fires := fires st + 1\<rparr>"
| "apply_write Add_failures st = st\<lparr>failures := failures st + 1\<rparr>"
| "apply_write Add_skips st = st\<lparr>skips := skips st + 1\<rparr>"
| "apply_write Add_paused st = st\<lparr>paused := paused st + 1\<rparr>"
| "apply_write Add_consecutive st = st\<lparr>consecutive := consecutive st + 1\<rparr>"
| "apply_write Reset_consecutive st = st\<lparr>consecutive := 0\<rparr>"
| "apply_write Swap_degraded st = st\<lparr>degraded := True\<rparr>"
| "apply_write Clear_degraded st = st\<lparr>degraded := False\<rparr>"
| "apply_write (Put_error m) st = st\<lparr>last_error := Some m\<rparr>"

text \<open>
  The writes of one fire in program order, given the streak that \<open>fetch_add\<close> returns; the
  hook runs before the last write of a failure. \<open>None\<close> is a fire the gate skipped.
\<close>

fun writes_of :: "u32 \<Rightarrow> u32 \<Rightarrow> fire_outcome option \<Rightarrow> stat_write list" where
  "writes_of budget c None = [Add_skips]"
| "writes_of budget c (Some Success) = [Add_fires, Reset_consecutive, Clear_degraded]"
| "writes_of budget c (Some (Failure m)) =
     [Add_fires, Add_failures, Add_consecutive] @ (if budget \<le> c + 1 then [Swap_degraded] else []) @ [Put_error m]"
| "writes_of budget c (Some Paused) = [Add_paused]"

text \<open>
  The recording side: the history of fires begun, the writes the current fire still has to
  make, and every value the statistics have had.
\<close>

type_synonym recorder = "history \<times> stat_write list \<times> stats list"

inductive record_step :: "u32 \<Rightarrow> recorder \<Rightarrow> recorder \<Rightarrow> bool" for budget where
  record_fire: "record_step budget (hs, [], vs) (hs @ [h], writes_of budget (consecutive (last vs)) h, vs)"
| record_write: "record_step budget (hs, x # xs, vs) (hs, xs, vs @ [apply_write x (last vs)])"

definition recording :: "u32 \<Rightarrow> recorder \<Rightarrow> bool" where
  "recording budget = (record_step budget)\<^sup>*\<^sup>* ([], [], [stats_default])"

section \<open>The loads of a snapshot\<close>

text \<open>A snapshot made of one load per field: \<open>rd f\<close> is the state that \<open>f\<close> was loaded from.\<close>

definition status_loads :: "('w, 'g) job_spec \<Rightarrow> (stat_field \<Rightarrow> stats) \<Rightarrow> job_status" where
  "status_loads sp rd =
     \<lparr>js_name = spec_name sp, js_trigger = spec_trigger sp,
      js_fires = fires (rd F_fires), js_failures = failures (rd F_failures),
      js_skips = skips (rd F_skips), js_paused = paused (rd F_paused),
      js_consecutive_failures = consecutive (rd F_consecutive),
      js_degraded = degraded (rd F_degraded), js_last_error = last_error (rd F_last_error)\<rparr>"

definition summary_loads :: "('w, 'g) job_spec \<Rightarrow> (stat_field \<Rightarrow> stats) \<Rightarrow> job_run_summary" where
  "summary_loads sp rd =
     \<lparr>rs_name = spec_name sp, rs_fires = fires (rd F_fires), rs_failures = failures (rd F_failures),
      rs_skips = skips (rd F_skips), rs_paused = paused (rd F_paused),
      rs_degraded = degraded (rd F_degraded), rs_last_error = last_error (rd F_last_error)\<rparr>"

definition status_order :: "stat_field list" where
  "status_order = [F_fires, F_failures, F_skips, F_paused, F_consecutive, F_degraded, F_last_error]"

text \<open>
  A thread that takes one status after another while the loop records: the newest value it
  has seen of each field (as an index into the log), the loads the current call still has to
  make, and the snapshots it has taken.
\<close>

record observer =
  ob_view :: "stat_field \<Rightarrow> nat"
  ob_todo :: "stat_field list"
  ob_seen :: "job_status list"

definition observer_new :: observer where
  "observer_new = \<lparr>ob_view = (\<lambda>_. 0), ob_todo = status_order, ob_seen = []\<rparr>"

inductive observe_step ::
    "('w, 'g) job_spec \<Rightarrow> recorder \<times> observer \<Rightarrow> recorder \<times> observer \<Rightarrow> bool"
  for sp where
  ob_record: "record_step (failure_budget sp) t t' \<Longrightarrow> observe_step sp (t, ob) (t', ob)"
| ob_load: "ob_todo ob = f # fs \<Longrightarrow> ob_view ob f \<le> i \<Longrightarrow> i < length vs \<Longrightarrow>
    observe_step sp ((hs, xs, vs), ob) ((hs, xs, vs), ob\<lparr>ob_view := (ob_view ob)(f := i), ob_todo := fs\<rparr>)"
| ob_return: "ob_todo ob = [] \<Longrightarrow>
    observe_step sp ((hs, xs, vs), ob)
      ((hs, xs, vs), ob\<lparr>ob_todo := status_order,
         ob_seen := ob_seen ob @ [status_loads sp (\<lambda>f. vs ! ob_view ob f)]\<rparr>)"

definition observing :: "('w, 'g) job_spec \<Rightarrow> recorder \<times> observer \<Rightarrow> bool" where
  "observing sp = (observe_step sp)\<^sup>*\<^sup>* (([], [], [stats_default]), observer_new)"

section \<open>Specification\<close>

text \<open>Two states agree on a field.\<close>

fun agree :: "stat_field \<Rightarrow> stats \<Rightarrow> stats \<Rightarrow> bool" where
  "agree F_fires a b = (fires a = fires b)"
| "agree F_failures a b = (failures a = failures b)"
| "agree F_skips a b = (skips a = skips b)"
| "agree F_paused a b = (paused a = paused b)"
| "agree F_consecutive a b = (consecutive a = consecutive b)"
| "agree F_degraded a b = (degraded a = degraded b)"
| "agree F_last_error a b = (last_error a = last_error b)"

fun target :: "stat_write \<Rightarrow> stat_field" where
  "target Add_fires = F_fires"
| "target Add_failures = F_failures"
| "target Add_skips = F_skips"
| "target Add_paused = F_paused"
| "target Add_consecutive = F_consecutive"
| "target Reset_consecutive = F_consecutive"
| "target Swap_degraded = F_degraded"
| "target Clear_degraded = F_degraded"
| "target (Put_error _) = F_last_error"

text \<open>
  The statistics after the first \<open>k f\<close> fires of a history, field by field: what a snapshot
  is allowed to show.
\<close>

definition stats_mix :: "u32 \<Rightarrow> history \<Rightarrow> (stat_field \<Rightarrow> nat) \<Rightarrow> stat_field \<Rightarrow> stats" where
  "stats_mix budget hs k f = stats_of budget (take (k f) hs)"

text \<open>
  Every state in the log is such a mixture, with later states never behind earlier ones;
  \<open>ks\<close> gives, per state and field, the number of fires the field has taken in.
\<close>

definition log_whole :: "u32 \<Rightarrow> history \<Rightarrow> stats list \<Rightarrow> (stat_field \<Rightarrow> nat) list \<Rightarrow> bool" where
  "log_whole budget hs vs ks \<longleftrightarrow>
     length ks = length vs \<and>
     (\<forall>i < length vs. \<forall>f. (ks ! i) f \<le> length hs \<and> agree f (vs ! i) (stats_mix budget hs (ks ! i) f)) \<and>
     (\<forall>i j f. i \<le> j \<longrightarrow> j < length vs \<longrightarrow> (ks ! i) f \<le> (ks ! j) f)"

definition record_inv :: "u32 \<Rightarrow> recorder \<Rightarrow> (stat_field \<Rightarrow> nat) list \<Rightarrow> bool" where
  "record_inv budget t ks \<longleftrightarrow> (case t of (hs, xs, vs) \<Rightarrow>
     vs \<noteq> [] \<and> log_whole budget hs vs ks \<and> distinct (map target xs) \<and>
     fold apply_write xs (last vs) = stats_of budget hs)"

text \<open>The snapshots of an observer, each with the positions in the log its loads came from.\<close>

definition observe_inv ::
    "('w, 'g) job_spec \<Rightarrow> recorder \<times> observer \<Rightarrow> (stat_field \<Rightarrow> nat) list \<Rightarrow> (stat_field \<Rightarrow> nat) list \<Rightarrow> bool" where
  "observe_inv sp s ks ms \<longleftrightarrow> (case s of ((hs, xs, vs), ob) \<Rightarrow>
     record_inv (failure_budget sp) (hs, xs, vs) ks \<and> (\<forall>f. ob_view ob f < length vs) \<and>
     ob_seen ob = map (\<lambda>m. status_loads sp (\<lambda>f. vs ! m f)) ms \<and>
     (\<forall>m \<in> set ms. \<forall>f. m f \<le> ob_view ob f) \<and> sorted_wrt (\<lambda>m m'. \<forall>f. m f \<le> m' f) ms)"

text \<open>A job that fails while an observer is between its first and its second load.\<close>

definition torn_log :: "stats list" where
  "torn_log = [stats_default, stats_default\<lparr>fires := 1\<rparr>, stats_default\<lparr>fires := 1, failures := 1\<rparr>]"

definition torn_view :: "stat_field \<Rightarrow> nat" where
  "torn_view = (\<lambda>_. 0)(F_failures := 2)"

section \<open>Lemmas\<close>

lemma status_loads_quiet: "status_loads (spec r) (\<lambda>_. rstats r) = status r"
  by (simp add: status_loads_def status_def)

lemma summary_loads_quiet: "summary_loads (spec r) (\<lambda>_. rstats r) = summary r"
  by (simp add: summary_loads_def summary_def)

lemma agree_refl [simp]: "agree f a a"
  by (cases f) simp_all

lemma agree_trans [trans]: "agree f a b \<Longrightarrow> agree f b c \<Longrightarrow> agree f a c"
  by (cases f) simp_all

lemma agree_sym: "agree f a b \<Longrightarrow> agree f b a"
  by (cases f) simp_all

text \<open>Loads that agree on every field give the same snapshot.\<close>

lemma agree_fields:
  assumes "\<And>f. agree f (rd f) (rd' f)"
  shows "enum_class.enum_all (\<lambda>f. agree f (rd f) (rd' f))"
  by (simp add: enum_UNIV assms)

lemmas agree_each = agree_fields [unfolded enum_all_stat_field_def]

lemma agree_status: "(\<And>f. agree f (rd f) (rd' f)) \<Longrightarrow> status_loads sp rd = status_loads sp rd'"
  by (drule agree_each) (simp add: status_loads_def)

lemma agree_summary: "(\<And>f. agree f (rd f) (rd' f)) \<Longrightarrow> summary_loads sp rd = summary_loads sp rd'"
  by (drule agree_each) (simp add: summary_loads_def)

lemma status_order_all [simp]: "f \<in> set status_order"
  using stat_field_UNIV by (auto simp: status_order_def enum_stat_field_def)

text \<open>
  A store of fields whose writes touch one field each: a field that no write of a sequence
  targets is left as it was, and one that only the first write targets holds that write's value.
\<close>

locale field_store =
  fixes same :: "'f \<Rightarrow> 's \<Rightarrow> 's \<Rightarrow> bool"
    and field_of :: "'w \<Rightarrow> 'f"
    and put :: "'w \<Rightarrow> 's \<Rightarrow> 's"
  assumes same_refl: "same f a a"
    and same_trans: "same f a b \<Longrightarrow> same f b c \<Longrightarrow> same f a c"
    and frame: "f \<noteq> field_of x \<Longrightarrow> same f (put x a) a"
begin

lemma fold_frame: "f \<notin> field_of ` set xs \<Longrightarrow> same f (fold put xs a) a"
proof (induction xs arbitrary: a)
  case (Cons x xs)
  then have "same f (fold put xs (put x a)) (put x a)" by simp
  moreover have "same f (put x a) a" using Cons.prems by (intro frame) simp
  ultimately show ?case by (simp add: same_trans)
qed (simp add: same_refl)

lemma first_write_stays:
  "distinct (map field_of (x # xs)) \<Longrightarrow> same (field_of x) (fold put (x # xs) a) (put x a)"
  by (simp add: fold_frame)

end

lemma apply_write_frame: "f \<noteq> target x \<Longrightarrow> agree f (apply_write x st) st"
  by (cases x; cases f) simp_all

interpretation stats_store: field_store agree target apply_write
  by unfold_locales (auto intro: agree_trans apply_write_frame)

lemma writes_of_distinct: "distinct (map target (writes_of budget c h))"
  by (cases "(budget, c, h)" rule: writes_of.cases) simp_all

text \<open>The writes of a fire, made in order, move the statistics as the history says.\<close>

lemma writes_of_stats:
  "fold apply_write (writes_of budget (consecutive (stats_of budget hs)) h) (stats_of budget hs) =
     stats_of budget (hs @ [h])"
proof (cases "(budget, of_nat (streak hs) :: u32, h)" rule: writes_of.cases)
  case (3 b c m)
  then show ?thesis
    using degraded_step [of budget "streak hs"] by (auto simp: stats_of_def add.commute)
qed (auto simp: stats_of_def effective_budget_def)

text \<open>The invariant of the recording side.\<close>

lemma log_whole_fire:
  assumes "log_whole budget hs vs ks"
  shows "log_whole budget (hs @ [h]) vs ks"
  using assms by (auto simp: log_whole_def stats_mix_def intro: le_SucI)

lemma log_whole_write:
  assumes whole: "log_whole budget hs vs ks" and "vs \<noteq> []"
    and new: "agree (target x) (apply_write x (last vs)) (stats_of budget hs)"
  shows "log_whole budget hs (vs @ [apply_write x (last vs)]) (ks @ [(last ks)(target x := length hs)])"
proof -
  let ?n = "length vs"
  have len: "length ks = ?n" using whole by (simp add: log_whole_def)
  then have "ks \<noteq> []" using assms(2) by auto
  then have last: "last vs = vs ! (?n - 1)" "last ks = ks ! (?n - 1)" "?n - 1 < ?n"
    using assms(2) len by (auto simp: last_conv_nth)
  have old: "(ks ! i) f \<le> length hs \<and> agree f (vs ! i) (stats_mix budget hs (ks ! i) f)" if "i < ?n" for i f
    using whole that by (simp add: log_whole_def)
  have mono: "(ks ! i) f \<le> (ks ! j) f" if "i \<le> j" "j < ?n" for i j f
    using whole that by (simp add: log_whole_def)
  have "agree f (apply_write x (last vs)) (stats_mix budget hs ((last ks)(target x := length hs)) f)" for f
  proof (cases "f = target x")
    case False
    then have "agree f (apply_write x (last vs)) (last vs)" by (rule apply_write_frame)
    also have "agree f (last vs) (stats_mix budget hs (last ks) f)" using old [OF last(3)] last(1,2) by simp
    finally show ?thesis using False by (simp add: stats_mix_def)
  qed (simp add: new stats_mix_def)
  moreover have "(ks ! i) f \<le> ((last ks)(target x := length hs)) f" if "i < ?n" for i f
    using old [OF that, of f] mono [of i "?n - 1" f] that last by auto
  ultimately show ?thesis
    using old mono len last by (auto simp: log_whole_def nth_append less_Suc_eq)
qed

lemma record_inv_step:
  assumes "record_step budget t t'" "record_inv budget t ks"
  shows "\<exists>new. record_inv budget t' (ks @ new)"
  using assms(1)
proof cases
  case (record_fire hs vs h)
  with assms(2) have "last vs = stats_of budget hs" by (simp add: record_inv_def)
  with assms(2) record_fire have "record_inv budget t' ks"
    by (simp add: record_inv_def log_whole_fire writes_of_distinct writes_of_stats)
  then show ?thesis by (metis append_Nil2)
next
  case (record_write hs x xs vs)
  have inv: "vs \<noteq> []" "log_whole budget hs vs ks" "target x \<notin> target ` set xs"
      "fold apply_write xs (apply_write x (last vs)) = stats_of budget hs" "distinct (map target xs)"
    using assms(2) record_write by (simp_all add: record_inv_def)
  have "agree (target x) (apply_write x (last vs)) (stats_of budget hs)"
    using stats_store.first_write_stays [of x xs "last vs"] inv(3-5) by (simp add: agree_sym)
  from log_whole_write [OF inv(2,1) this] inv record_write show ?thesis
    by (auto simp: record_inv_def)
qed

lemma record_inv_start: "record_inv budget ([], [], [stats_default]) [\<lambda>_. 0]"
  by (simp add: record_inv_def log_whole_def stats_mix_def stats_of_def stats_default_def effective_budget_def)

interpretation recorder: step_invariant "record_step budget" "\<lambda>t. \<exists>ks. record_inv budget t ks" for budget
  by unfold_locales (blast dest: record_inv_step)

lemma recording_inv: "recording budget t \<Longrightarrow> \<exists>ks. record_inv budget t ks"
  unfolding recording_def using record_inv_start by (blast dest: recorder.kept)

text \<open>The writes of \<open>writes_of\<close> are those of \<open>fire\<close>; a panic of the hook drops the last one.\<close>

lemma record_outcome_writes:
  assumes "record_outcome out self w = (r, self', w')"
  shows "rstats self' = fold apply_write
    (case r of Inr _ \<Rightarrow> writes_of (failure_budget (spec self)) (consecutive (rstats self)) (Some out)
     | Inl _ \<Rightarrow> butlast (writes_of (failure_budget (spec self)) (consecutive (rstats self)) (Some out))) (rstats self)"
proof (cases out)
  case (Failure m)
  with assms show ?thesis
    by (auto simp: Let_def record_last_error_def split: if_splits option.splits prod.splits sum.splits)
qed (use assms in \<open>auto simp: Let_def\<close>)

lemma fire_writes:
  assumes att: "fire_attempt B g h self w = (Inr obs, self1, w1)" and "fire B g h self w = (r, self', w')"
    and ws: "ws = writes_of (failure_budget (spec self)) (consecutive (rstats self)) obs"
  shows "rstats self' = fold apply_write (case r of Inr _ \<Rightarrow> ws | Inl _ \<Rightarrow> butlast ws) (rstats self)"
proof (cases obs)
  case None
  with assms fire_attempt_frame(2) [OF att] show ?thesis by (auto simp: fire_def)
next
  case (Some out)
  have "spec self1 = spec self" using fire_attempt_frame(1) [OF att] by (rule wiring_spec)
  moreover have "record_outcome out self1 w1 = (r, self', w')" using assms Some by (simp add: fire_def)
  ultimately show ?thesis
    using record_outcome_writes [of out self1 w1 r self' w'] fire_attempt_frame(2) [OF att] Some ws
    by (cases r) simp_all
qed

lemma record_writes:
  "vs \<noteq> [] \<Longrightarrow> \<exists>vs'. (record_step budget)\<^sup>*\<^sup>* (hs, xs, vs) (hs, [], vs') \<and> vs' \<noteq> [] \<and>
     last vs' = fold apply_write xs (last vs)"
proof (induction xs arbitrary: vs)
  case (Cons x xs)
  from Cons.IH [of "vs @ [apply_write x (last vs)]"] obtain vs' where
    "(record_step budget)\<^sup>*\<^sup>* (hs, xs, vs @ [apply_write x (last vs)]) (hs, [], vs')" "vs' \<noteq> []"
    "last vs' = fold apply_write xs (apply_write x (last vs))" by auto
  with record_write [of budget hs x xs vs] show ?case by (metis converse_rtranclp_into_rtranclp fold_simps(2))
qed auto

lemma recording_fires:
  assumes "fire_history B g h r hs r'" "rstats r = stats_default"
  shows "\<exists>vs. recording (failure_budget (spec r)) (hs, [], vs) \<and> vs \<noteq> [] \<and> last vs = rstats r'"
  using assms(1)
proof induction
  case history_nil
  have "recording (failure_budget (spec r)) ([], [], [stats_default])" by (simp add: recording_def)
  with assms(2) show ?case by force
next
  case (history_snoc hs r1 w obs r2 w2 r3 w3)
  let ?b = "failure_budget (spec r)"
  obtain vs where vs: "recording ?b (hs, [], vs)" "vs \<noteq> []" "last vs = rstats r1" using history_snoc.IH by blast
  have sp: "spec r1 = spec r" using fire_history_frame [OF history_snoc.hyps(1)] by (rule wiring_spec)
  obtain vs' where vs': "(record_step ?b)\<^sup>*\<^sup>* (hs @ [obs], writes_of ?b (consecutive (last vs)) obs, vs) (hs @ [obs], [], vs')"
      "vs' \<noteq> []" "last vs' = fold apply_write (writes_of ?b (consecutive (last vs)) obs) (last vs)"
    using record_writes [OF vs(2)] by blast
  have "recording ?b (hs @ [obs], [], vs')"
    using vs(1) record_fire [of ?b hs vs obs] vs'(1) unfolding recording_def by (meson rtranclp.rtrancl_into_rtrancl rtranclp_trans)
  moreover have "last vs' = rstats r3" using vs'(3) vs(3) fire_writes [OF history_snoc.hyps(2,3) refl] sp by simp
  ultimately show ?case using vs'(2) by blast
qed

text \<open>The invariant of an observed recording.\<close>

lemma record_step_log:
  "record_step budget (hs, xs, vs) (hs', xs', vs') \<Longrightarrow> \<exists>new. vs' = vs @ new"
  by (auto elim: record_step.cases)

lemma observe_inv_record:
  assumes inv: "observe_inv sp ((hs, xs, vs), ob) ks ms"
    and step: "record_step (failure_budget sp) (hs, xs, vs) (hs', xs', vs')"
  shows "\<exists>ks'. observe_inv sp ((hs', xs', vs'), ob) ks' ms"
proof -
  obtain new where new: "vs' = vs @ new" using record_step_log [OF step] by blast
  have "record_inv (failure_budget sp) (hs, xs, vs) ks" using inv by (simp add: observe_inv_def)
  from record_inv_step [OF step this] obtain ks' where "record_inv (failure_budget sp) (hs', xs', vs') ks'" by blast
  moreover have "vs' ! m f = vs ! m f" if "m \<in> set ms" for m f
  proof -
    have "m f \<le> ob_view ob f" "ob_view ob f < length vs" using inv that by (auto simp: observe_inv_def)
    then show ?thesis by (simp add: new nth_append)
  qed
  ultimately show ?thesis
    using inv by (auto simp: observe_inv_def new intro!: exI [of _ ks'] intro: trans_less_add1)
qed

lemma observe_inv_step:
  assumes "observe_step sp s s'" "observe_inv sp s ks ms"
  shows "\<exists>ks' ms'. observe_inv sp s' ks' ms'"
  using assms(1)
proof cases
  case (ob_record t t' ob)
  obtain hs xs vs hs' xs' vs' where "t = (hs, xs, vs)" "t' = (hs', xs', vs')" by (metis prod_cases3)
  with ob_record assms(2) observe_inv_record show ?thesis by metis
next
  case (ob_load ob f fs i vs hs xs)
  with assms(2) have "observe_inv sp s' ks ms"
    by (auto simp: observe_inv_def) (meson le_trans)+
  then show ?thesis by blast
next
  case (ob_return ob hs xs vs)
  with assms(2) have "observe_inv sp s' ks (ms @ [ob_view ob])"
    by (auto simp: observe_inv_def sorted_wrt_append)
  then show ?thesis by blast
qed

interpretation observer: step_invariant "observe_step sp" "\<lambda>s. \<exists>ks ms. observe_inv sp s ks ms" for sp
  by unfold_locales (blast dest: observe_inv_step)

lemma observe_inv_start: "observe_inv sp (([], [], [stats_default]), observer_new) [\<lambda>_. 0] []"
  by (simp add: observe_inv_def record_inv_start observer_new_def)

lemma observing_inv: "observing sp s \<Longrightarrow> \<exists>ks ms. observe_inv sp s ks ms"
  unfolding observing_def using observe_inv_start by (blast dest: observer.kept)

lemma log_wholeD:
  assumes "log_whole budget hs vs ks"
  shows "i < length vs \<Longrightarrow> (ks ! i) f \<le> length hs" "i < length vs \<Longrightarrow> agree f (vs ! i) (stats_mix budget hs (ks ! i) f)"
    "i \<le> j \<Longrightarrow> j < length vs \<Longrightarrow> (ks ! i) f \<le> (ks ! j) f"
  using assms by (simp_all add: log_whole_def)

lemma snapshots_whole:
  assumes "observing sp ((hs, xs, vs), ob)"
  shows "\<exists>kss. ob_seen ob = map (\<lambda>k. status_loads sp (stats_mix (failure_budget sp) hs k)) kss \<and>
    (\<forall>k \<in> set kss. \<forall>f. k f \<le> length hs) \<and> sorted_wrt (\<lambda>k k'. \<forall>f. k f \<le> k' f) kss"
proof -
  obtain ks ms where inv: "observe_inv sp ((hs, xs, vs), ob) ks ms" using observing_inv [OF assms] by blast
  then have whole: "log_whole (failure_budget sp) hs vs ks" by (simp add: observe_inv_def record_inv_def)
  have ms: "m f < length vs" if "m \<in> set ms" for m f
    using inv that by (auto simp: observe_inv_def intro: le_less_trans)
  define kss where "kss = map (\<lambda>m f. (ks ! m f) f) ms"
  have "status_loads sp (\<lambda>f. vs ! m f) = status_loads sp (stats_mix (failure_budget sp) hs (\<lambda>f. (ks ! m f) f))"
    if "m \<in> set ms" for m
    using log_wholeD(2) [OF whole ms [OF that]] by (intro agree_status) (simp add: stats_mix_def)
  then have "ob_seen ob = map (\<lambda>k. status_loads sp (stats_mix (failure_budget sp) hs k)) kss"
    using inv by (simp add: observe_inv_def kss_def)
  moreover have "sorted_wrt (\<lambda>k k'. \<forall>f. k f \<le> k' f) kss"
    using inv ms log_wholeD(3) [OF whole]
    by (auto simp: kss_def sorted_wrt_map observe_inv_def intro: sorted_wrt_mono_rel [rotated])
  moreover have "\<forall>k \<in> set kss. \<forall>f. k f \<le> length hs" using ms log_wholeD(1) [OF whole] by (auto simp: kss_def)
  ultimately show ?thesis by blast
qed

text \<open>Counts of longer prefixes are not smaller, as long as the counters cannot wrap.\<close>

lemma tally_mono:
  assumes "length hs < 2 ^ 64" "k \<le> k'"
  shows "tally P (take k hs) \<le> tally P (take k' hs)"
proof -
  have "length (filter P (take k hs)) \<le> length (filter P (take k' hs))"
  proof -
    obtain d where "k' = k + d" using assms(2) le_Suc_ex by blast
    then show ?thesis by (simp add: take_add)
  qed
  moreover have "unat (tally P (take n hs)) = length (filter P (take n hs))" for n
    using assms(1) by (intro unat_tally le_less_trans [OF length_filter_le]) simp
  ultimately show ?thesis by (simp add: word_le_nat_alt)
qed

text \<open>A torn snapshot: the second load comes after two writes that follow the first load.\<close>

lemma observe_loads:
  assumes "\<And>f. ob_view ob f \<le> p f \<and> p f < length vs"
  shows "(observe_step sp)\<^sup>*\<^sup>* ((hs, xs, vs), ob\<lparr>ob_todo := fs\<rparr>)
    ((hs, xs, vs), ob\<lparr>ob_view := (\<lambda>f. if f \<in> set fs then p f else ob_view ob f), ob_todo := []\<rparr>)"
  using assms
proof (induction fs arbitrary: ob)
  case (Cons f fs)
  let ?ob = "ob\<lparr>ob_view := (ob_view ob)(f := p f)\<rparr>"
  have "observe_step sp ((hs, xs, vs), ob\<lparr>ob_todo := f # fs\<rparr>) ((hs, xs, vs), ?ob\<lparr>ob_todo := fs\<rparr>)"
    using ob_load [of "ob\<lparr>ob_todo := f # fs\<rparr>" f fs "p f" vs sp hs xs] Cons.prems by simp
  moreover have "(\<lambda>x. if x \<in> set fs then p x else ob_view ?ob x) = (\<lambda>x. if x \<in> set (f # fs) then p x else ob_view ob x)"
    by auto
  ultimately show ?case
    using Cons.IH [of ?ob] Cons.prems by (auto intro: converse_rtranclp_into_rtranclp)
qed simp

text \<open>A status taken while nothing is written reads any one position not behind the view.\<close>

lemma observe_status:
  assumes "\<And>f. ob_view ob f \<le> i" "i < length vs" "ob_todo ob = status_order"
  shows "(observe_step sp)\<^sup>*\<^sup>* ((hs, xs, vs), ob)
    ((hs, xs, vs), ob\<lparr>ob_view := (\<lambda>_. i), ob_todo := status_order, ob_seen := ob_seen ob @ [status_loads sp (\<lambda>_. vs ! i)]\<rparr>)"
proof -
  have same: "ob\<lparr>ob_todo := status_order\<rparr> = ob" using assms(3) by (cases ob) simp
  let ?ob = "ob\<lparr>ob_view := (\<lambda>_. i), ob_todo := []\<rparr>"
  have "(observe_step sp)\<^sup>*\<^sup>* ((hs, xs, vs), ob) ((hs, xs, vs), ?ob)"
    using observe_loads [of ob "\<lambda>_. i" vs sp hs xs status_order] assms(1,2) same by simp
  moreover have "observe_step sp ((hs, xs, vs), ?ob)
      ((hs, xs, vs), ob\<lparr>ob_view := (\<lambda>_. i), ob_todo := status_order, ob_seen := ob_seen ob @ [status_loads sp (\<lambda>_. vs ! i)]\<rparr>)"
    using ob_return [of ?ob sp hs xs vs] by simp
  ultimately show ?thesis by (rule rtranclp.rtrancl_into_rtrancl)
qed

lemma torn_steps:
  "record_step budget ([], [], [stats_default])
     ([Some (Failure m)], writes_of budget 0 (Some (Failure m)), [stats_default])"
  "record_step budget ([Some (Failure m)], writes_of budget 0 (Some (Failure m)), [stats_default])
     ([Some (Failure m)], drop 1 (writes_of budget 0 (Some (Failure m))), take 2 torn_log)"
  "record_step budget ([Some (Failure m)], drop 1 (writes_of budget 0 (Some (Failure m))), take 2 torn_log)
     ([Some (Failure m)], drop 2 (writes_of budget 0 (Some (Failure m))), torn_log)"
proof -
  let ?h = "Some (Failure m)"
  let ?ws = "writes_of budget 0 ?h"
  show "record_step budget ([], [], [stats_default]) ([?h], ?ws, [stats_default])"
    using record_fire [of budget "[]" "[stats_default]" ?h] by (simp add: stats_default_def)
  show "record_step budget ([?h], ?ws, [stats_default]) ([?h], drop 1 ?ws, take 2 torn_log)"
    using record_write [of budget "[?h]" Add_fires "drop 1 ?ws" "[stats_default]"]
    by (simp add: torn_log_def stats_default_def)
  show "record_step budget ([?h], drop 1 ?ws, take 2 torn_log) ([?h], drop 2 ?ws, torn_log)"
    using record_write [of budget "[?h]" Add_failures "drop 2 ?ws" "take 2 torn_log"]
    by (simp add: torn_log_def stats_default_def)
qed

lemma torn_observation:
  "observing sp (([Some (Failure m)], drop 2 (writes_of (failure_budget sp) 0 (Some (Failure m))), torn_log),
     \<lparr>ob_view = torn_view, ob_todo = status_order, ob_seen = [status_loads sp (\<lambda>f. torn_log ! torn_view f)]\<rparr>)"
proof -
  let ?b = "failure_budget sp" and ?h = "Some (Failure m)"
  let ?ws = "writes_of ?b 0 ?h" and ?v0 = "[stats_default]"
  let ?ob = "\<lambda>v fs. \<lparr>ob_view = v, ob_todo = fs, ob_seen = []\<rparr>"
  let ?rest = "[F_skips, F_paused, F_consecutive, F_degraded, F_last_error]"
  have lt: "torn_view f < length torn_log" for f by (simp add: torn_view_def torn_log_def)
  have "observe_step sp (([], [], ?v0), observer_new) (([], [], ?v0), ?ob (\<lambda>_. 0) (F_failures # ?rest))"
    using ob_load [of observer_new F_fires "F_failures # ?rest" 0 ?v0 sp "[]" "[]"]
    by (simp add: observer_new_def status_order_def fun_upd_idem)
  moreover note ob_record [OF torn_steps(1)] ob_record [OF torn_steps(2)] ob_record [OF torn_steps(3)]
  moreover have "observe_step sp (([?h], drop 2 ?ws, torn_log), ?ob (\<lambda>_. 0) (F_failures # ?rest)) (([?h], drop 2 ?ws, torn_log), ?ob torn_view ?rest)"
    using ob_load [of "?ob (\<lambda>_. 0) (F_failures # ?rest)" F_failures ?rest 2 torn_log sp "[?h]" "drop 2 ?ws"]
    by (simp add: torn_view_def torn_log_def)
  moreover have "(observe_step sp)\<^sup>*\<^sup>* (([?h], drop 2 ?ws, torn_log), ?ob torn_view ?rest) (([?h], drop 2 ?ws, torn_log), ?ob torn_view [])"
    using observe_loads [of "?ob torn_view []" torn_view torn_log sp "[?h]" "drop 2 ?ws" ?rest]
    by (simp only: lt if_cancel observer.select_convs observer.update_convs order_refl simp_thms)
  moreover have "observe_step sp (([?h], drop 2 ?ws, torn_log), ?ob torn_view [])
      (([?h], drop 2 ?ws, torn_log), \<lparr>ob_view = torn_view, ob_todo = status_order, ob_seen = [status_loads sp (\<lambda>f. torn_log ! torn_view f)]\<rparr>)"
    using ob_return [of "?ob torn_view []" sp "[?h]" "drop 2 ?ws" torn_log] by simp
  ultimately show ?thesis unfolding observing_def
    by (meson converse_rtranclp_into_rtranclp rtranclp.rtrancl_into_rtrancl)
qed

section \<open>Properties\<close>

text \<open>
  C16: A fire is the sequence of its atomic writes. Once the invocation has an outcome, the
  statistics a fire leaves are those that its writes, made one by one in program order,
  leave; if the degradation hook panics, exactly the last write, the error message, is missing.
\<close>

theorem fire_is_its_writes:
  assumes "fire_attempt B g h self w = (Inr obs, self1, w1)" "fire B g h self w = (r, self', w')"
    and "ws = writes_of (failure_budget (spec self)) (consecutive (rstats self)) obs"
  shows "rstats self' = fold apply_write (case r of Inr _ \<Rightarrow> ws | Inl _ \<Rightarrow> butlast ws) (rstats self)"
  using assms by (rule fire_writes)

theorem fire_is_its_writes_witness:
  "let r = demo_runner\<lparr>spec := demo_spec\<lparr>failure_budget := 1, on_degraded := Some (\<lambda>m n. (Inl User_panic, n))\<rparr>\<rparr>
   in rstats (fst (snd (fire mini_breaker () [] r 0))) =
     fold apply_write [Add_fires, Add_failures, Add_consecutive, Swap_degraded] stats_default"
proof -
  let ?r = "demo_runner\<lparr>spec := demo_spec\<lparr>failure_budget := 1, on_degraded := Some (\<lambda>m n. (Inl User_panic, n))\<rparr>\<rparr>"
  have "\<exists>self1. fire_attempt mini_breaker () [] ?r 0 = (Inr (Some (Failure (lit ''down''))), self1, 1)"
    by (simp add: fire_defs demo_defs job_error_to_string_def job_error_msg_def)
  then obtain self1 where att: "fire_attempt mini_breaker () [] ?r 0 = (Inr (Some (Failure (lit ''down''))), self1, 1)" ..
  have "\<exists>self'. fire mini_breaker () [] ?r 0 = (Inl User_panic, self', 1)"
    by (simp add: fire_defs demo_defs job_error_to_string_def job_error_msg_def)
  then obtain self' where run: "fire mini_breaker () [] ?r 0 = (Inl User_panic, self', 1)" ..
  have st: "rstats ?r = stats_default" "consecutive stats_default = 0" by (simp_all add: demo_defs)
  from fire_is_its_writes [OF att run refl] show ?thesis unfolding Let_def run
    by (simp add: st)
qed

text \<open>
  C6: What a status shows while the job is running. Every field of every snapshot is the
  value that field has after some whole number of the job's fires, never a value in
  between; fields of one snapshot may be at different fires, but from one snapshot of a
  thread to its next no field goes back.
\<close>

theorem status_fields_whole:
  assumes "observing sp ((hs, xs, vs), ob)"
  shows "\<exists>kss. ob_seen ob = map (\<lambda>k. status_loads sp (\<lambda>f. stats_of (failure_budget sp) (take (k f) hs))) kss \<and>
    (\<forall>k \<in> set kss. \<forall>f. k f \<le> length hs) \<and> sorted_wrt (\<lambda>k k'. \<forall>f. k f \<le> k' f) kss"
  using snapshots_whole [OF assms] by (simp add: stats_mix_def [abs_def])

theorem status_fields_whole_witness:
  "\<exists>kss. [status_loads demo_spec (\<lambda>f. torn_log ! torn_view f)] =
      map (\<lambda>k. status_loads demo_spec (\<lambda>f. stats_of (failure_budget demo_spec) (take (k f) [Some (Failure [])]))) kss \<and>
    (\<forall>k \<in> set kss. \<forall>f. k f \<le> 1) \<and> sorted_wrt (\<lambda>k k'. \<forall>f. k f \<le> k' f) kss"
  using status_fields_whole [OF torn_observation [of demo_spec "[]"]] by simp

text \<open>
  A thread that keeps asking for the status never sees a counter of a job go down,
  whatever the loop does meanwhile, as long as the job has not fired \<open>2 ^ 64\<close> times.
\<close>

lemma status_counters_monotone:
  assumes "observing sp ((hs, xs, vs), ob)" "length hs < 2 ^ 64" "i \<le> j" "j < length (ob_seen ob)"
  shows "js_fires (ob_seen ob ! i) \<le> js_fires (ob_seen ob ! j) \<and>
    js_failures (ob_seen ob ! i) \<le> js_failures (ob_seen ob ! j) \<and>
    js_skips (ob_seen ob ! i) \<le> js_skips (ob_seen ob ! j) \<and>
    js_paused (ob_seen ob ! i) \<le> js_paused (ob_seen ob ! j)"
proof -
  obtain kss where kss: "ob_seen ob = map (\<lambda>k. status_loads sp (stats_mix (failure_budget sp) hs k)) kss"
      "sorted_wrt (\<lambda>k k'. \<forall>f. k f \<le> k' f) kss"
    using snapshots_whole [OF assms(1)] by blast
  have "(kss ! i) f \<le> (kss ! j) f" for f
    using sorted_wrt_nth_less [OF kss(2), of i j] assms(3,4) kss(1) by (cases "i = j") auto
  then show ?thesis
    using assms(2,3,4) by (simp add: kss(1) status_loads_def stats_mix_def stats_of_def tally_mono)
qed


end
