(* ===== verification/Cutoff.thy ===== *)
theory Cutoff
  imports Supervisor Snapshots
begin

text \<open>
  \<open>src/supervisor.rs\<close>, the end of \<open>run\<close> at the grain of single loads: when the drain cap
  expires, the loops are aborted, which does not wait for them, and the summaries of the
  jobs not joined are loaded field by field while their loops may still be recording. In
  \<open>Supervisor\<close> the report is one step; here its reads interleave with the writes.
\<close>

section \<open>The report with interleaved loads\<close>

text \<open>\<open>rd i\<close> are the states that the loads of job \<open>i\<close>'s summary come from.\<close>

definition fill_slots_loads ::
    "('w, 'g, 'b) job_runner list \<Rightarrow> job_run_summary option list \<Rightarrow> (nat \<Rightarrow> stat_field \<Rightarrow> stats) \<Rightarrow>
     job_run_summary option list" where
  "fill_slots_loads rs slots rd =
     map (\<lambda>(i, runner, slot). case slot of Some s \<Rightarrow> Some s | None \<Rightarrow> Some (summary_loads (spec runner) (rd i)))
       (enumerate 0 (zip rs slots))"

definition make_report_loads ::
    "('w, 'g, 'b) job_runner list \<Rightarrow> job_run_summary option list \<Rightarrow> (nat \<Rightarrow> stat_field \<Rightarrow> stats) \<Rightarrow> run_report" where
  "make_report_loads rs slots rd =
     \<lparr>per_job = sort_key rs_name (List.map_filter (\<lambda>s. s) (fill_slots_loads rs slots rd))\<rparr>"

text \<open>
  What the loads of an abandoned job may return: the job was registered as \<open>r\<close> and had
  become \<open>r1\<close> at the cap; its loop records on, through any number of further fires and
  possibly into the middle of one, and each load returns some value of its field so far.
\<close>

definition abandoned_loads ::
    "('w, 'b, 'cfg, 'm) breaker_crate \<Rightarrow> 'g \<Rightarrow> ustr \<Rightarrow> ('w, 'g, 'b) job_runner \<Rightarrow> ('w, 'g, 'b) job_runner \<Rightarrow>
     history \<Rightarrow> (stat_field \<Rightarrow> stats) \<Rightarrow> bool" where
  "abandoned_loads B g h r r1 hs' rd \<longleftrightarrow>
     (\<exists>hs vs xs vs'. fire_history B g h r hs r1 \<and> recording (failure_budget (spec r)) (hs, [], vs) \<and>
        last vs = rstats r1 \<and> (record_step (failure_budget (spec r)))\<^sup>*\<^sup>* (hs, [], vs) (hs @ hs', xs, vs') \<and>
        (\<forall>f. rd f \<in> set vs'))"

section \<open>Lemmas\<close>

lemma fill_slots_loads_length [simp]: "length (fill_slots_loads rs slots rd) = min (length rs) (length slots)"
  by (simp add: fill_slots_loads_def)

lemma fill_slots_loads_nth:
  assumes "i < length rs" "length slots = length rs"
  shows "fill_slots_loads rs slots rd ! i =
    Some (case slots ! i of Some s \<Rightarrow> s | None \<Rightarrow> summary_loads (spec (rs ! i)) (rd i))"
  using assms by (auto simp: fill_slots_loads_def nth_enumerate_eq split: option.splits)

lemma make_report_loads_map:
  assumes "length slots = length rs"
  shows "per_job (make_report_loads rs slots rd) = sort_key rs_name
    (map (\<lambda>i. case slots ! i of Some s \<Rightarrow> s | None \<Rightarrow> summary_loads (spec (rs ! i)) (rd i)) [0..<length rs])"
proof -
  have "fill_slots_loads rs slots rd =
      map (\<lambda>i. Some (case slots ! i of Some s \<Rightarrow> s | None \<Rightarrow> summary_loads (spec (rs ! i)) (rd i))) [0..<length rs]"
    by (rule nth_equalityI) (auto simp: fill_slots_loads_nth assms split: option.split)
  then show ?thesis by (simp add: make_report_loads_def map_filter_def comp_def)
qed

text \<open>With nothing being written, the loads give the report of \<open>Supervisor\<close>.\<close>

lemma make_report_loads_quiet:
  assumes "length slots = length rs"
  shows "make_report_loads rs slots (\<lambda>i _. rstats (rs ! i)) = make_report rs slots"
proof -
  have "fill_slots_loads rs slots (\<lambda>i _. rstats (rs ! i)) = fill_slots rs slots"
    by (rule nth_equalityI)
      (auto simp: fill_slots_loads_nth assms summary_loads_quiet fill_slots_def split: option.splits)
  then show ?thesis by (simp add: make_report_loads_def make_report_def)
qed

text \<open>Every value in the log of a recording is whole, field by field.\<close>

lemma recording_loads:
  assumes "recording budget (hs, xs, vs)" "\<And>f. rd f \<in> set vs"
  shows "\<exists>k. (\<forall>f. k f \<le> length hs) \<and> summary_loads sp rd = summary_loads sp (\<lambda>f. stats_of budget (take (k f) hs))"
proof -
  obtain ks where "log_whole budget hs vs ks" using recording_inv [OF assms(1)] by (auto simp: record_inv_def)
  note whole = log_wholeD [OF this]
  have "\<exists>i. i < length vs \<and> rd f = vs ! i" for f using assms(2) [of f] by (auto simp: in_set_conv_nth)
  then obtain m where m: "m f < length vs" "rd f = vs ! m f" for f by metis
  have "summary_loads sp rd = summary_loads sp (\<lambda>f. stats_of budget (take ((ks ! m f) f) hs))"
    using whole(2) [OF m(1)] m(2) by (intro agree_summary) (simp add: stats_mix_def)
  with whole(1) [OF m(1)] show ?thesis by (intro exI [of _ "\<lambda>f. (ks ! m f) f"]) simp
qed

text \<open>The entry of one job in a cut-off report.\<close>

lemma cut_entry:
  assumes inv: "run_inv rs s" and i: "i < length rs" and fresh: "rstats (rs ! i) = stats_default"
    and hist: "\<exists>hs. fire_history B g h (rs ! i) hs (rn_runners s ! i)"
    and loads: "rn_slots s ! i = None \<Longrightarrow> abandoned_loads B g h (rs ! i) (rn_runners s ! i) hs' (rd i)"
    and joined: "rn_slots s ! i \<noteq> None \<Longrightarrow> hs' = []"
  shows "\<exists>hs k. fire_history B g h (rs ! i) hs (rn_runners s ! i) \<and> (\<forall>f. k f \<le> length (hs @ hs')) \<and>
    (rn_slots s ! i \<noteq> None \<longrightarrow> (\<forall>f. k f = length hs)) \<and>
    (case rn_slots s ! i of Some sm \<Rightarrow> sm | None \<Rightarrow> summary_loads (spec (rn_runners s ! i)) (rd i)) =
      summary_loads (spec (rs ! i)) (\<lambda>f. stats_of (failure_budget (spec (rs ! i))) (take (k f) (hs @ hs')))"
proof (cases "rn_slots s ! i")
  case None
  from loads [OF this] obtain hs vs xs vs' where ab: "fire_history B g h (rs ! i) hs (rn_runners s ! i)"
    "recording (failure_budget (spec (rs ! i))) (hs, [], vs)"
    "(record_step (failure_budget (spec (rs ! i))))\<^sup>*\<^sup>* (hs, [], vs) (hs @ hs', xs, vs')" "\<And>f. rd i f \<in> set vs'"
    by (auto simp: abandoned_loads_def)
  have "recording (failure_budget (spec (rs ! i))) (hs @ hs', xs, vs')"
    using ab(2,3) unfolding recording_def by (rule rtranclp_trans)
  from recording_loads [where rd = "rd i" and sp = "spec (rs ! i)", OF this ab(4)] obtain k where "\<forall>f. k f \<le> length (hs @ hs')"
    "summary_loads (spec (rs ! i)) (rd i) =
      summary_loads (spec (rs ! i)) (\<lambda>f. stats_of (failure_budget (spec (rs ! i))) (take (k f) (hs @ hs')))"
    by blast
  moreover have "spec (rn_runners s ! i) = spec (rs ! i)" using fire_history_frame [OF ab(1)] by (rule wiring_spec)
  ultimately show ?thesis using ab(1) None by auto
next
  case (Some sm)
  obtain hs where hs: "fire_history B g h (rs ! i) hs (rn_runners s ! i)" using hist by blast
  have sp: "spec (rn_runners s ! i) = spec (rs ! i)" using fire_history_frame [OF hs] by (rule wiring_spec)
  have "sm = summary (rn_runners s ! i)" using inv i Some by (auto simp: run_inv_def)
  also have "\<dots> = summary_loads (spec (rs ! i)) (\<lambda>_. stats_of (failure_budget (spec (rs ! i))) hs)"
    using summary_loads_quiet [of "rn_runners s ! i"] fire_history_stats [OF hs] fresh sp by simp
  finally show ?thesis using hs Some joined by (intro exI [of _ hs] exI [of _ "\<lambda>_. length hs"]) simp
qed

section \<open>Properties\<close>



end
