(* ===== verification/Drain.thy ===== *)
theory Drain
  imports Cutoff
begin

text \<open>
  \<open>src/supervisor.rs\<close>, the drain cap in time. In \<open>Supervisor\<close> the drain may be given up at
  any moment; here \<open>run\<close> wraps it in \<open>tokio::time::timeout(drain_cap, ..)\<close>: a timer armed
  when the shutdown is observed, which never fires early and gives up only a drain that still
  has loops to join. The monotonic clock is a function of the world (\<open>time\<close>). A cap
  whose deadline is not an \<open>Instant\<close> (more than \<open>2^62\<close> seconds) is left out.
\<close>

section \<open>The timed run\<close>

text \<open>A run state with the deadline of the armed timer; a run step within a phase keeps it and takes time.\<close>

inductive timed_step ::
    "'w host \<Rightarrow> ('sch, 'dt, 'e) cron_crate \<Rightarrow> ('w, 'b, 'cfg, 'm) breaker_crate \<Rightarrow> 'g \<Rightarrow> ustr \<Rightarrow>
     ('w \<Rightarrow> instant) \<Rightarrow> duration \<Rightarrow>
     ('w, 'g, 'b) run_state \<times> instant option \<Rightarrow> ('w, 'g, 'b) run_state \<times> instant option \<Rightarrow> bool"
  for H C B g h time drain_cap where
  timed_run: "run_step H C B g h s s' \<Longrightarrow> rn_phase s' = rn_phase s \<Longrightarrow> time (rn_world s) \<le> time (rn_world s') \<Longrightarrow>
    timed_step H C B g h time drain_cap (s, d) (s', d)"
| timed_shutdown: "rn_phase s = Serving \<Longrightarrow> instant_checked_add (time (rn_world s)) drain_cap = Some t \<Longrightarrow>
    timed_step H C B g h time drain_cap (s, d) (s\<lparr>rn_phase := Draining\<rparr>, Some t)"
| timed_drained: "rn_phase s = Draining \<Longrightarrow> rn_loops s = {} \<Longrightarrow>
    timed_step H C B g h time drain_cap (s, d) (s\<lparr>rn_phase := Reported (make_report (rn_runners s) (rn_slots s))\<rparr>, d)"
| timed_cap: "rn_phase s = Draining \<Longrightarrow> rn_loops s \<noteq> {} \<Longrightarrow> t \<le> time (rn_world s) \<Longrightarrow>
    timed_step H C B g h time drain_cap (s, Some t)
      (s\<lparr>rn_loops := {}, rn_phase := Reported (make_report (rn_runners s) (rn_slots s))\<rparr>, Some t)"

abbreviation timed_reach ::
    "'w host \<Rightarrow> ('sch, 'dt, 'e) cron_crate \<Rightarrow> ('w, 'b, 'cfg, 'm) breaker_crate \<Rightarrow> 'g \<Rightarrow> ustr \<Rightarrow>
     ('w \<Rightarrow> instant) \<Rightarrow> duration \<Rightarrow>
     ('w, 'g, 'b) run_state \<times> instant option \<Rightarrow> ('w, 'g, 'b) run_state \<times> instant option \<Rightarrow> bool" where
  "timed_reach H C B g h time drain_cap \<equiv> (timed_step H C B g h time drain_cap)\<^sup>*\<^sup>*"

inductive_cases timed_step_elim: "timed_step H C B g h time drain_cap (s, d) (s', d')"

section \<open>Invariant\<close>

text \<open>Loops that were joined have ended; the timer is armed in the drain, and a report is due to either end of it.\<close>

definition joined_ended :: "('w, 'g, 'b) run_state \<Rightarrow> bool" where
  "joined_ended s \<longleftrightarrow> (\<forall>i < length (rn_tasks s). i \<notin> rn_loops s \<longrightarrow> \<not> unfinished (rn_tasks s ! i))"

definition timed_inv :: "('w \<Rightarrow> instant) \<Rightarrow> ('w, 'g, 'b) run_state \<times> instant option \<Rightarrow> bool" where
  "timed_inv time sd \<longleftrightarrow> (case sd of (s, d) \<Rightarrow>
     (case rn_phase s of
        Serving \<Rightarrow> d = None \<and> joined_ended s
      | Draining \<Rightarrow> d \<noteq> None \<and> joined_ended s
      | Reported _ \<Rightarrow> d \<noteq> None \<and> (the d \<le> time (rn_world s) \<or> list_all (\<lambda>t. \<not> unfinished t) (rn_tasks s))))"

text \<open>Every timed run is a run: what holds of all runs holds of the timed ones.\<close>

lemma timed_step_run: "timed_step H C B g h time cap (s, d) (s', d') \<Longrightarrow> run_step H C B g h s s'"
  by (elim timed_step_elim) (auto intro: run_step.intros)

lemma timed_reach_run:
  assumes "timed_reach H C B g h time cap (s0, d0) sd"
  shows "run_reach H C B g h s0 (fst sd)"
  using assms
proof (induction rule: rtranclp_induct)
  case base
  show ?case by (simp add: run_init)
next
  case (step y z)
  then show ?case using timed_step_run [of H C B g h time cap "fst y" "snd y" "fst z" "snd z"]
    by (auto intro: run_next)
qed

lemma ended_quantum: "\<not> unfinished t \<Longrightarrow> task_quantum H C B g h t r w = (t', r', w') \<Longrightarrow> t' = t"
  by (cases t) simp_all

lemma joined_ended_step:
  assumes "run_step H C B g h s s'" "rn_phase s' = rn_phase s" "joined_ended s"
  shows "joined_ended s'"
  using assms(1)
proof cases
  case (step_task i t r w)
  have "i \<notin> rn_loops s \<Longrightarrow> t = rn_tasks s ! i"
    using assms(3) step_task(2) ended_quantum [OF _ step_task(4)] by (auto simp: joined_ended_def)
  then show ?thesis
    using assms(3) step_task(1,2) by (auto simp: joined_ended_def nth_list_update)
next
  case (step_join i)
  then show ?thesis using assms(3) by (auto simp: joined_ended_def)
qed (use assms in \<open>auto simp: joined_ended_def\<close>)

lemma reported_step:
  assumes "run_step H C B g h s s'" "rn_phase s = Reported rep" "rn_phase s' = rn_phase s"
  shows "rn_tasks s' = rn_tasks s"
  using assms by cases auto

lemma timed_inv_step:
  assumes "timed_step H C B g h time cap sd sd'" "timed_inv time sd"
  shows "timed_inv time sd'"
  using assms(1)
proof cases
  case (timed_run s s' d)
  then show ?thesis
    using assms(2) joined_ended_step [OF timed_run(3,4)] reported_step [OF timed_run(3) _ timed_run(4)]
    by (cases "rn_phase s") (auto simp: timed_inv_def)
next
  case (timed_shutdown s t d)
  with assms(2) show ?thesis by (auto simp: timed_inv_def joined_ended_def)
next
  case (timed_drained s d)
  with assms(2) show ?thesis by (auto simp: timed_inv_def joined_ended_def list_all_length)
next
  case (timed_cap s t)
  with assms(2) show ?thesis by (auto simp: timed_inv_def)
qed

interpretation timed: step_invariant "timed_step H C B g h time cap" "timed_inv time" for H C B g h time cap
  by unfold_locales (rule timed_inv_step)

lemma timed_inv_start: "timed_inv time (run_start H self w, None)"
proof -
  obtain ts w' where "spawn_seeds H self (runners self) w = (ts, w')" by (meson surj_pair)
  with spawn_seeds_length [OF this] show ?thesis
    by (simp add: timed_inv_def joined_ended_def run_start_def)
qed

text \<open>The deadline is the moment the shutdown was observed plus the cap.\<close>

lemma deadline_origin:
  assumes "timed_reach H C B g h time cap (run_start H self w, None) sd"
  shows "snd sd = Some t \<Longrightarrow> \<exists>s0. timed_reach H C B g h time cap (run_start H self w, None) (s0, None) \<and>
    timed_reach H C B g h time cap (s0, None) sd \<and> rn_phase s0 = Serving \<and>
    instant_checked_add (time (rn_world s0)) cap = Some t"
  using assms
proof (induction rule: rtranclp_induct)
  case (step y z)
  from step.hyps(2) show ?case
  proof cases
    case (timed_shutdown s t' d)
    have "timed_inv time (s, d)" using timed.kept [OF step.hyps(1) timed_inv_start] timed_shutdown(1) by simp
    then have "d = None" using timed_shutdown(3) by (simp add: timed_inv_def)
    with timed_shutdown step.hyps step.prems show ?thesis by (intro exI [of _ s]) auto
  qed (use step in \<open>force intro: rtranclp.rtrancl_into_rtrancl\<close>)+
qed simp

lemma configured_cap:
  "list_all (\<lambda>c. case c of Drain_cap _ \<Rightarrow> False | _ \<Rightarrow> True) ops \<Longrightarrow>
   sv_drain_cap (configured B C ops self) = sv_drain_cap self"
proof (induction ops arbitrary: self)
  case (Cons a ops)
  have "sv_drain_cap (apply_op B C a self) = sv_drain_cap self"
    using Cons.prems by (cases a) (simp_all add: model_defs register_cases)
  with Cons show ?case by (simp add: configured_def)
qed (simp add: configured_def)

lemma demo_cap: "sv_drain_cap demo_supervisor = 30000000000"
  unfolding demo_supervisor_def
  by (subst configured_cap)
    (simp_all add: demo_ops_def worker_supervisor_new_def default_drain_cap_def from_secs_def nanos_per_sec_def)

section \<open>Properties\<close>

text \<open>
  C4: The drain cap is honoured. In every timed run of a supervisor, a report is made with
  the timer armed at the moment \<open>t\<close> that lies \<open>drain_cap\<close> after the shutdown was observed;
  before \<open>t\<close> no loop is abandoned: a report made earlier has waited for every loop to end. In
  either case it is the sorted list of the jobs' live summaries.
\<close>

theorem drain_cap_honoured:
  assumes "timed_reach H C B g h time (sv_drain_cap self) (run_start H self w, None) (s, d)"
    and "rn_phase s = Reported rep"
  shows "\<exists>s0 t. timed_reach H C B g h time (sv_drain_cap self) (run_start H self w, None) (s0, None) \<and>
    timed_reach H C B g h time (sv_drain_cap self) (s0, None) (s, d) \<and> rn_phase s0 = Serving \<and>
    t = time (rn_world s0) + int (sv_drain_cap self) \<and> d = Some t \<and>
    (time (rn_world s) < t \<longrightarrow> list_all (\<lambda>task. \<not> unfinished task) (rn_tasks s)) \<and>
    per_job rep = sort_key rs_name (map summary (rn_runners s))"
proof -
  have tinv: "timed_inv time (s, d)" using assms(1) timed_inv_start by (rule timed.kept)
  then obtain t where t: "d = Some t" using assms(2) by (auto simp: timed_inv_def)
  have "run_reach H C B g h (run_start H self w) s" using timed_reach_run [OF assms(1)] by simp
  then have inv: "run_inv (runners self) s" using run_inv_start by (rule run_inv_reach)
  have "per_job rep = sort_key rs_name (map summary (rn_runners s))"
    using make_report_live [OF inv] inv assms(2) by (auto simp: run_inv_def)
  with deadline_origin [OF assms(1), of t] tinv assms(2) t show ?thesis
    by (auto simp: timed_inv_def instant_checked_add_def split: if_splits)
qed

theorem drain_cap_honoured_witness:
  "\<exists>(s :: (nat, unit, nat \<times> nat) run_state) rep. rn_phase s = Reported rep \<and>
    per_job rep = sort_key rs_name (map summary (rn_runners s)) \<and> \<not> list_all (\<lambda>task. \<not> unfinished task) (rn_tasks s)"
proof -
  let ?cap = "sv_drain_cap demo_supervisor"
  let ?step = "timed_step demo_host empty_cron mini_breaker () [] int ?cap"
  let ?s0 = "run_start demo_host demo_supervisor 0 :: (nat, unit, nat \<times> nat) run_state"
  let ?s1 = "?s0\<lparr>rn_phase := Draining\<rparr>"
  let ?s2 = "?s1\<lparr>rn_world := rn_world ?s0 + ?cap\<rparr>"
  let ?s3 = "?s2\<lparr>rn_loops := {}, rn_phase := Reported (make_report (rn_runners ?s2) (rn_slots ?s2))\<rparr>"
  let ?t = "int (rn_world ?s0) + int ?cap"
  obtain ts w' where spawn: "spawn_seeds demo_host demo_supervisor (runners demo_supervisor) 0 = (ts, w')"
    by (meson surj_pair)
  have two: "length (runners demo_supervisor) = 2" using demo_supervisor_runners by auto
  have start: "rn_phase ?s0 = Serving" "rn_world ?s0 = 0" "rn_loops ?s0 = {0..<2}" "rn_tasks ?s0 = ts" "ts \<noteq> []"
    "unfinished (hd ts)"
    using spawn two demo_supervisor_runners
    by (auto simp: run_start_def demo_host_def model_defs split: prod.splits option.splits)
  have "?step (?s0, None) (?s1, Some ?t)"
    by (rule timed_shutdown) (simp_all add: start demo_cap instant_checked_add_def time_limit_def)
  moreover have "?step (?s1, Some ?t) (?s2, Some ?t)"
    by (rule timed_run [OF step_env]) simp_all
  moreover have "?step (?s2, Some ?t) (?s3, Some ?t)"
    by (rule timed_cap) (simp_all add: start)
  ultimately have run: "?step\<^sup>*\<^sup>* (?s0, None) (?s3, Some ?t)"
    by (blast intro: rtranclp.rtrancl_into_rtrancl)
  have "rn_phase ?s3 = Reported (make_report (rn_runners ?s2) (rn_slots ?s2))" by simp
  note report = drain_cap_honoured [OF run this]
  have "\<not> list_all (\<lambda>task. \<not> unfinished task) (rn_tasks ?s3)"
    using start(4-6) by (cases ts) simp_all
  with report show ?thesis by (intro exI [of _ ?s3] exI [of _ "make_report (rn_runners ?s2) (rn_slots ?s2)"]) auto
qed

end
