(* ===== verification/Pressure.thy ===== *)
theory Pressure
  imports Errors Float64
begin

text \<open>
  \<open>src/pressure.rs\<close>: the memory-pressure watcher: its configuration, the parser of the
  kernel's PSI lines, and the polling loop.

  The parser uses \<open>str::lines\<close>, \<open>trim\<close>, \<open>split_whitespace\<close>, \<open>split_once\<close> and
  \<open>str::parse::<f64>\<close> of the standard library, modelled here on lists of scalar values
  (white space is Unicode's \<open>White_Space\<close>; a decimal literal denotes its exact rational value,
  rounded once). The environment variable, the file system, the shutdown flag, the timer and
  the two callbacks are parameters. The loop may run forever: \<open>watch\<close> returns an option.
\<close>

section \<open>Strings\<close>

definition is_whitespace :: "nat \<Rightarrow> bool" where
  "is_whitespace c \<longleftrightarrow> (9 \<le> c \<and> c \<le> 13) \<or> c = 32 \<or> c = 0x85 \<or> c = 0xA0 \<or> c = 0x1680 \<or>
     (0x2000 \<le> c \<and> c \<le> 0x200A) \<or> c = 0x2028 \<or> c = 0x2029 \<or> c = 0x202F \<or> c = 0x205F \<or> c = 0x3000"

definition trim :: "ustr \<Rightarrow> ustr" where
  "trim s = rev (dropWhile is_whitespace (rev (dropWhile is_whitespace s)))"

definition strip_prefix :: "ustr \<Rightarrow> ustr \<Rightarrow> ustr option" where
  "strip_prefix p s = (if take (length p) s = p then Some (drop (length p) s) else None)"

definition split_once :: "nat \<Rightarrow> ustr \<Rightarrow> (ustr \<times> ustr) option" where
  "split_once c s =
     (case dropWhile (\<lambda>x. x \<noteq> c) s of [] \<Rightarrow> None | _ # v \<Rightarrow> Some (takeWhile (\<lambda>x. x \<noteq> c) s, v))"

definition strip_cr :: "ustr \<Rightarrow> ustr" where
  "strip_cr l = (if l \<noteq> [] \<and> last l = 13 then butlast l else l)"

function str_lines :: "ustr \<Rightarrow> ustr list" where
  "str_lines s =
     (if s = [] then []
      else case dropWhile (\<lambda>c. c \<noteq> 10) s of
          [] \<Rightarrow> [s]
        | _ # t \<Rightarrow> strip_cr (takeWhile (\<lambda>c. c \<noteq> 10) s) # str_lines t)"
  by pat_completeness auto
termination
proof (relation "measure length")
  fix s t :: ustr and x :: nat
  assume "dropWhile (\<lambda>c. c \<noteq> 10) s = x # t"
  then have "length (x # t) \<le> length s" by (metis length_dropWhile_le)
  then show "(t, s) \<in> measure length" by simp
qed simp

function split_whitespace :: "ustr \<Rightarrow> ustr list" where
  "split_whitespace s =
     (let t = dropWhile is_whitespace s in
      if t = [] then []
      else takeWhile (\<lambda>c. \<not> is_whitespace c) t #
           split_whitespace (dropWhile (\<lambda>c. \<not> is_whitespace c) t))"
  by pat_completeness auto
termination
proof (relation "measure length")
  fix s t :: ustr
  assume t: "t = dropWhile is_whitespace s" and ne: "t \<noteq> []"
  then have "\<not> is_whitespace (hd t)" by (simp add: hd_dropWhile)
  then have "length (dropWhile (\<lambda>c. \<not> is_whitespace c) t) < length t"
    using ne by (cases t) (auto simp: le_imp_less_Suc length_dropWhile_le)
  also have "length t \<le> length s" unfolding t by (rule length_dropWhile_le)
  finally show "(dropWhile (\<lambda>c. \<not> is_whitespace c) t, s) \<in> measure length" by simp
qed simp

declare str_lines.simps [simp del] split_whitespace.simps [simp del]

section \<open>Floating-point literals\<close>

text \<open>\<open>Exp ::= [eE] [+-]? Digit+\<close>, or nothing.\<close>

fun parse_exponent :: "ustr \<Rightarrow> int option" where
  "parse_exponent [] = Some 0"
| "parse_exponent (c # s) =
     (if c \<noteq> 101 \<and> c \<noteq> 69 then None
      else let (neg, ds) = (case s of [] \<Rightarrow> (False, [])
             | x # t \<Rightarrow> if x = 45 then (True, t) else if x = 43 then (False, t) else (False, s))
           in if ds = [] \<or> \<not> list_all is_ascii_digit ds then None
              else Some (if neg then - int (digits_value ds) else int (digits_value ds)))"

text \<open>\<open>Number ::= ( Digit+ | Digit+ . Digit* | Digit* . Digit+ ) Exp?\<close>.\<close>

definition parse_number :: "ustr \<Rightarrow> rat option" where
  "parse_number s =
     (let ip = takeWhile is_ascii_digit s;
          r = dropWhile is_ascii_digit s;
          (fp, r') = (case r of
              [] \<Rightarrow> ([], [])
            | c # t \<Rightarrow> if c = 46 then (takeWhile is_ascii_digit t, dropWhile is_ascii_digit t) else ([], r))
      in if ip = [] \<and> fp = [] then None
         else case parse_exponent r' of
             None \<Rightarrow> None
           | Some e \<Rightarrow>
               Some ((of_nat (digits_value ip) + of_nat (digits_value fp) / 10 ^ length fp) * 10 powi e))"

definition to_ascii_lowercase :: "nat \<Rightarrow> nat" where
  "to_ascii_lowercase c = (if 65 \<le> c \<and> c \<le> 90 then c + 32 else c)"

definition parse_f64 :: "ustr \<Rightarrow> f64 option" where
  "parse_f64 s =
     (let (neg, t) = (case s of [] \<Rightarrow> (False, [])
          | c # r \<Rightarrow> if c = 45 then (True, r) else if c = 43 then (False, r) else (False, s));
          low = map to_ascii_lowercase t
      in case parse_number t of
           Some x \<Rightarrow> Some (round_f64 (if neg then - x else x))
         | None \<Rightarrow>
             if low = lit ''nan'' then Some NaN
             else if low = lit ''inf'' \<or> low = lit ''infinity'' then Some (Inf neg)
             else None)"

section \<open>Configuration\<close>

definition default_psi_path :: ustr where
  "default_psi_path = lit ''/proc/pressure/memory''"

definition poll_interval_default :: duration where
  "poll_interval_default = from_secs 5"

definition threshold_default :: f64 where
  "threshold_default = Fin 20"

record pressure_config =
  psi_path :: ustr
  psi_threshold :: f64
  poll_interval :: duration

definition from_env :: "ustr option \<Rightarrow> pressure_config" where
  "from_env var =
     \<lparr>psi_path = (case var of
          Some p \<Rightarrow> if trim p \<noteq> [] then p else default_psi_path
        | None \<Rightarrow> default_psi_path),
      psi_threshold = threshold_default, poll_interval = poll_interval_default\<rparr>"

section \<open>Parsing a PSI file\<close>

record pressure_sample =
  avg10 :: f64
  avg60 :: f64
  avg300 :: f64

fun parse_fields ::
    "ustr list \<Rightarrow> f64 option \<Rightarrow> f64 option \<Rightarrow> f64 option \<Rightarrow> (f64 option \<times> f64 option \<times> f64 option) option" where
  "parse_fields [] a10 a60 a300 = Some (a10, a60, a300)"
| "parse_fields (field # fs) a10 a60 a300 =
     (case split_once 61 field of
        None \<Rightarrow> None
      | Some (key, value_text) \<Rightarrow>
          (case parse_f64 value_text of
             None \<Rightarrow> None
           | Some v \<Rightarrow>
               if key = lit ''avg10'' then parse_fields fs (Some v) a60 a300
               else if key = lit ''avg60'' then parse_fields fs a10 (Some v) a300
               else if key = lit ''avg300'' then parse_fields fs a10 a60 (Some v)
               else parse_fields fs a10 a60 a300))"

fun parse_some_lines :: "ustr list \<Rightarrow> pressure_sample option" where
  "parse_some_lines [] = None"
| "parse_some_lines (line # rest_lines) =
     (case strip_prefix (lit ''some '') (trim line) of
        None \<Rightarrow> parse_some_lines rest_lines
      | Some rest \<Rightarrow>
          (case parse_fields (split_whitespace rest) None None None of
             Some (Some a, Some b, Some c) \<Rightarrow> Some \<lparr>avg10 = a, avg60 = b, avg300 = c\<rparr>
           | _ \<Rightarrow> None))"

definition parse_some :: "ustr \<Rightarrow> pressure_sample option" where
  "parse_some text = parse_some_lines (str_lines text)"

text \<open>\<open>read_to_string\<close> is an argument: the error's text, or the contents.\<close>

definition read_sample ::
    "(ustr \<Rightarrow> 'w \<Rightarrow> (ustr + ustr) \<times> 'w) \<Rightarrow> ustr \<Rightarrow> 'w \<Rightarrow> (ustr + pressure_sample) \<times> 'w" where
  "read_sample read_to_string path w =
     (case read_to_string path w of
        (Inl e, w') \<Rightarrow> (Inl (path @ lit '': '' @ e), w')
      | (Inr text, w') \<Rightarrow>
          (case parse_some text of
             None \<Rightarrow> (Inl (path @ lit '': no parsable `some` line''), w')
           | Some sample \<Rightarrow> (Inr sample, w')))"

section \<open>The watcher\<close>

record 'w watch_env =
  shutdown_flag :: "'w \<Rightarrow> bool \<times> 'w"
  read_to_string :: "ustr \<Rightarrow> 'w \<Rightarrow> (ustr + ustr) \<times> 'w"
  sleep :: "duration \<Rightarrow> 'w \<Rightarrow> 'w"
  callback :: "pressure_sample \<Rightarrow> 'w \<Rightarrow> unit res \<times> 'w"
  on_error :: "(ustr \<Rightarrow> 'w \<Rightarrow> unit res \<times> 'w) option"

text \<open>One reading: the callback under pressure, the error report on failure.\<close>

definition watch_poll :: "'w watch_env \<Rightarrow> pressure_config \<Rightarrow> 'w \<Rightarrow> unit res \<times> 'w" where
  "watch_poll E cfg w =
     (case read_sample (read_to_string E) (psi_path cfg) w of
        (Inr sample, w') \<Rightarrow>
          if f64_ge (avg60 sample) (psi_threshold cfg) then callback E sample w' else (Inr (), w')
      | (Inl e, w') \<Rightarrow> (case on_error E of Some report \<Rightarrow> report e w' | None \<Rightarrow> (Inr (), w')))"

partial_function (option) watch :: "'w watch_env \<Rightarrow> pressure_config \<Rightarrow> 'w \<Rightarrow> (unit res \<times> 'w) option" where
  "watch E cfg w =
     (case shutdown_flag E w of
        (stop, w0) \<Rightarrow>
          if stop then Some (Inr (), w0)
          else case watch_poll E cfg w0 of
              (Inl p, w1) \<Rightarrow> Some (Inl p, w1)
            | (Inr _, w1) \<Rightarrow> watch E cfg (sleep E (poll_interval cfg) w1))"

text \<open>The worlds at the head of the watcher's loop.\<close>

inductive watch_reach :: "'w watch_env \<Rightarrow> pressure_config \<Rightarrow> 'w \<Rightarrow> 'w \<Rightarrow> bool"
  for E cfg w where
  watch_here: "watch_reach E cfg w w"
| watch_again: "watch_reach E cfg w w1 \<Longrightarrow> shutdown_flag E w1 = (False, w2) \<Longrightarrow>
    watch_poll E cfg w2 = (Inr (), w3) \<Longrightarrow> watch_reach E cfg w (sleep E (poll_interval cfg) w3)"

section \<open>Specification\<close>

text \<open>A field read on its own: the key and the number.\<close>

definition field_value :: "ustr \<Rightarrow> (ustr \<times> f64) option" where
  "field_value field =
     (case split_once 61 field of None \<Rightarrow> None | Some (k, v) \<Rightarrow> map_option (Pair k) (parse_f64 v))"

definition sample_of :: "(ustr \<Rightarrow> f64 option) \<Rightarrow> pressure_sample option" where
  "sample_of m =
     (case (m (lit ''avg10''), m (lit ''avg60''), m (lit ''avg300'')) of
        (Some a, Some b, Some c) \<Rightarrow> Some \<lparr>avg10 = a, avg60 = b, avg300 = c\<rparr> | _ \<Rightarrow> None)"

text \<open>
  The documented shape of a PSI file: percentages with two decimals, here given in
  hundredths, then the total stall time, and further lines.
\<close>

definition centi :: "nat \<Rightarrow> ustr" where
  "centi n = decimal (n div 100) @ [46, 48 + n div 10 mod 10, 48 + n mod 10]"

definition psi_fields :: "nat \<Rightarrow> nat \<Rightarrow> nat \<Rightarrow> nat \<Rightarrow> ustr list" where
  "psi_fields a b c tot =
     [lit ''avg10'' @ 61 # centi a, lit ''avg60'' @ 61 # centi b, lit ''avg300'' @ 61 # centi c,
      lit ''total'' @ 61 # decimal tot]"

fun join_spaces :: "ustr list \<Rightarrow> ustr" where
  "join_spaces [] = []"
| "join_spaces [f] = f"
| "join_spaces (f # fs) = f @ 32 # join_spaces fs"

definition psi_body :: "nat \<Rightarrow> nat \<Rightarrow> nat \<Rightarrow> nat \<Rightarrow> ustr \<Rightarrow> ustr" where
  "psi_body a b c tot rest =
     lit ''some '' @ join_spaces (psi_fields a b c tot) @ 10 # rest"

text \<open>The characters of a printed field.\<close>

definition psi_chars :: "ustr \<Rightarrow> bool" where
  "psi_chars s \<longleftrightarrow> (\<forall>c \<in> set s. 32 < c \<and> c < 127)"

text \<open>A watcher for concrete runs: the world counts polls, the file shows 25.00 percent.\<close>

definition demo_watch :: "nat watch_env" where
  "demo_watch =
     \<lparr>shutdown_flag = (\<lambda>n. (3 \<le> n, n)),
      read_to_string = (\<lambda>path n. (Inr (if path = lit ''/dev/null'' then [] else psi_body 1234 2500 50 9 []), n)),
      sleep = (\<lambda>_ n. Suc n), callback = (\<lambda>_ n. (Inr (), n)), on_error = Some (\<lambda>_ n. (Inr (), n))\<rparr>"

section \<open>Lemmas\<close>

text \<open>The field loop keeps the last value of each key and fails on any bad field.\<close>

lemma parse_fields_spec:
  "parse_fields fs a10 a60 a300 =
     (let kvs = map field_value fs; m = map_of (rev (map the kvs));
          pick = (\<lambda>k old. case m k of None \<Rightarrow> old | v \<Rightarrow> v)
      in if None \<in> set kvs then None
         else Some (pick (lit ''avg10'') a10, pick (lit ''avg60'') a60, pick (lit ''avg300'') a300))"
proof (induction fs arbitrary: a10 a60 a300)
  case Nil
  then show ?case by simp
next
  case (Cons f fs)
  have keys: "lit ''avg10'' \<noteq> lit ''avg60''" "lit ''avg10'' \<noteq> lit ''avg300''" "lit ''avg60'' \<noteq> lit ''avg300''"
    by (simp_all add: lit_def)
  show ?case
  proof (cases "field_value f")
    case None
    then show ?thesis by (auto simp: field_value_def Let_def split: option.splits)
  next
    case (Some kv)
    obtain k v where kv: "kv = (k, v)" by (cases kv)
    obtain t where t: "split_once 61 f = Some (k, t)" "parse_f64 t = Some v"
      using Some kv by (auto simp: field_value_def split: option.splits)
    show ?thesis
      using keys by (simp add: t Some kv Cons.IH Let_def map_add_def split: option.splits)
  qed
qed

lemma parse_some_lines_spec:
  "parse_some_lines ls =
     (case List.map_filter (\<lambda>l. strip_prefix (lit ''some '') (trim l)) ls of
        [] \<Rightarrow> None
      | rest # _ \<Rightarrow>
          (let kvs = map field_value (split_whitespace rest)
           in if None \<in> set kvs then None else sample_of (map_of (rev (map the kvs)))))"
proof (induction ls)
  case Nil
  then show ?case by (simp add: map_filter_simps)
next
  case (Cons l ls)
  then show ?case
    by (cases "strip_prefix (lit ''some '') (trim l)")
      (auto simp: map_filter_simps parse_fields_spec sample_of_def Let_def split: option.splits)
qed

text \<open>Digits and decimals.\<close>

lemma takeWhile_digits:
  "list_all is_ascii_digit ds \<Longrightarrow> (r = [] \<or> \<not> is_ascii_digit (hd r)) \<Longrightarrow>
     takeWhile is_ascii_digit (ds @ r) = ds \<and> dropWhile is_ascii_digit (ds @ r) = r"
  by (induction ds) (cases r; auto)+

lemma decimal_all_digits: "list_all is_ascii_digit (decimal n)"
  by (auto simp: list_all_iff decimal_is_digit)

lemma parse_number_decimal: "parse_number (decimal n) = Some (of_nat n)"
proof -
  have tw: "takeWhile is_ascii_digit (decimal n) = decimal n" "dropWhile is_ascii_digit (decimal n) = []"
    using decimal_is_digit by (auto simp: takeWhile_eq_all_conv)
  show ?thesis unfolding parse_number_def tw by (simp add: decimal_value digits_value_def [of "[]"])
qed

lemma parse_number_centi: "parse_number (centi n) = Some (of_nat n / 100)"
proof -
  let ?f = "[48 + n div 10 mod 10, 48 + n mod 10]"
  have digits: "is_ascii_digit (48 + n div 10 mod 10)" "is_ascii_digit (48 + n mod 10)"
    by (auto simp: is_ascii_digit_def)
  have split: "takeWhile is_ascii_digit (centi n) = decimal (n div 100)"
    "dropWhile is_ascii_digit (centi n) = 46 # ?f"
    using takeWhile_digits [OF decimal_all_digits, of "46 # ?f" "n div 100"]
    by (auto simp: centi_def is_ascii_digit_def)
  have "n div 100 = n div 10 div 10" by (simp add: div_mult2_eq [symmetric])
  moreover have "n = 10 * (n div 10) + n mod 10" "n div 10 = 10 * (n div 10 div 10) + n div 10 mod 10" by simp_all
  ultimately have "n = 100 * (n div 100) + (10 * (n div 10 mod 10) + n mod 10)" by linarith
  then have "(of_nat n :: rat) = of_nat (100 * (n div 100) + (10 * (n div 10 mod 10) + n mod 10))"
    by (rule arg_cong)
  then show ?thesis
    by (simp add: parse_number_def split digits decimal_value digits_value_def [of ?f] add_divide_distrib mult.commute)
qed

lemma parse_f64_unsigned:
  assumes "parse_number s = Some x" "s \<noteq> []" "is_ascii_digit (hd s)"
  shows "parse_f64 s = Some (round_f64 x)"
  using assms by (cases s) (auto simp: parse_f64_def is_ascii_digit_def)

lemma decimal_hd: "is_ascii_digit (hd (decimal n @ r))"
  using decimal_is_digit [of "hd (decimal n)" n] by (simp add: hd_append)

lemma parse_f64_centi: "parse_f64 (centi n) = Some (round_f64 (of_nat n / 100))"
  using decimal_hd by (intro parse_f64_unsigned parse_number_centi) (auto simp: centi_def)

lemma parse_f64_decimal: "parse_f64 (decimal n) = Some (round_f64 (of_nat n))"
  using decimal_hd [of n "[]"] by (intro parse_f64_unsigned parse_number_decimal) auto

text \<open>Splitting what was joined.\<close>

lemma str_lines_line: "10 \<notin> set l \<Longrightarrow> str_lines (l @ 10 # r) = strip_cr l # str_lines r"
  by (subst str_lines.simps) (simp add: dropWhile_append takeWhile_append)

lemma split_once_at: "c \<notin> set k \<Longrightarrow> split_once c (k @ c # v) = Some (k, v)"
  by (simp add: split_once_def dropWhile_append takeWhile_append)

lemma split_whitespace_word:
  assumes "w \<noteq> []" "\<forall>c \<in> set w. \<not> is_whitespace c" "s = [] \<or> is_whitespace (hd s)"
  shows "split_whitespace (w @ s) = w # split_whitespace s"
proof -
  have 1: "dropWhile is_whitespace (w @ s) = w @ s" using assms(1,2) by (cases w) auto
  have 2: "takeWhile (\<lambda>c. \<not> is_whitespace c) (w @ s) = w" "dropWhile (\<lambda>c. \<not> is_whitespace c) (w @ s) = s"
    using assms(2,3) by (cases s; auto simp: takeWhile_append dropWhile_append)+
  show ?thesis using assms(1) by (subst split_whitespace.simps) (simp add: 1 2 Let_def)
qed

lemma split_whitespace_space: "split_whitespace (32 # s) = split_whitespace s"
  by (subst (1 2) split_whitespace.simps) (simp add: is_whitespace_def)

lemma split_whitespace_join:
  "\<forall>f \<in> set fs. f \<noteq> [] \<and> (\<forall>c \<in> set f. \<not> is_whitespace c) \<Longrightarrow> split_whitespace (join_spaces fs) = fs"
proof (induction fs rule: join_spaces.induct)
  case 1
  then show ?case by (subst split_whitespace.simps) simp
next
  case (2 f)
  have "split_whitespace [] = []" by (subst split_whitespace.simps) simp
  with 2 split_whitespace_word [of f "[]"] show ?case by simp
next
  case (3 f f' fs)
  have "is_whitespace 32" by (simp add: is_whitespace_def)
  with 3 split_whitespace_word [of f "32 # join_spaces (f' # fs)"] show ?case
    by (simp add: split_whitespace_space)
qed

lemma trim_id: "s = [] \<or> \<not> is_whitespace (hd s) \<and> \<not> is_whitespace (last s) \<Longrightarrow> trim s = s"
proof (cases "s = []")
  case False
  assume "s = [] \<or> \<not> is_whitespace (hd s) \<and> \<not> is_whitespace (last s)"
  with False have "dropWhile is_whitespace s = s" "dropWhile is_whitespace (rev s) = rev s"
    by (simp_all add: dropWhile_eq_self_iff hd_rev)
  then show ?thesis by (simp add: trim_def)
qed (simp add: trim_def)

lemma psi_chars_not_space: "psi_chars s \<Longrightarrow> \<forall>c \<in> set s. \<not> is_whitespace c \<and> c \<noteq> 10 \<and> c \<noteq> 13"
  by (auto simp: psi_chars_def is_whitespace_def)

lemma psi_chars_decimal: "psi_chars (decimal n)"
  using decimal_is_digit by (fastforce simp: psi_chars_def is_ascii_digit_def)

lemma psi_chars_centi: "psi_chars (centi n)"
  using psi_chars_decimal [of "n div 100"] by (auto simp: psi_chars_def centi_def)

lemma psi_fields_chars: "f \<in> set (psi_fields a b c t) \<Longrightarrow> f \<noteq> [] \<and> psi_chars f"
  using psi_chars_decimal psi_chars_centi by (auto simp: psi_fields_def psi_chars_def lit_def)

lemma psi_fields_values:
  "map field_value (psi_fields a b c t) =
     [Some (lit ''avg10'', round_f64 (of_nat a / 100)), Some (lit ''avg60'', round_f64 (of_nat b / 100)),
      Some (lit ''avg300'', round_f64 (of_nat c / 100)), Some (lit ''total'', round_f64 (of_nat t))]"
proof -
  have "61 \<notin> set (lit ''avg10'')" "61 \<notin> set (lit ''avg60'')" "61 \<notin> set (lit ''avg300'')" "61 \<notin> set (lit ''total'')"
    by (simp_all add: lit_def)
  then show ?thesis
    by (simp add: psi_fields_def field_value_def split_once_at parse_f64_centi parse_f64_decimal)
qed

lemma set_join_spaces: "c \<in> set (join_spaces fs) \<Longrightarrow> c = 32 \<or> (\<exists>f \<in> set fs. c \<in> set f)"
  by (induction fs rule: join_spaces.induct) auto

lemma join_spaces_Nil: "join_spaces fs = [] \<Longrightarrow> \<forall>f \<in> set fs. f = []"
  by (induction fs rule: join_spaces.induct) auto

lemma last_join_spaces: "fs \<noteq> [] \<Longrightarrow> last fs \<noteq> [] \<Longrightarrow> last (join_spaces fs) = last (last fs)"
proof (induction fs rule: join_spaces.induct)
  case (3 f f' fs)
  then have "join_spaces (f' # fs) \<noteq> []"
    using join_spaces_Nil [of "f' # fs"] by (metis last_ConsR last_in_set list.discI)
  with 3 show ?case by (simp add: last_append)
qed simp_all

lemma psi_line:
  fixes a b c t
  defines "fs \<equiv> psi_fields a b c t"
  defines "line \<equiv> lit ''some '' @ join_spaces fs"
  shows "10 \<notin> set line" "trim line = line" "strip_cr line = line"
proof -
  have last_fs: "last fs = lit ''total'' @ 61 # decimal t" "fs \<noteq> []" by (simp_all add: fs_def psi_fields_def)
  then have "last (join_spaces fs) = last (decimal t)" by (simp add: last_join_spaces)
  moreover have "join_spaces fs \<noteq> []"
    using join_spaces_Nil [of fs] last_fs by (metis append_is_Nil_conv last_in_set list.discI)
  ultimately have last: "last line = last (decimal t)" by (simp add: line_def)
  have "is_ascii_digit (last (decimal t))" using decimal_is_digit [of "last (decimal t)" t] by simp
  then have end_ok: "\<not> is_whitespace (last line)" "last line \<noteq> 13"
    by (auto simp: last is_ascii_digit_def is_whitespace_def)
  have "10 \<notin> set (join_spaces fs)"
    using set_join_spaces [of 10 fs] psi_fields_chars psi_chars_not_space unfolding fs_def by fastforce
  then show "10 \<notin> set line" by (simp add: line_def lit_def)
  show "trim line = line"
    using end_ok by (intro trim_id) (simp add: line_def lit_def is_whitespace_def)
  show "strip_cr line = line" using end_ok by (simp add: strip_cr_def)
qed

lemma parse_some_psi_body:
  "parse_some (psi_body a b c t rest) =
     Some \<lparr>avg10 = round_f64 (of_nat a / 100), avg60 = round_f64 (of_nat b / 100),
           avg300 = round_f64 (of_nat c / 100)\<rparr>"
proof -
  let ?fs = "psi_fields a b c t"
  have lines: "str_lines (psi_body a b c t rest) = (lit ''some '' @ join_spaces ?fs) # str_lines rest"
    using str_lines_line [OF psi_line(1)] psi_line(3) by (simp add: psi_body_def)
  have prefix: "strip_prefix (lit ''some '') (lit ''some '' @ s) = Some s" for s
    by (simp add: strip_prefix_def)
  have fields: "split_whitespace (join_spaces ?fs) = ?fs"
    using psi_fields_chars psi_chars_not_space by (intro split_whitespace_join) blast
  have keys: "lit ''avg10'' \<noteq> lit ''avg60''" "lit ''avg10'' \<noteq> lit ''avg300''" "lit ''avg60'' \<noteq> lit ''avg300''"
    "lit ''total'' \<noteq> lit ''avg10''" "lit ''total'' \<noteq> lit ''avg60''" "lit ''total'' \<noteq> lit ''avg300''"
    by (simp_all add: lit_def)
  show ?thesis
    unfolding parse_some_def lines parse_some_lines_spec
    using keys by (simp add: map_filter_simps psi_line(2) prefix fields psi_fields_values sample_of_def)
qed

lemma snd_read_sample: "snd (read_sample rd path w) = snd (rd path w)"
  by (auto simp: read_sample_def split: prod.splits sum.splits option.splits)

text \<open>One poll keeps what reading, reporting and a callback under pressure keep.\<close>

lemma watch_poll_invariant:
  assumes "watch_poll E cfg w = (r, w')" "I w"
    and "\<And>v t v'. I v \<Longrightarrow> read_to_string E (psi_path cfg) v = (t, v') \<Longrightarrow> I v'"
    and "\<And>report e v. I v \<Longrightarrow> on_error E = Some report \<Longrightarrow> I (snd (report e v))"
    and "\<And>sample v. I v \<Longrightarrow> avg60 sample \<noteq> NaN \<Longrightarrow> \<not> f64_lt (avg60 sample) (psi_threshold cfg) \<Longrightarrow>
      psi_threshold cfg \<noteq> NaN \<Longrightarrow> I (snd (callback E sample v))"
  shows "I w'"
proof -
  obtain t w1 where t: "read_to_string E (psi_path cfg) w = (t, w1)" by (meson surj_pair)
  have I1: "I w1" using assms(2,3) t by blast
  obtain x where x: "read_sample (read_to_string E) (psi_path cfg) w = (x, w1)"
    using t snd_read_sample [of "read_to_string E" "psi_path cfg" w] by (metis snd_conv surj_pair)
  show ?thesis
  proof (cases x)
    case (Inl e)
    with x assms(1) I1 assms(4) [of w1 _ e] show ?thesis
      by (fastforce simp: watch_poll_def split: option.splits)
  next
    case (Inr sample)
    with x assms(1) I1 assms(5) [of w1 sample] show ?thesis
      by (fastforce simp: watch_poll_def f64_ge_def split: if_splits)
  qed
qed

lemma watch_reach_from:
  assumes "watch_reach E cfg (sleep E (poll_interval cfg) w2) v"
    and "shutdown_flag E w = (False, w1)" "watch_poll E cfg w1 = (Inr (), w2)"
  shows "watch_reach E cfg w v"
  using assms(1)
  by induction (auto intro: watch_reach.intros watch_again [OF watch_here assms(2,3)])

text \<open>Twenty percent is exact in \<open>f64\<close>, and hundredths next to it do not round across it.\<close>

lemma round_f64_20: "round_f64 20 = Fin 20"
  by code_simp

lemma threshold_exact:
  assumes "b < 2 ^ 64"
  shows "f64_ge (round_f64 (of_nat b / 100)) (Fin 20) \<longleftrightarrow> 2000 \<le> b"
proof (cases "b = 2000")
  case True
  then show ?thesis using round_f64_20 by (simp add: f64_ge_def)
next
  case False
  have big: "(of_nat b :: rat) \<le> 2 ^ 64" using assms by (metis less_imp_le of_nat_le_iff of_nat_numeral of_nat_power)
  then have "\<bar>of_nat b / 100 :: rat\<bar> \<le> 2 ^ 200" by simp
  then obtain y where y: "round_f64 (of_nat b / 100) = Fin y"
      "\<bar>y - of_nat b / 100\<bar> \<le> \<bar>of_nat b / 100\<bar> * eps + eta"
    by (rule round_f64_finite)
  have e: "eps \<le> 1 / 100000000" "eta \<le> 1 / 100000000" by (simp_all add: eps_def eta_def)
  have "of_nat b * eps \<le> of_nat b * (1 / 100000000)" using e(1) by (intro mult_left_mono) simp_all
  then have close: "\<bar>y - of_nat b / 100\<bar> \<le> of_nat b / 10000000000 + 1 / 100000000"
    using y(2) e(2) by simp
  show ?thesis
  proof (cases "b < 2000")
    case True
    then have "(of_nat b :: rat) \<le> of_nat 1999" by (simp only: of_nat_le_iff)
    with close True y(1) show ?thesis by (simp add: f64_ge_def abs_le_iff)
  next
    case False
    with \<open>b \<noteq> 2000\<close> have "(of_nat 2001 :: rat) \<le> of_nat b" by (simp only: of_nat_le_iff)
    with close False y(1) show ?thesis by (simp add: f64_ge_def abs_le_iff)
  qed
qed

section \<open>Properties\<close>

text \<open>
  C25: Reading back what the kernel prints. For any averages (in hundredths of a percent),
  total and further lines, the parser returns exactly the three averages of the \<open>some\<close> line,
  each the \<open>f64\<close> nearest to the printed decimal.
\<close>

theorem psi_round_trip:
  "parse_some (psi_body a b c t rest) =
     Some \<lparr>avg10 = round_f64 (of_nat a / 100), avg60 = round_f64 (of_nat b / 100),
           avg300 = round_f64 (of_nat c / 100)\<rparr>"
  by (rule parse_some_psi_body)

text \<open>
  C27: The parser on every input. The first line that, trimmed, starts with \<open>some\<close> and a
  space decides: if each of its fields is a key, an equals sign and a number, the result
  holds the last value of each of the three keys, provided all three occur; any bad field
  or missing key gives \<open>None\<close>, and later lines are not looked at.
\<close>

theorem parse_some_first_line:
  "parse_some text =
     (case List.map_filter (\<lambda>l. strip_prefix (lit ''some '') (trim l)) (str_lines text) of
        [] \<Rightarrow> None
      | rest # _ \<Rightarrow>
          (let kvs = map field_value (split_whitespace rest); m = map_of (rev (map the kvs))
           in if None \<in> set kvs then None
              else case (m (lit ''avg10''), m (lit ''avg60''), m (lit ''avg300'')) of
                  (Some a, Some b, Some c) \<Rightarrow> Some \<lparr>avg10 = a, avg60 = b, avg300 = c\<rparr>
                | _ \<Rightarrow> None))"
  unfolding parse_some_def parse_some_lines_spec sample_of_def Let_def by (rule refl)

text \<open>
  C26: The pressure gate is exact. With the default threshold, a poll of a file the kernel
  printed calls the callback, once and with the parsed sample, iff the printed 60-second
  average is at least 20.00 percent; rounding to \<open>f64\<close> never moves a reading across it.
\<close>

theorem pressure_gate_exact:
  assumes "read_to_string E (psi_path cfg) w = (Inr (psi_body a b c t rest), w')"
    and "psi_threshold cfg = threshold_default" "b < 2 ^ 64"
  shows "watch_poll E cfg w =
    (if 2000 \<le> b
     then callback E \<lparr>avg10 = round_f64 (of_nat a / 100), avg60 = round_f64 (of_nat b / 100),
                      avg300 = round_f64 (of_nat c / 100)\<rparr> w'
     else (Inr (), w'))"
  using assms threshold_exact [OF assms(3)]
  by (simp add: watch_poll_def read_sample_def parse_some_psi_body threshold_default_def)

theorem pressure_gate_exact_witness:
  "watch_poll demo_watch (from_env None) 0 =
    (if 2000 \<le> (2500::nat)
     then callback demo_watch \<lparr>avg10 = round_f64 (of_nat 1234 / 100), avg60 = round_f64 (of_nat 2500 / 100),
                      avg300 = round_f64 (of_nat 50 / 100)\<rparr> 0
     else (Inr (), 0))"
  by (rule pressure_gate_exact [where t = 9 and rest = "[]"])
    (simp_all add: demo_watch_def from_env_def default_psi_path_def lit_def)

text \<open>
  C28: The callback sees only pressure. At every moment of a watch an invariant of the world
  holds that polling, sleeping, error reports and those callbacks keep whose sample's 60-second
  average is a number at or above the threshold: no other callback is ever made.
\<close>

theorem callback_only_under_pressure:
  assumes "watch_reach E cfg w w'" "I w"
    and "\<And>v b v'. I v \<Longrightarrow> shutdown_flag E v = (b, v') \<Longrightarrow> I v'"
    and "\<And>v t v'. I v \<Longrightarrow> read_to_string E (psi_path cfg) v = (t, v') \<Longrightarrow> I v'"
    and "\<And>v. I v \<Longrightarrow> I (sleep E (poll_interval cfg) v)"
    and "\<And>report e v. I v \<Longrightarrow> on_error E = Some report \<Longrightarrow> I (snd (report e v))"
    and "\<And>sample v. I v \<Longrightarrow> avg60 sample \<noteq> NaN \<Longrightarrow> \<not> f64_lt (avg60 sample) (psi_threshold cfg) \<Longrightarrow>
      psi_threshold cfg \<noteq> NaN \<Longrightarrow> I (snd (callback E sample v))"
  shows "I w'"
  using assms(1)
proof induction
  case watch_here
  show ?case by (rule assms(2))
next
  case (watch_again w1 w2 w3)
  have "I w2" using assms(3) watch_again by blast
  with watch_again(3) have "I w3"
    by (rule watch_poll_invariant) (use assms(4,6,7) in blast)+
  then show ?case by (rule assms(5))
qed

theorem callback_only_under_pressure_witness:
  "watch_reach (demo_watch\<lparr>sleep := \<lambda>_ n. min 3 (Suc n)\<rparr>) (from_env None) 0 1 \<and> (1::nat) \<le> 3"
proof -
  let ?E = "demo_watch\<lparr>sleep := \<lambda>_ n. min 3 (Suc n)\<rparr>"
  have "watch_poll ?E (from_env None) 0 = (Inr (), 0)"
    by (simp add: watch_poll_def read_sample_def demo_watch_def parse_some_psi_body from_env_def default_psi_path_def lit_def)
  then have "watch_reach ?E (from_env None) 0 (sleep ?E (poll_interval (from_env None)) 0)"
    by (rule watch_again [OF watch_here, where ?w2.0 = 0, rotated]) (simp add: demo_watch_def)
  then have run: "watch_reach ?E (from_env None) 0 1" by simp
  have "(1::nat) \<le> 3"
    by (rule callback_only_under_pressure [OF run, where I = "\<lambda>n. n \<le> 3"]) (auto simp: demo_watch_def)
  with run show ?thesis by blast
qed

text \<open>
  C29: The watcher stops on shutdown. If every poll that does not see the flag brings the
  flag one step closer, the watch ends, and when its callbacks do not panic it ends by
  returning, with the flag seen, after finitely many polls and no further effect.
\<close>

theorem watch_returns:
  assumes "\<And>v v' r v''. shutdown_flag E v = (False, v') \<Longrightarrow> watch_poll E cfg v' = (r, v'') \<Longrightarrow>
      r = Inr () \<and> pending (sleep E (poll_interval cfg) v'') < (pending v :: nat)"
  shows "\<exists>v v'. watch_reach E cfg w v \<and> shutdown_flag E v = (True, v') \<and> watch E cfg w = Some (Inr (), v')"
proof (induction "pending w" arbitrary: w rule: less_induct)
  case less
  obtain stop w1 where f: "shutdown_flag E w = (stop, w1)" by (meson surj_pair)
  show ?case
  proof (cases stop)
    case True
    with f show ?thesis by (intro exI [of _ w] exI [of _ w1]) (simp add: watch_here watch.simps)
  next
    case False
    obtain r w2 where p: "watch_poll E cfg w1 = (r, w2)" by (meson surj_pair)
    let ?next = "sleep E (poll_interval cfg) w2"
    have r: "r = Inr ()" and dec: "pending ?next < pending w" using assms f p False by auto
    from less [OF dec] obtain v v' where "watch_reach E cfg ?next v" "shutdown_flag E v = (True, v')"
        "watch E cfg ?next = Some (Inr (), v')" by blast
    moreover have "watch E cfg w = watch E cfg ?next"
      using f p r False by (subst watch.simps) simp
    ultimately show ?thesis
      using watch_reach_from [of E cfg w2 v w w1] f p r False by auto
  qed
qed

theorem watch_returns_witness:
  "\<exists>v v'. watch_reach demo_watch (from_env None) 0 v \<and> shutdown_flag demo_watch v = (True, v') \<and>
     watch demo_watch (from_env None) 0 = Some (Inr (), v')"
  by (rule watch_returns [where pending = "\<lambda>n. 3 - n"])
    (auto simp: watch_poll_def read_sample_def demo_watch_def parse_some_psi_body from_env_def
      default_psi_path_def lit_def split: if_splits)

text \<open>
  C40: \<open>/dev/null\<close> does not turn the watcher off. With the environment variable set to the
  protocol's off spelling and a file that reads as empty, a poll takes the error branch,
  reports that no \<open>some\<close> line was found, and the loop goes on to the next poll.
\<close>

theorem dev_null_keeps_polling:
  assumes "shutdown_flag E w = (False, w1)"
    and "read_to_string E (lit ''/dev/null'') w1 = (Inr [], w2)"
    and "on_error E = Some report"
      "report (lit ''/dev/null: no parsable `some` line'') w2 = (Inr (), w3)"
  shows "watch E (from_env (Some (lit ''/dev/null''))) w =
    watch E (from_env (Some (lit ''/dev/null''))) (sleep E (from_secs 5) w3)"
proof -
  let ?cfg = "from_env (Some (lit ''/dev/null''))"
  have cfg: "psi_path ?cfg = lit ''/dev/null''" "poll_interval ?cfg = from_secs 5"
    by (simp_all add: from_env_def poll_interval_default_def trim_id lit_def is_whitespace_def)
  have "parse_some [] = None" by (simp add: parse_some_def str_lines.simps)
  moreover have "lit ''/dev/null'' @ lit '': no parsable `some` line'' = lit ''/dev/null: no parsable `some` line''"
    by (simp add: lit_def)
  ultimately have "watch_poll E ?cfg w1 = (Inr (), w3)"
    using assms(2-4) by (simp add: watch_poll_def read_sample_def cfg)
  with assms(1) show ?thesis by (subst watch.simps) (simp add: cfg)
qed

theorem dev_null_keeps_polling_witness:
  "watch demo_watch (from_env (Some (lit ''/dev/null''))) 0 =
   watch demo_watch (from_env (Some (lit ''/dev/null''))) (sleep demo_watch (from_secs 5) 0)"
  by (rule dev_null_keeps_polling) (simp_all add: demo_watch_def)

end
