(* ===== verification/Unit_Tests.thy ===== *)
theory Unit_Tests
  imports Supervisor Pressure
begin

text \<open>
  The unit tests of the crate, run on the model. Each definition translates one test
  function of a \<open>tests\<close> module, under its name: the inputs are those of the test, the value
  is the conjunction of its assertions. The lemma after it shows that the model passes.

  Clock readings and third-party code are arguments here too: the breaker tests get the
  breaker crate as an argument, and are passed by instances that trip, cool down and probe as
  the configuration of the test asks, and the cron tests by an instance that knows the
  schedules they use.
\<close>

section \<open>\<open>src/error.rs\<close>\<close>

definition str_contains :: "ustr \<Rightarrow> ustr \<Rightarrow> bool" where
  "str_contains s pat \<longleftrightarrow> list_ex (\<lambda>i. take (length pat) (drop i s) = pat) [0..<Suc (length s)]"

definition valid_names_pass :: bool where
  "valid_names_pass \<longleftrightarrow>
     list_all is_valid_name [lit ''a'', lit ''metrics-rollup'', lit ''nightly_reindex.v2'', lit ''x-9_z.w'']"

definition invalid_names_fail :: bool where
  "invalid_names_fail \<longleftrightarrow>
     list_all (\<lambda>name. \<not> is_valid_name name)
       [lit '''', lit ''UPPER'', lit ''has space'', lit ''slash/ed'', lit ''bang!'',
        lit ''unicode-'' @ [0xE9], lit ''tab'' @ [9]]"

definition name_length_bounds :: bool where
  "name_length_bounds \<longleftrightarrow>
     is_valid_name (concat (replicate name_max_len (lit ''a''))) \<and>
     \<not> is_valid_name (concat (replicate (name_max_len + 1) (lit ''a'')))"

definition invalid_name_error_display :: "(nat \<Rightarrow> bool) \<Rightarrow> bool" where
  "invalid_name_error_display plain \<longleftrightarrow>
     (let err = InvalidName (lit ''BAD!'') :: unit register_error
      in str_contains (register_error_display plain err) (lit ''BAD!'') \<and>
         str_contains (register_error_display plain err) (lit ''invalid job name''))"

definition job_error_display_and_conversions :: bool where
  "job_error_display_and_conversions \<longleftrightarrow>
     job_error_to_string (job_error_msg (lit ''boom 1'')) = lit ''boom 1'' \<and>
     job_error_to_string (job_error_from (lit ''io down'')) = lit ''io down'' \<and>
     into_inner (job_error_msg (lit ''keep me'')) = lit ''keep me''"

lemma valid_names_pass_ok: valid_names_pass
  by code_simp

lemma invalid_names_fail_ok: invalid_names_fail
  by code_simp

lemma name_length_bounds_ok: name_length_bounds
  by code_simp

text \<open>\<open>Debug\<close> prints every printable ASCII character other than the quote and the backslash as it is.\<close>

lemma invalid_name_error_display_ok:
  assumes "\<And>c. 32 \<le> c \<Longrightarrow> c < 127 \<Longrightarrow> plain c"
  shows "invalid_name_error_display plain"
proof -
  have "debug_str plain (lit ''BAD!'') = lit [CHR 0x22, CHR ''B'', CHR ''A'', CHR ''D'', CHR ''!'', CHR 0x22]"
    by (simp add: debug_str_def lit_def escape_debug_def assms)
  then show ?thesis
    unfolding invalid_name_error_display_def Let_def register_error_display.simps by (simp only:) code_simp
qed

lemma job_error_display_and_conversions_ok: job_error_display_and_conversions
  by code_simp

section \<open>\<open>src/job.rs\<close>\<close>

definition noop :: "('w, 'g) job" where
  "noop ctx w = (Returns (Inr ()), w)"

definition new_fills_documented_defaults :: bool where
  "new_fills_documented_defaults \<longleftrightarrow>
     (let s = job_spec_new (lit ''sweep'') (Interval (from_secs 1)) noop :: (unit, unit) job_spec
      in spec_name s = lit ''sweep'' \<and> failure_budget s = default_failure_budget \<and>
         failure_budget s = 5 \<and> \<not> leader s)"

lemma new_fills_documented_defaults_ok: new_fills_documented_defaults
  by (simp add: new_fills_documented_defaults_def job_spec_new_def default_failure_budget_def)

definition context_is_cloneable_and_debuggable :: "(nat \<Rightarrow> bool) \<Rightarrow> ('g \<Rightarrow> bool) \<Rightarrow> 'g \<Rightarrow> bool" where
  "context_is_cloneable_and_debuggable plain is_shutdown guard \<longleftrightarrow>
     (let ctx = \<lparr>worker_name = lit ''sweep'', ctx_trigger = Interval (from_secs 1), ctx_shutdown = guard\<rparr>;
          clone = ctx
      in worker_name clone = lit ''sweep'' \<and> str_contains (debug_job_context plain is_shutdown ctx) (lit ''sweep''))"

lemma str_contains_append: "str_contains (xs @ pat @ ys) pat"
proof -
  have "take (length pat) (drop (length xs) (xs @ pat @ ys)) = pat" by simp
  then show ?thesis unfolding str_contains_def list_ex_iff by (intro bexI [of _ "length xs"]) auto
qed

lemma context_is_cloneable_and_debuggable_ok:
  assumes "\<And>c. 32 \<le> c \<Longrightarrow> c < 127 \<Longrightarrow> plain c"
  shows "context_is_cloneable_and_debuggable plain is_shutdown guard"
proof -
  have "debug_str plain (lit ''sweep'') = [34] @ lit ''sweep'' @ [34]"
    by (simp add: debug_str_def lit_def escape_debug_def assms)
  then show ?thesis
    using str_contains_append [of "lit ''JobContext { worker_name: '' @ [34]" "lit ''sweep''"]
    by (simp add: context_is_cloneable_and_debuggable_def debug_job_context_def)
qed

section \<open>\<open>src/leader/\<close>\<close>

text \<open>The Lua text; \<open>renew_lua\<close> is its meaning.\<close>

definition renew_lua_text :: ustr where
  "renew_lua_text =
     lit ''if redis.call('' @ [39] @ lit ''get'' @ [39] @ lit '', KEYS[1]) == ARGV[1] then '' @
     lit ''return redis.call('' @ [39] @ lit ''pexpire'' @ [39] @ lit '', KEYS[1], ARGV[2]) else return 0 end''"

definition renew_script_compares_then_extends :: bool where
  "renew_script_compares_then_extends \<longleftrightarrow>
     str_contains renew_lua_text (lit ''get'' @ [39] @ lit '', KEYS[1]'') \<and>
     str_contains renew_lua_text (lit ''pexpire'' @ [39] @ lit '', KEYS[1], ARGV[2]'')"

lemma renew_script_compares_then_extends_ok: renew_script_compares_then_extends
  by code_simp

definition memory_lease_always_wins :: bool where
  "memory_lease_always_wins \<longleftrightarrow>
     fst (acquire memory_lease (lit ''holder-a'') (from_secs 1) ()) \<and>
     fst (renew memory_lease (lit ''holder-a'') (from_secs 1) ()) \<and>
     fst (acquire memory_lease (lit ''holder-b'') (from_secs 1) ())"

definition ttl_ms_saturates_and_is_precise_in_range :: bool where
  "ttl_ms_saturates_and_is_precise_in_range \<longleftrightarrow>
     ttl_ms (from_millis 1500) = 1500 \<and>
     ttl_ms (from_secs ((2 ^ 64 - 1) div 1000)) = 2 ^ 63 - 1 \<and>
     ttl_ms duration_max = 2 ^ 63 - 1"

lemma memory_lease_always_wins_ok: memory_lease_always_wins
  by (simp add: memory_lease_always_wins_def memory_lease_def)

lemma ttl_ms_saturates_and_is_precise_in_range_ok: ttl_ms_saturates_and_is_precise_in_range
  by (simp add: ttl_ms_saturates_and_is_precise_in_range_def ttl_ms_def as_millis_def from_millis_def
      from_secs_def duration_max_def nanos_per_sec_def)

section \<open>\<open>src/trigger.rs\<close>\<close>

definition default_policy_matches_documented_fraction :: bool where
  "default_policy_matches_documented_fraction \<longleftrightarrow>
     fraction jitter_policy_default = default_jitter_fraction \<and>
     default_jitter_fraction = round_f64 (2 / 10)"

definition new_clamps_fraction :: bool where
  "new_clamps_fraction \<longleftrightarrow>
     fraction (jitter_policy_new (round_f64 (- 1))) = round_f64 0 \<and>
     fraction (jitter_policy_new (round_f64 (5 / 10))) = round_f64 (5 / 10) \<and>
     fraction (jitter_policy_new (round_f64 7)) = round_f64 1 \<and>
     fraction (jitter_policy_new NaN) = round_f64 0"

definition window_is_fraction_of_gap_saturated :: bool where
  "window_is_fraction_of_gap_saturated \<longleftrightarrow>
     window (jitter_policy_new (round_f64 (25 / 100))) (from_secs 8) = Inr (from_secs 2) \<and>
     window (jitter_policy_new (round_f64 2)) (from_secs 4) = Inr (from_secs 4) \<and>
     window (jitter_policy_new (round_f64 (9 / 10))) 0 = Inr 0"

lemma default_policy_matches_documented_fraction_ok: default_policy_matches_documented_fraction
  by (simp add: default_policy_matches_documented_fraction_def jitter_policy_default_def default_jitter_fraction_def)

lemma new_clamps_fraction_ok: new_clamps_fraction
  by code_simp

lemma window_whole_secs:
  assumes "f64_mul (fraction p) (f64_add (round_f64 (of_nat n)) (Fin 0)) = Fin (of_nat m)" "m < 2 ^ 64"
  shows "window p (from_secs n) = Inr (from_secs (min m n))"
proof -
  have "as_secs_f64 (from_secs n) = f64_add (round_f64 (of_nat n)) (Fin 0)"
    by (simp add: as_secs_f64_def from_secs_def nanos_per_sec_def)
  moreover have "round_half_even (of_nat m * of_nat nanos_per_sec) = int (from_secs m)"
    using round_half_even_of_int [of "int (from_secs m)"] by (simp add: from_secs_def)
  moreover have "(of_nat m :: rat) < of_nat (2 ^ 64)" using assms(2) by (simp only: of_nat_less_iff)
  ultimately show ?thesis
    using assms(1)
    by (simp add: window_def mul_f64_def from_secs_f64_def min_def) (simp add: from_secs_def nanos_per_sec_def)
qed

lemma window_is_fraction_of_gap_saturated_ok: window_is_fraction_of_gap_saturated
proof -
  have "f64_mul (fraction (jitter_policy_new (round_f64 (25 / 100)))) (f64_add (round_f64 8) (Fin 0)) = Fin 2"
    "f64_mul (fraction (jitter_policy_new (round_f64 2))) (f64_add (round_f64 4) (Fin 0)) = Fin 4"
    "f64_mul (fraction (jitter_policy_new (round_f64 (9 / 10)))) (f64_add (round_f64 0) (Fin 0)) = Fin 0"
    by code_simp+
  then show ?thesis
    using window_whole_secs [of "jitter_policy_new (round_f64 (25 / 100))" 8 2]
      window_whole_secs [of "jitter_policy_new (round_f64 2)" 4 4]
      window_whole_secs [of "jitter_policy_new (round_f64 (9 / 10))" 0 0]
    by (simp add: window_is_fraction_of_gap_saturated_def) (simp add: from_secs_def)
qed

definition jitter_seeded_is_deterministic_and_bounded :: bool where
  "jitter_seeded_is_deterministic_and_bounded \<longleftrightarrow>
     (let policy = jitter_policy_default; gap = from_secs 30
      in case window policy gap of
           Inl _ \<Rightarrow> False
         | Inr bound \<Rightarrow>
             list_all (\<lambda>seed. case jitter_seeded policy gap (of_nat seed) of
               Inl _ \<Rightarrow> False | Inr delay \<Rightarrow> delay \<le> bound) [0..<64] \<and>
             jitter_seeded policy gap 42 = jitter_seeded policy gap 42 \<and>
             jitter_seeded policy gap 42 \<noteq> jitter_seeded policy gap 43)"

definition zero_fraction_is_exact :: bool where
  "zero_fraction_is_exact \<longleftrightarrow>
     jitter_seeded (jitter_policy_new (round_f64 0)) (from_secs 5) 7 = Inr 0"

definition clock_seed_is_mixing :: "system_time \<Rightarrow> system_time \<Rightarrow> bool" where
  "clock_seed_is_mixing now1 now2 \<longleftrightarrow>
     (let a = clock_seed now1; b = clock_seed now2
      in a \<noteq> b \<and> mix64 0 \<noteq> 0 \<and> mix64 123 = mix64 123)"

definition interval_tick_is_clamped_to_minimum ::
    "('sch, 'dt, 'e) cron_crate \<Rightarrow> system_time \<Rightarrow> bool" where
  "interval_tick_is_clamped_to_minimum C now \<longleftrightarrow>
     (case next_fire_after C (Interval 0) now of
        Inr (Some next) \<Rightarrow> duration_since next now = Inr min_interval
      | _ \<Rightarrow> False)"

text \<open>The property test: one case of it, and all of its cases.\<close>

definition jitter_stays_within_the_window :: "nat \<Rightarrow> f64 \<Rightarrow> u64 \<Rightarrow> bool" where
  "jitter_stays_within_the_window gap_ms fraction_arg seed \<longleftrightarrow>
     (let policy = jitter_policy_new fraction_arg; gap = from_millis gap_ms
      in case window policy gap of
           Inl _ \<Rightarrow> False
         | Inr bound \<Rightarrow> bound \<le> gap \<and>
             (case jitter_seeded policy gap seed of
                Inl _ \<Rightarrow> False
              | Inr delay \<Rightarrow> delay \<le> bound \<and> Inr delay = jitter_seeded policy gap seed))"

definition interval_validation_always_passes :: "('sch, 'dt, 'e) cron_crate \<Rightarrow> bool" where
  "interval_validation_always_passes C \<longleftrightarrow>
     validate C (Interval 0) = Inr () \<and> validate C (Interval (from_secs 1)) = Inr ()"

text \<open>
  The cron tests. \<open>utc_secs\<close> builds a date-time through chrono; a schedule here is the length
  of its period in seconds.
\<close>

type_synonym utc_secs = "nat \<Rightarrow> nat \<Rightarrow> nat \<Rightarrow> nat \<Rightarrow> nat \<Rightarrow> nat \<Rightarrow> system_time"

definition cron_tick_is_strictly_future_and_on_schedule ::
    "('sch, 'dt, 'e) cron_crate \<Rightarrow> utc_secs \<Rightarrow> bool" where
  "cron_tick_is_strictly_future_and_on_schedule C utc_secs \<longleftrightarrow>
     (let trigger = Cron (lit ''0/15 * * * * *''); base = utc_secs 2026 9 26 12 0 3
      in case next_fire_after C trigger base of
           Inr (Some next) \<Rightarrow> duration_since next base = Inr (from_secs 12) \<and>
             (case next_fire_after C trigger next of
                Inr (Some after_that) \<Rightarrow> duration_since after_that next = Inr (from_secs 15)
              | _ \<Rightarrow> False)
         | _ \<Rightarrow> False)"

definition cron_validation_rejects_garbage :: "('sch, 'dt, 'e) cron_crate \<Rightarrow> bool" where
  "cron_validation_rejects_garbage C \<longleftrightarrow>
     isl (validate C (Cron (lit ''not a schedule''))) \<and>
     isl (validate C (Cron (lit ''61 * * * * *''))) \<and>
     \<not> isl (validate C (Cron (lit ''0 0 6 * * *'')))"

definition periodic_cron :: "(nat, system_time, unit) cron_crate" where
  "periodic_cron =
     \<lparr>parse_schedule = (\<lambda>expr. if expr = lit ''0/15 * * * * *'' then Inr 15
        else if expr = lit ''0 0 6 * * *'' then Inr 86400 else Inl ()),
      utc_of = Inr, next_after = (\<lambda>p t. let n = int p * 1000000000 in Some ((t div n + 1) * n)),
      system_of = (\<lambda>t. t)\<rparr>"

text \<open>The moments of 26 September 2026, the day of the test.\<close>

definition test_utc_secs :: utc_secs where
  "test_utc_secs y mo d h mi s = 1000000000 * (1790380800 + int (h * 3600 + mi * 60 + s))"

lemma cron_tick_is_strictly_future_and_on_schedule_ok:
  "cron_tick_is_strictly_future_and_on_schedule periodic_cron test_utc_secs"
  by (simp add: cron_tick_is_strictly_future_and_on_schedule_def periodic_cron_def test_utc_secs_def
      duration_since_def from_secs_def nanos_per_sec_def)

lemma cron_validation_rejects_garbage_ok: "cron_validation_rejects_garbage periodic_cron"
  by (simp add: cron_validation_rejects_garbage_def periodic_cron_def lit_def)

lemma jitter_seeded_within:
  assumes "window p gap = Inr w"
  shows "\<exists>d. jitter_seeded p gap seed = Inr d \<and> d \<le> w"
  using assms random_range_zero_le [of split_mix64_next_u64 w "split_mix64_new seed"]
  by (auto simp: jitter_seeded_def jitter_def split_beta)

lemma jitter_seeded_is_deterministic_and_bounded_ok: jitter_seeded_is_deterministic_and_bounded
proof -
  have "f64_mul default_jitter_fraction (f64_add (round_f64 30) (Fin 0)) = Fin 6" by code_simp
  then have w: "window jitter_policy_default (from_secs 30) = Inr 6000000000"
    using window_whole_secs [of jitter_policy_default 30 6]
    by (simp add: jitter_policy_default_def) (simp add: from_secs_def nanos_per_sec_def)
  have "jitter_seeded jitter_policy_default (from_secs 30) seed =
      Inr (unat (fst (split_mix64_next_u64 (split_mix64_new seed)) mod 6000000001))" for seed
    using w by (simp add: jitter_seeded_def jitter_def is_zero_def random_range_def as_nanos_u64_def
        saturating_sub_def from_nanos_def Let_def split_beta)
  moreover have "fst (split_mix64_next_u64 (split_mix64_new 42)) mod 6000000001 \<noteq>
      fst (split_mix64_next_u64 (split_mix64_new 43)) mod 6000000001"
    by code_simp
  ultimately have "jitter_seeded jitter_policy_default (from_secs 30) 42 \<noteq> jitter_seeded jitter_policy_default (from_secs 30) 43"
    by (simp only: sum.inject word_unat_eq_iff [symmetric])  simp
  moreover have "case jitter_seeded jitter_policy_default (from_secs 30) seed of Inl _ \<Rightarrow> False | Inr d \<Rightarrow> d \<le> 6000000000" for seed
    using jitter_seeded_within [OF w, of seed] by auto
  ultimately show ?thesis
    by (simp add: jitter_seeded_is_deterministic_and_bounded_def w list_all_iff)
qed

lemma zero_fraction_is_exact_ok: zero_fraction_is_exact
proof -
  have "fraction (jitter_policy_new (round_f64 0)) = Fin 0" by code_simp
  then have "window (jitter_policy_new (round_f64 0)) (from_secs 5) = Inr 0"
    by (rule window_no_jitter) (simp add: from_secs_def nanos_per_sec_def)
  then show ?thesis by (simp add: zero_fraction_is_exact_def jitter_seeded_def jitter_def is_zero_def)
qed

lemma clock_seed_is_mixing_ok:
  assumes "0 \<le> now1" "now1 < now2" "now2 < 2 ^ 64"
  shows "clock_seed_is_mixing now1 now2"
proof -
  have "mix64 0 \<noteq> 0" by code_simp
  moreover have "clock_seed now1 \<noteq> clock_seed now2"
    by (rule clock_seed_distinct [THEN conjunct2]) (use assms in auto)
  ultimately show ?thesis by (simp add: clock_seed_is_mixing_def)
qed

lemma interval_tick_is_clamped_to_minimum_ok:
  "now + 1000000 < time_limit \<Longrightarrow> interval_tick_is_clamped_to_minimum C now"
  by (simp add: interval_tick_is_clamped_to_minimum_def system_time_add_def duration_since_def min_interval_eq)

lemma jitter_stays_within_the_window_ok:
  assumes "gap_ms \<in> {1..60000}"
  shows "jitter_stays_within_the_window gap_ms fraction_arg seed"
proof -
  obtain f where f: "clamp_fraction fraction_arg = Fin f" "0 \<le> f" "f \<le> 1" by (rule clamp_fraction_unit)
  then have fr: "fraction (jitter_policy_new fraction_arg) = Fin f" by (simp add: jitter_policy_new_def)
  have gap: "from_millis gap_ms \<le> 2 ^ 60 * nanos_per_sec"
    using assms by (simp add: from_millis_def nanos_per_sec_def)
  obtain w where w: "window (jitter_policy_new fraction_arg) (from_millis gap_ms) = Inr w" "w \<le> from_millis gap_ms"
    using window_unit [OF fr f(2,3) gap] by metis
  then show ?thesis
    using jitter_seeded_within [OF w(1), of seed] by (auto simp: jitter_stays_within_the_window_def)
qed

lemma interval_validation_always_passes_ok: "interval_validation_always_passes C"
  by (simp add: interval_validation_always_passes_def)

section \<open>\<open>src/runner.rs\<close>\<close>

definition test_runner :: "('w, 'g) job \<Rightarrow> u32 \<Rightarrow> ('w, 'g, 'b) job_runner" where
  "test_runner job_closure budget =
     job_runner_new
       \<lparr>spec_name = lit ''test-job'', spec_trigger = Interval (from_millis 10), closure = job_closure,
        failure_budget = budget, leader = False, fire_at_start = False, drain_pass = False,
        use_breaker = True, on_degraded = None\<rparr>
       (jitter_policy_new (round_f64 0))"

text \<open>Awaiting \<open>fire\<close> a number of times; the world of most tests counts the closure's calls.\<close>

fun fire_times ::
    "('w, 'b, 'cfg, 'm) breaker_crate \<Rightarrow> nat \<Rightarrow> ('w, unit, 'b) job_runner \<times> 'w \<Rightarrow> ('w, unit, 'b) job_runner \<times> 'w" where
  "fire_times B 0 s = s"
| "fire_times B (Suc n) (self, w) = fire_times B n (snd (fire B () (lit ''holder'') self w))"

definition down_job :: "(nat, unit) job" where
  "down_job ctx calls = (Returns (Inl (job_error_msg (lit ''down''))), Suc calls)"

definition flip_job :: "(nat, unit) job" where
  "flip_job ctx n = (if n < 2 then Returns (Inl (job_error_msg (lit ''down''))) else Returns (Inr ()), Suc n)"

definition panic_job :: "(nat, unit) job" where
  "panic_job ctx n = (if n \<noteq> 0 then Returns (Inr ()) else Panics, Suc n)"

definition failures_trip_degraded_at_the_budget :: "(nat, 'b, 'cfg, 'm) breaker_crate \<Rightarrow> bool" where
  "failures_trip_degraded_at_the_budget B \<longleftrightarrow>
     (let (job_runner, calls) = fire_times B 3 (test_runner down_job 3, 0); st = status job_runner
      in js_fires st = 3 \<and> js_failures st = 3 \<and> js_consecutive_failures st = 3 \<and> js_degraded st \<and>
         js_last_error st = Some (lit ''down'') \<and> calls = 3 \<and> js_paused st = 0 \<and> js_skips st = 0)"

definition a_success_resets_degraded :: "(nat, 'b, 'cfg, 'm) breaker_crate \<Rightarrow> bool" where
  "a_success_resets_degraded B \<longleftrightarrow>
     (let s2 = fire_times B 2 (test_runner flip_job 2, 0); s3 = fire_times B 1 s2; st = status (fst s3)
      in js_degraded (status (fst s2)) \<and> \<not> js_degraded st \<and> js_consecutive_failures st = 0 \<and>
         js_failures st = 2 \<and> js_fires st = 3 \<and> js_last_error st = Some (lit ''down''))"

definition panics_count_as_failures_with_a_static_message :: "(nat, 'b, 'cfg, 'm) breaker_crate \<Rightarrow> bool" where
  "panics_count_as_failures_with_a_static_message B \<longleftrightarrow>
     (let st = status (fst (fire_times B 1 (test_runner panic_job 10, 0)))
      in js_fires st = 1 \<and> js_failures st = 1 \<and> js_last_error st = Some job_panic_message)"

definition summary_matches_status_counters :: "(unit, 'b, 'cfg, 'm) breaker_crate \<Rightarrow> bool" where
  "summary_matches_status_counters B \<longleftrightarrow>
     (let sm = summary (fst (fire_times B 2 (test_runner noop 5, ())))
      in rs_name sm = lit ''test-job'' \<and> rs_fires sm = 2 \<and> rs_failures sm = 0 \<and> \<not> rs_degraded sm \<and>
         rs_last_error sm = None)"

text \<open>The lease of the leader test: the world is its \<open>others_hold\<close> flag.\<close>

definition lapsing_lease :: "bool lease" where
  "lapsing_lease = \<lparr>acquire = (\<lambda>_ _ others_hold. (\<not> others_hold, others_hold)),
     renew = (\<lambda>_ _ others_hold. (\<not> others_hold, others_hold))\<rparr>"

definition crowned_runner :: "(bool, unit, 'b) job_runner" where
  "crowned_runner =
     with_lease (Some lapsing_lease) (from_secs 30)
       (job_runner_new
         \<lparr>spec_name = lit ''crowned'', spec_trigger = Interval (from_millis 10), closure = noop,
          failure_budget = 5, leader = True, fire_at_start = False, drain_pass = False,
          use_breaker = True, on_degraded = None\<rparr>
         (jitter_policy_new (round_f64 0)))"

definition a_lapsed_leader_reacquires_instead_of_stalling :: "(bool, 'b, 'cfg, 'm) breaker_crate \<Rightarrow> bool" where
  "a_lapsed_leader_reacquires_instead_of_stalling B \<longleftrightarrow>
     (let (r1, w1) = fire_times B 1 (crowned_runner, False);
          (r2, w2) = fire_times B 1 (r1, True);
          (r3, w3) = fire_times B 1 (r2, False)
      in js_fires (status r1) = 1 \<and> js_fires (status r2) = 1 \<and> js_skips (status r2) = 1 \<and>
         js_fires (status r3) = 2 \<and> js_skips (status r3) = 1)"

text \<open>The breaker tests: the world counts the calls and holds a clock in ms.\<close>

definition timed :: "(nat, 'g) job \<Rightarrow> (nat \<times> nat, 'g) job" where
  "timed job ctx w = (case w of (calls, clock) \<Rightarrow> case job ctx calls of (r, calls') \<Rightarrow> (r, (calls', clock)))"

definition open_breaker_pauses_instead_of_firing ::
    "(nat \<times> nat, 'b, 'cfg, 'm) breaker_crate \<Rightarrow> 'cfg \<Rightarrow> ('m \<Rightarrow> nat) \<Rightarrow> bool" where
  "open_breaker_pauses_instead_of_firing B tiny_breaker total_failures \<longleftrightarrow>
     (let (r2, w2) = fire_times B 2 (with_breaker B tiny_breaker (test_runner (timed down_job) 50), (0, 0));
          (r3, w3) = fire_times B 1 (r2, w2); st = status r3
      in runner_breaker_state B r2 w2 = Some Open \<and>
         js_fires st = 2 \<and> js_failures st = 2 \<and> js_paused st = 1 \<and>
         map_option total_failures (runner_breaker_metrics B r3) = Some 2)"

definition half_open_probe_recovers_to_closed ::
    "(nat \<times> nat, 'b, 'cfg, 'm) breaker_crate \<Rightarrow> 'cfg \<Rightarrow> bool" where
  "half_open_probe_recovers_to_closed B tiny_breaker \<longleftrightarrow>
     (let (r2, w2) = fire_times B 2 (with_breaker B tiny_breaker (test_runner (timed flip_job) 50), (0, 0));
          w2' = (fst w2, snd w2 + 60);
          (r3, w3) = fire_times B 1 (r2, w2'); st = status r3
      in runner_breaker_state B r2 w2 = Some Open \<and> runner_breaker_state B r2 w2' = Some HalfOpen \<and>
         runner_breaker_state B r3 w3 = Some Closed \<and>
         js_fires st = 3 \<and> js_paused st = 0 \<and> js_failures st = 2)"

text \<open>
  An instance of the breaker crate with the behaviour the tests configure: two consecutive
  failures open it for 50 ms, then the next call is a probe.
\<close>

definition cooling_breaker :: "(nat \<times> nat, nat \<times> nat option \<times> nat, unit, nat) breaker_crate" where
  "cooling_breaker =
     \<lparr>cb_new = (\<lambda>_. (0, None, 0)),
      cb_call = (\<lambda>op (streak, opened, total) w.
        if (case opened of None \<Rightarrow> False | Some t \<Rightarrow> snd w < t + 50)
        then (Inr (Inl CircuitOpen), (streak, opened, total), w)
        else case op w of (r, w') \<Rightarrow>
          (admitted r,
           if r = Inr (Inr ()) then (0, None, total)
           else (Suc streak, if opened \<noteq> None \<or> 2 \<le> Suc streak then Some (snd w') else None, Suc total),
           w')),
      cb_state_of = (\<lambda>(streak, opened, total) w.
        case opened of None \<Rightarrow> Closed | Some t \<Rightarrow> if snd w < t + 50 then Open else HalfOpen),
      cb_metrics_of = (\<lambda>(streak, opened, total). total)\<rparr>"

lemma fire_times_numeral:
  "fire_times B (numeral k) (self, w) = fire_times B (pred_numeral k) (snd (fire B () (lit ''holder'') self w))"
  by (simp add: numeral_eq_Suc)

lemmas runner_test_defs = test_runner_def job_runner_new_def with_breaker_def with_lease_def down_job_def
  flip_job_def panic_job_def noop_def timed_def job_error_msg_def job_error_to_string_def stats_default_def
  status_def summary_def fire_times_numeral invoke_plain_eq split_beta

lemma failures_trip_degraded_at_the_budget_ok: "failures_trip_degraded_at_the_budget B"
  by (simp add: failures_trip_degraded_at_the_budget_def runner_test_defs fire_defs)

lemma a_success_resets_degraded_ok: "a_success_resets_degraded B"
  by (simp add: a_success_resets_degraded_def runner_test_defs fire_defs)

lemma panics_count_as_failures_with_a_static_message_ok: "panics_count_as_failures_with_a_static_message B"
  by (simp add: panics_count_as_failures_with_a_static_message_def runner_test_defs fire_defs)

lemma summary_matches_status_counters_ok: "summary_matches_status_counters B"
  by (simp add: summary_matches_status_counters_def runner_test_defs fire_defs)

lemma a_lapsed_leader_reacquires_instead_of_stalling_ok: "a_lapsed_leader_reacquires_instead_of_stalling B"
  by (simp add: a_lapsed_leader_reacquires_instead_of_stalling_def crowned_runner_def lapsing_lease_def
      runner_test_defs fire_defs)

lemma open_breaker_pauses_instead_of_firing_ok: "open_breaker_pauses_instead_of_firing cooling_breaker () id"
  by (simp add: open_breaker_pauses_instead_of_firing_def cooling_breaker_def runner_breaker_state_def
      runner_breaker_metrics_def runner_test_defs fire_defs)

lemma half_open_probe_recovers_to_closed_ok: "half_open_probe_recovers_to_closed cooling_breaker ()"
  by (simp add: half_open_probe_recovers_to_closed_def cooling_breaker_def runner_breaker_state_def
      runner_test_defs fire_defs)

text \<open>
  The third fire of the leader test is said to take the fallback from a refused renewal to
  an acquisition. With this lease it cannot: whenever a renewal is refused, so is the
  acquisition after it, and at the third fire the renewal itself succeeds.
\<close>

lemma lapsing_lease_never_falls_back:
  "renew lapsing_lease holder ttl w = (False, w1) \<Longrightarrow> \<not> fst (acquire lapsing_lease holder ttl w1)"
  "fst (renew lapsing_lease holder ttl False)"
  by (auto simp: lapsing_lease_def)

section \<open>\<open>src/supervisor.rs\<close>\<close>

definition noop_spec :: "ustr \<Rightarrow> (unit, unit) job_spec" where
  "noop_spec name = job_spec_new name (Interval (from_millis 10)) noop"

definition new_uses_documented_defaults :: "'cfg \<Rightarrow> system_time \<Rightarrow> bool" where
  "new_uses_documented_defaults standard now \<longleftrightarrow>
     (let supervisor = worker_supervisor_new standard now () :: (unit, unit, unit, 'cfg) worker_supervisor
      in sv_drain_cap supervisor = default_drain_cap \<and> sv_drain_cap supervisor = from_secs 30 \<and>
         fraction (sv_jitter supervisor) = round_f64 (2 / 10) \<and> supervisor_status supervisor = [])"

definition register_rejects_invalid_names ::
    "(unit, 'b, 'cfg, 'm) breaker_crate \<Rightarrow> ('sch, 'dt, 'e) cron_crate \<Rightarrow> 'cfg \<Rightarrow> system_time \<Rightarrow> bool" where
  "register_rejects_invalid_names B C standard now \<longleftrightarrow>
     (let (r1, sv1) = register B C (noop_spec (lit ''INVALID NAME'')) (worker_supervisor_new standard now ());
          (r2, sv2) = register B C (noop_spec (lit ''ok-name'')) sv1
      in (case r1 of Inl (InvalidName _) \<Rightarrow> True | _ \<Rightarrow> False) \<and> r2 = Inr () \<and> length (supervisor_status sv2) = 1)"

definition register_is_chainable ::
    "(unit, 'b, 'cfg, 'm) breaker_crate \<Rightarrow> ('sch, 'dt, 'e) cron_crate \<Rightarrow> 'cfg \<Rightarrow> system_time \<Rightarrow> bool" where
  "register_is_chainable B C standard now \<longleftrightarrow>
     (case register B C (noop_spec (lit ''a'')) (worker_supervisor_new standard now ()) of
        (Inl _, _) \<Rightarrow> False
      | (Inr _, sv1) \<Rightarrow>
          (case register B C (noop_spec (lit ''b'')) sv1 of
             (Inl _, _) \<Rightarrow> False
           | (Inr _, sv2) \<Rightarrow> length (supervisor_status sv2) = 2))"

definition status_is_ordered_by_name ::
    "(unit, 'b, 'cfg, 'm) breaker_crate \<Rightarrow> ('sch, 'dt, 'e) cron_crate \<Rightarrow> 'cfg \<Rightarrow> system_time \<Rightarrow> bool" where
  "status_is_ordered_by_name B C standard now \<longleftrightarrow>
     (let sv = fold (\<lambda>name sv. snd (register B C (noop_spec name) sv))
        [lit ''zeta'', lit ''alpha'', lit ''mid''] (worker_supervisor_new standard now ())
      in map js_name (supervisor_status sv) = [lit ''alpha'', lit ''mid'', lit ''zeta''])"

definition breaker_accessors_report_per_job ::
    "(unit, 'b, 'cfg, 'm) breaker_crate \<Rightarrow> ('sch, 'dt, 'e) cron_crate \<Rightarrow> 'cfg \<Rightarrow> system_time \<Rightarrow> bool" where
  "breaker_accessors_report_per_job B C standard now \<longleftrightarrow>
     (let sv = snd (register B C (noop_spec (lit ''job-a'')) (worker_supervisor_new standard now ()))
      in breaker_state B sv (lit ''job-a'') () = Some Closed \<and> breaker_state B sv (lit ''missing'') () = None \<and>
         dom (breaker_metrics B sv) = {lit ''job-a''})"

text \<open>In every run of a supervisor without jobs the report is empty.\<close>

definition run_with_no_jobs_reports_empty_after_shutdown ::
    "'w host \<Rightarrow> ('sch, 'dt, 'e) cron_crate \<Rightarrow> ('w, 'b, 'cfg, 'm) breaker_crate \<Rightarrow> 'cfg \<Rightarrow> system_time \<Rightarrow> 'w \<Rightarrow> bool" where
  "run_with_no_jobs_reports_empty_after_shutdown H C B standard now w \<longleftrightarrow>
     (let supervisor = worker_supervisor_new standard now ()
      in \<forall>s report. run_reach H C B (sv_shutdown supervisor) (sv_holder supervisor) (run_start H supervisor w) s \<longrightarrow>
           rn_phase s = Reported report \<longrightarrow> per_job report = [])"

lemma noop_spec_accepted:
  assumes "is_valid_name name"
  shows "\<exists>r. register B C (noop_spec name) sv = (Inr (), sv\<lparr>runners := runners sv @ [r]\<rparr>) \<and>
    runner_name r = name \<and> js_name (status r) = name \<and> breaker r = Some (cb_new B (sv_breaker_config sv))"
  using assms
  by (simp add: register_def noop_spec_def job_spec_new_def Let_def runner_name_def status_def)
    (rule exI, rule conjI, rule refl, simp add: frame_simps)

lemma new_uses_documented_defaults_ok: "new_uses_documented_defaults standard now"
  by (simp add: new_uses_documented_defaults_def worker_supervisor_new_def default_drain_cap_def
      jitter_policy_default_def default_jitter_fraction_def supervisor_status_def)

lemma register_rejects_invalid_names_ok: "register_rejects_invalid_names B C standard now"
proof -
  have names: "\<not> is_valid_name (lit ''INVALID NAME'')" "is_valid_name (lit ''ok-name'')" by code_simp+
  have "register B C (noop_spec (lit ''INVALID NAME'')) sv = (Inl (InvalidName (lit ''INVALID NAME'')), sv)" for sv
    using names(1) by (simp add: register_def noop_spec_def job_spec_new_def)
  moreover obtain r where "register B C (noop_spec (lit ''ok-name'')) (worker_supervisor_new standard now ()) =
      (Inr (), (worker_supervisor_new standard now ())\<lparr>runners := [r]\<rparr>)"
    using noop_spec_accepted [OF names(2), of B C "worker_supervisor_new standard now ()"]
    by (auto simp: worker_supervisor_new_def)
  ultimately show ?thesis
    by (simp add: register_rejects_invalid_names_def supervisor_status_def)
qed

lemma register_is_chainable_ok: "register_is_chainable B C standard now"
proof -
  have names: "is_valid_name (lit ''a'')" "is_valid_name (lit ''b'')" by code_simp+
  obtain r where r: "register B C (noop_spec (lit ''a'')) (worker_supervisor_new standard now ()) =
      (Inr (), (worker_supervisor_new standard now ())\<lparr>runners := [r]\<rparr>)"
    using noop_spec_accepted [OF names(1), of B C "worker_supervisor_new standard now ()"]
    by (auto simp: worker_supervisor_new_def)
  obtain r' where "register B C (noop_spec (lit ''b'')) ((worker_supervisor_new standard now ())\<lparr>runners := [r]\<rparr>) =
      (Inr (), (worker_supervisor_new standard now ())\<lparr>runners := [r, r']\<rparr>)"
    using noop_spec_accepted [OF names(2), of B C "(worker_supervisor_new standard now ())\<lparr>runners := [r]\<rparr>"] by auto
  with r show ?thesis by (simp add: register_is_chainable_def supervisor_status_def)
qed

lemma status_is_ordered_by_name_ok: "status_is_ordered_by_name B C standard now"
proof -
  let ?sv = "worker_supervisor_new standard now ()"
  have names: "is_valid_name (lit ''zeta'')" "is_valid_name (lit ''alpha'')" "is_valid_name (lit ''mid'')" by code_simp+
  obtain r1 where r1: "snd (register B C (noop_spec (lit ''zeta'')) ?sv) = ?sv\<lparr>runners := [r1]\<rparr>" "js_name (status r1) = lit ''zeta''"
    using noop_spec_accepted [OF names(1), of B C ?sv] by (auto simp: worker_supervisor_new_def)
  obtain r2 where r2: "snd (register B C (noop_spec (lit ''alpha'')) (?sv\<lparr>runners := [r1]\<rparr>)) = ?sv\<lparr>runners := [r1, r2]\<rparr>"
      "js_name (status r2) = lit ''alpha''"
    using noop_spec_accepted [OF names(2), of B C "?sv\<lparr>runners := [r1]\<rparr>"] by auto
  obtain r3 where r3: "snd (register B C (noop_spec (lit ''mid'')) (?sv\<lparr>runners := [r1, r2]\<rparr>)) = ?sv\<lparr>runners := [r1, r2, r3]\<rparr>"
      "js_name (status r3) = lit ''mid''"
    using noop_spec_accepted [OF names(3), of B C "?sv\<lparr>runners := [r1, r2]\<rparr>"] by auto
  have "lit ''alpha'' \<le> lit ''mid''" "lit ''alpha'' \<le> lit ''zeta''" "lit ''mid'' \<le> lit ''zeta''"
    "\<not> lit ''zeta'' \<le> lit ''mid''" "\<not> lit ''zeta'' \<le> lit ''alpha''" "\<not> lit ''mid'' \<le> lit ''alpha''"
    by (simp_all add: lit_def)
  then show ?thesis
    by (simp add: status_is_ordered_by_name_def supervisor_status_def r1 r2 r3)
qed

lemma breaker_accessors_report_per_job_ok:
  assumes "\<And>w. cb_state_of B (cb_new B standard) w = Closed"
  shows "breaker_accessors_report_per_job B C standard now"
proof -
  let ?sv = "worker_supervisor_new standard now ()"
  have "is_valid_name (lit ''job-a'')" by code_simp
  then obtain r where r: "snd (register B C (noop_spec (lit ''job-a'')) ?sv) = ?sv\<lparr>runners := [r]\<rparr>"
      "runner_name r = lit ''job-a''" "breaker r = Some (cb_new B standard)"
    using noop_spec_accepted [of "lit ''job-a''" B C ?sv] by (auto simp: worker_supervisor_new_def)
  have "lit ''job-a'' \<noteq> lit ''missing''" by (simp add: lit_def)
  with r assms show ?thesis
    by (simp add: breaker_accessors_report_per_job_def breaker_state_def breaker_metrics_def
        runner_breaker_state_def runner_breaker_metrics_def map_filter_simps)
qed

lemma run_with_no_jobs_reports_empty_after_shutdown_ok:
  "run_with_no_jobs_reports_empty_after_shutdown H C B standard now w"
proof -
  have "per_job rep = []" if "run_reach H C B g h (run_start H (worker_supervisor_new standard now ()) w) s"
    "rn_phase s = Reported rep" for g h s rep
  proof -
    have inv: "run_inv [] s"
      using run_inv_reach [OF that(1)] run_inv_start [of "worker_supervisor_new standard now ()" H w]
      by (simp add: worker_supervisor_new_def)
    then show ?thesis using make_report_live [OF inv] that(2) by (auto simp: run_inv_def)
  qed
  then show ?thesis by (auto simp: run_with_no_jobs_reports_empty_after_shutdown_def Let_def)
qed

section \<open>\<open>src/pressure.rs\<close>\<close>

text \<open>\<open>(a - b).abs() < f64::EPSILON\<close>.\<close>

fun f64_neg :: "f64 \<Rightarrow> f64" where
  "f64_neg NaN = NaN"
| "f64_neg (Inf s) = Inf (\<not> s)"
| "f64_neg (Fin x) = Fin (- x)"

definition close_to :: "f64 \<Rightarrow> f64 \<Rightarrow> bool" where
  "close_to a b \<longleftrightarrow> (case f64_add a (f64_neg b) of Fin d \<Rightarrow> \<bar>d\<bar> < 1 / 2 ^ 52 | _ \<Rightarrow> False)"

definition parses_some_line_averages :: bool where
  "parses_some_line_averages \<longleftrightarrow>
     (case parse_some (lit ''some avg10=12.34 avg60=5.00 avg300=0.50'' @ [10] @ lit ''total avg10=0'') of
        None \<Rightarrow> False
      | Some sample \<Rightarrow> close_to (avg10 sample) (round_f64 (1234 / 100)) \<and>
          close_to (avg60 sample) (round_f64 5) \<and> close_to (avg300 sample) (round_f64 (5 / 10)))"

definition total_line_is_ignored_full_line_is_parsable :: bool where
  "total_line_is_ignored_full_line_is_parsable \<longleftrightarrow>
     parse_some (lit ''total avg10=1.00 avg60=2.00 avg300=3.00'' @ [10]) = None \<and>
     (case parse_some (lit ''some avg10=1.00 avg60=2.00 avg300=3.00'' @ [10] @
             lit ''total avg10=9.00 avg60=9.00 avg300=9.00'' @ [10]) of
        None \<Rightarrow> False
      | Some sample \<Rightarrow> close_to (avg60 sample) (round_f64 2))"

definition missing_some_line_is_none :: bool where
  "missing_some_line_is_none \<longleftrightarrow>
     parse_some (lit '''') = None \<and> parse_some (lit ''garbage'' @ [10]) = None"

text \<open>The temporary file is an entry of a file system that maps paths to contents.\<close>

definition read_file :: "ustr \<Rightarrow> (ustr \<Rightarrow> ustr option) \<Rightarrow> (ustr + ustr) \<times> (ustr \<Rightarrow> ustr option)" where
  "read_file path fs = (case fs path of None \<Rightarrow> Inl (lit ''not found'') | Some text \<Rightarrow> Inr text, fs)"

definition reads_a_real_pressure_file_shape :: "ustr \<Rightarrow> bool" where
  "reads_a_real_pressure_file_shape path \<longleftrightarrow>
     (case fst (read_sample read_file path
             [path \<mapsto> lit ''some avg10=0.00 avg60=25.50 avg300=10.00'' @ [10] @ lit ''total avg10=0'' @ [10]]) of
        Inl _ \<Rightarrow> False
      | Inr sample \<Rightarrow> close_to (avg60 sample) (round_f64 (255 / 10)))"

text \<open>
  The watcher tests: the world is the elapsed time and the number of callbacks; the file
  has the given text, the shutdown flag is set at a given time.
\<close>

definition watch_test_env :: "(ustr \<Rightarrow> ustr) \<Rightarrow> duration \<Rightarrow> (duration \<times> nat) watch_env" where
  "watch_test_env file stop_at =
     \<lparr>shutdown_flag = (\<lambda>(elapsed, fired). (stop_at \<le> elapsed, elapsed, fired)),
      read_to_string = (\<lambda>path w. (Inr (file path), w)),
      sleep = (\<lambda>d (elapsed, fired). (elapsed + d, fired)),
      callback = (\<lambda>_ (elapsed, fired). (Inr (), elapsed, Suc fired)), on_error = None\<rparr>"

definition watcher_fires_above_threshold_and_stops_on_shutdown :: "ustr \<Rightarrow> bool" where
  "watcher_fires_above_threshold_and_stops_on_shutdown path \<longleftrightarrow>
     (let cfg = \<lparr>psi_path = path, psi_threshold = Fin 20, poll_interval = from_millis 20\<rparr>;
          env = watch_test_env (\<lambda>_. lit ''some avg10=30.00 avg60=40.00 avg300=10.00'' @ [10]) (from_millis 80)
      in case watch env cfg (0, 0) of Some (Inr _, _, fired) \<Rightarrow> 0 < fired | _ \<Rightarrow> False)"

definition dev_null_watch_path_disables_the_watcher :: bool where
  "dev_null_watch_path_disables_the_watcher \<longleftrightarrow>
     (let cfg = \<lparr>psi_path = lit ''/dev/null'', psi_threshold = Fin 20, poll_interval = from_millis 10\<rparr>;
          env = watch_test_env (\<lambda>_. []) (from_millis 50)
      in case watch env cfg (0, 0) of Some (Inr _, _, fired) \<Rightarrow> fired = 0 | _ \<Rightarrow> False)"

lemma parse_some_other_line:
  assumes "10 \<notin> set l" "l \<noteq> []" "\<not> is_whitespace (hd l)" "\<not> is_whitespace (last l)"
    and "take 5 l \<noteq> lit ''some ''"
  shows "parse_some (l @ [10]) = None"
proof -
  have "last l \<noteq> 13" using assms(4) by (auto simp: is_whitespace_def)
  then have "str_lines (l @ [10]) = [l]"
    using str_lines_line [OF assms(1), of "[]"] by (simp add: strip_cr_def str_lines.simps [of "[]"])
  moreover have "trim l = l" using assms(3,4) by (intro trim_id) simp
  moreover have "length (lit ''some '') = 5" by (simp add: lit_def)
  ultimately show ?thesis using assms(5) by (simp add: parse_some_def strip_prefix_def)
qed

lemma missing_some_line_is_none_ok: missing_some_line_is_none
proof -
  have "parse_some (lit ''garbage'' @ [10]) = None"
    by (rule parse_some_other_line) (simp_all add: lit_def is_whitespace_def)
  moreover have "parse_some [] = None" by (simp add: parse_some_def str_lines.simps [of "[]"])
  ultimately show ?thesis by (simp add: missing_some_line_is_none_def) (simp add: lit_def)
qed

text \<open>A first line with three printed averages and nothing else.\<close>

definition averages :: "nat \<Rightarrow> nat \<Rightarrow> nat \<Rightarrow> ustr list" where
  "averages a b c = [lit ''avg10'' @ 61 # centi a, lit ''avg60'' @ 61 # centi b, lit ''avg300'' @ 61 # centi c]"

lemma averages_fields: "averages a b c @ [lit ''total'' @ 61 # decimal t] = psi_fields a b c t"
  by (simp add: averages_def psi_fields_def)

lemma averages_line:
  fixes a b c
  defines "line \<equiv> lit ''some '' @ join_spaces (averages a b c)"
  shows "10 \<notin> set line" "trim line = line" "strip_cr line = line"
proof -
  have "last (averages a b c) = lit ''avg300'' @ 61 # centi c" "averages a b c \<noteq> []" by (simp_all add: averages_def)
  then have "last (join_spaces (averages a b c)) = 48 + c mod 10" by (simp add: last_join_spaces centi_def)
  moreover have "join_spaces (averages a b c) \<noteq> []" by (simp add: averages_def lit_def)
  ultimately have last: "last line = 48 + c mod 10" by (simp add: line_def)
  then have end_ok: "\<not> is_whitespace (last line)" "last line \<noteq> 13" by (auto simp: is_whitespace_def)
  have "f \<in> set (averages a b c) \<Longrightarrow> 10 \<notin> set f" for f
    using psi_fields_chars [of f a b c 0] psi_chars_not_space by (auto simp flip: averages_fields)
  then have "10 \<notin> set (join_spaces (averages a b c))" using set_join_spaces [of 10 "averages a b c"] by auto
  then show "10 \<notin> set line" by (simp add: line_def lit_def)
  show "trim line = line" using end_ok by (intro trim_id) (simp add: line_def lit_def is_whitespace_def)
  show "strip_cr line = line" using end_ok by (simp add: strip_cr_def)
qed

lemma parse_some_averages:
  assumes "text = lit ''some '' @ join_spaces (averages a b c) @ 10 # r"
  shows "parse_some text = Some \<lparr>avg10 = round_f64 (of_nat a / 100), avg60 = round_f64 (of_nat b / 100),
    avg300 = round_f64 (of_nat c / 100)\<rparr>"
proof -
  let ?fs = "averages a b c"
  have lines: "str_lines text = (lit ''some '' @ join_spaces ?fs) # str_lines r"
    using str_lines_line [OF averages_line(1)] averages_line(3) by (simp add: assms)
  have prefix: "strip_prefix (lit ''some '') (lit ''some '' @ s) = Some s" for s by (simp add: strip_prefix_def)
  have "f \<in> set ?fs \<Longrightarrow> f \<noteq> [] \<and> (\<forall>c \<in> set f. \<not> is_whitespace c)" for f
    using psi_fields_chars [of f a b c 0] psi_chars_not_space by (auto simp flip: averages_fields)
  then have fields: "split_whitespace (join_spaces ?fs) = ?fs" by (intro split_whitespace_join) blast
  have vals: "map field_value ?fs = [Some (lit ''avg10'', round_f64 (of_nat a / 100)),
      Some (lit ''avg60'', round_f64 (of_nat b / 100)), Some (lit ''avg300'', round_f64 (of_nat c / 100))]"
    using psi_fields_values [of a b c 0] by (simp flip: averages_fields)
  have keys: "lit ''avg10'' \<noteq> lit ''avg60''" "lit ''avg10'' \<noteq> lit ''avg300''" "lit ''avg60'' \<noteq> lit ''avg300''"
    by (simp_all add: lit_def)
  show ?thesis
    unfolding parse_some_def lines parse_some_lines_spec
    using keys by (simp add: map_filter_simps averages_line(2) prefix fields vals sample_of_def)
qed

lemma close_to_self: "\<bar>x\<bar> \<le> 2 ^ 200 \<Longrightarrow> close_to (round_f64 x) (round_f64 x)"
  by (rule round_f64_finite [of x]) (simp_all add: close_to_def)

lemmas averages_text = averages_def lit_def centi_def decimal.simps

lemma parses_some_line_averages_ok: parses_some_line_averages
proof -
  have "lit ''some avg10=12.34 avg60=5.00 avg300=0.50'' @ [10] @ lit ''total avg10=0'' =
      lit ''some '' @ join_spaces (averages 1234 500 50) @ 10 # lit ''total avg10=0''"
    by (simp add: averages_text)
  note parse_some_averages [OF this]
  then show ?thesis
    using close_to_self [of "1234 / 100"] close_to_self [of 5] close_to_self [of "1 / 2"]
    by (simp add: parses_some_line_averages_def)
qed

lemma total_line_is_ignored_full_line_is_parsable_ok: total_line_is_ignored_full_line_is_parsable
proof -
  let ?total = "lit ''total avg10=1.00 avg60=2.00 avg300=3.00''"
  have "parse_some (?total @ [10]) = None"
    by (rule parse_some_other_line) (simp_all add: lit_def is_whitespace_def)
  moreover have "lit ''some avg10=1.00 avg60=2.00 avg300=3.00'' @ [10] @ lit ''total avg10=9.00 avg60=9.00 avg300=9.00'' @ [10] =
      lit ''some '' @ join_spaces (averages 100 200 300) @ 10 # (lit ''total avg10=9.00 avg60=9.00 avg300=9.00'' @ [10])"
    by (simp add: averages_text)
  note parse_some_averages [OF this]
  ultimately show ?thesis
    using close_to_self [of 2] by (simp add: total_line_is_ignored_full_line_is_parsable_def)
qed

lemma reads_a_real_pressure_file_shape_ok: "reads_a_real_pressure_file_shape path"
proof -
  have "lit ''some avg10=0.00 avg60=25.50 avg300=10.00'' @ [10] @ lit ''total avg10=0'' @ [10] =
      lit ''some '' @ join_spaces (averages 0 2550 1000) @ 10 # (lit ''total avg10=0'' @ [10])"
    by (simp add: averages_text)
  note parse_some_averages [OF this]
  then show ?thesis
    using close_to_self [of "255 / 10"]
    by (simp add: reads_a_real_pressure_file_shape_def read_sample_def read_file_def)
qed

lemma watch_test_step:
  assumes "watch_poll (watch_test_env file stop_at) cfg (elapsed, fired) = (Inr (), elapsed, fired')"
  shows "watch (watch_test_env file stop_at) cfg (elapsed, fired) =
    (if stop_at \<le> elapsed then Some (Inr (), elapsed, fired)
     else watch (watch_test_env file stop_at) cfg (elapsed + poll_interval cfg, fired'))"
  by (subst watch.simps) (use assms in \<open>simp add: watch_test_env_def\<close>)

lemma watcher_fires_above_threshold_and_stops_on_shutdown_ok:
  "watcher_fires_above_threshold_and_stops_on_shutdown path"
proof -
  let ?text = "lit ''some avg10=30.00 avg60=40.00 avg300=10.00'' @ [10]"
  let ?cfg = "\<lparr>psi_path = path, psi_threshold = Fin 20, poll_interval = 20000000\<rparr>"
  have "?text = lit ''some '' @ join_spaces (averages 3000 4000 1000) @ 10 # []" by (simp add: averages_text)
  note parse_some_averages [OF this]
  moreover have "f64_ge (round_f64 40) (Fin 20)" by code_simp
  ultimately have "watch_poll (watch_test_env (\<lambda>_. ?text) stop_at) ?cfg (elapsed, fired) = (Inr (), elapsed, Suc fired)"
    for elapsed fired stop_at by (simp add: watch_poll_def read_sample_def watch_test_env_def)
  note step = watch_test_step [OF this]
  show ?thesis
    by (simp add: watcher_fires_above_threshold_and_stops_on_shutdown_def Let_def step from_millis_def del: append_Cons append_Nil)
qed

lemma dev_null_watch_path_disables_the_watcher_ok: dev_null_watch_path_disables_the_watcher
proof -
  let ?cfg = "\<lparr>psi_path = lit ''/dev/null'', psi_threshold = Fin 20, poll_interval = 10000000\<rparr>"
  have "parse_some [] = None" by (simp add: parse_some_def str_lines.simps [of "[]"])
  then have "watch_poll (watch_test_env (\<lambda>_. []) stop_at) ?cfg (elapsed, fired) = (Inr (), elapsed, fired)"
    for elapsed fired stop_at by (simp add: watch_poll_def read_sample_def watch_test_env_def)
  note step = watch_test_step [OF this]
  show ?thesis
    by (simp add: dev_null_watch_path_disables_the_watcher_def Let_def step from_millis_def)
qed

end
