(* ===== verification/Spec2Isabelle.thy ===== *)
theory Spec2Isabelle
  imports Drain Pressure Unit_Tests
begin

text \<open>
  A verification of worker-kit, a Rust library that supervises periodic background jobs.

  \<^bold>\<open>The program.\<close> A host registers jobs (\<open>src/job.rs\<close>) with a \<open>WorkerSupervisor\<close>
  (\<open>src/supervisor.rs\<close>). \<open>run\<close> spawns one loop per job (\<open>src/runner.rs\<close>): it sleeps to the next
  tick of the job's trigger plus a random delay (\<open>src/trigger.rs\<close>, \<open>src/rng.rs\<close>), asks a lease
  whether this process may fire (\<open>src/leader/\<close>), calls the job's closure, through a circuit
  breaker if asked, with panics caught, and records the outcome in counters. On shutdown the
  loops finish, the supervisor drains them up to a cap and reports. Independently,
  \<open>src/pressure.rs\<close> polls the kernel's memory-pressure file and calls back while it is high.

  \<^bold>\<open>Theories and sources.\<close>
  \<^item> \<open>Prelude\<close>: panics as a sum, strings as lists of scalar values, \<open>u32\<close> and \<open>u64\<close>
    as words, decimal printing, shared list lemmas. The locale \<open>step_invariant\<close> (what every
    step keeps holds of every run) is interpreted on the run, the recorder, the observer and
    the timed drain.
  \<^item> \<open>Std_Time\<close>, \<open>Float64\<close>: what the sources use of \<open>std::time\<close> (durations are
    naturals in ns, \<open>SystemTime\<close> and \<open>Instant\<close> integers in ns, with the ranges of the Unix
    representation) and of \<open>f64\<close> (a rational, infinity or NaN; every operation rounds to
    nearest even at 53 bits, with the subnormal range and overflow). The two zeros are one value.
  \<^item> \<open>Errors\<close>: \<open>src/error.rs\<close>. Properties: the language of valid names, messages tell what
    was rejected.
  \<^item> \<open>Rng\<close>: \<open>src/rng.rs\<close>. SplitMix64 as a state-passing function; the locale
    \<open>bounded_source\<close> is the contract of \<open>JitterSource\<close>, interpreted on the provided
    \<open>random_range\<close>. Properties: range, full period.
  \<^item> \<open>Trigger\<close>: \<open>src/trigger.rs\<close>. The locale \<open>tick_source\<close> (ticks advance) is
    interpreted on interval triggers and, under \<open>cron_strict\<close>, holds for cron triggers.
    Properties: the exact grid, jitter and window bounds including the rounding error.
  \<^item> \<open>Job\<close>: \<open>src/job.rs\<close>. A closure is a function on an arbitrary world; a panic of the
    call and a panic of the future are told apart. Lemma \<open>debug_job_context_inj\<close>: the debug
    text of a context tells its name, its trigger (to the nanosecond) and the shutdown flag.
  \<^item> \<open>Lease\<close>: \<open>src/leader/mod.rs\<close>, \<open>src/leader/redis_lease.rs\<close>. The locales
    \<open>lease_trait\<close> and \<open>exclusive_lease\<close> are the contracts of the trait and of mutual
    exclusion, interpreted on the memory lease and the Redis lease. Properties: grants to
    different holders are a TTL apart over all runs, a lapsed lease can be taken.
  \<^item> \<open>Runner\<close>: \<open>src/runner.rs\<close>, one fire. \<open>job_runner\<close> is the struct with its atomics as
    plain fields (a runner has one writer; concurrent readers are in \<open>Snapshots\<close>). The abstract specification is the history of
    fires and \<open>stats_of\<close>; \<open>fire_history\<close> relates the two. Properties: refinement of the
    statistics to the history, counters that agree with one another, edge-triggered hook, accounting, panic containment, breaker
    and plain path agree, leadership.
  \<^item> \<open>Run_Loop\<close>: \<open>src/runner.rs\<close>, the loop. \<open>loop_body\<close> is one round, \<open>job_loop\<close> the loop,
    \<open>run_loop\<close> the whole task. Properties: report of a run, return on shutdown, coalescing and
    rate bound, no early fires, every computed time in the range of its type.
  \<^item> \<open>Supervisor\<close>: \<open>src/supervisor.rs\<close>. Configuration as operations on a record; \<open>run\<close>
    as the step relation \<open>run_step\<close>, where loops interleave round by round with an arbitrary
    environment. Properties: what is registered, complete, sorted and faithful reports, and a
    bound on what the loops still do once shutdown is coming, under every scheduling.
  \<^item> \<open>Snapshots\<close>: \<open>status\<close> and \<open>summary\<close> of \<open>src/runner.rs\<close> while the loop writes. A fire is
    refined to its atomic writes, a snapshot to its \<open>Relaxed\<close> loads, the two interleave. The
    locale \<open>field_store\<close> (a write touches one field) is interpreted on these writes.
    Properties: a fire is its writes, fields are whole, counters do not go back, snapshots tear.
  \<^item> \<open>Cutoff\<close>: the end of \<open>run\<close> in \<open>src/supervisor.rs\<close> when the drain cap expires: the report
    of loops that are still recording while their summaries are loaded.
  \<^item> \<open>Drain\<close>: the drain of \<open>src/supervisor.rs\<close> under its timer. Each run step carries the
    monotonic clock on, and the cap may give the drain up only past its deadline; timed runs
    are runs (\<open>timed_reach_run\<close>). Property: no loop is abandoned before the cap.
  \<^item> \<open>Unit_Tests\<close>: the unit tests of all the files, translated and passed by the model.
  \<^item> \<open>Pressure\<close>: \<open>src/pressure.rs\<close>, with the string functions and the float grammar the
    parser uses. Properties: parsing what the kernel prints, a declarative reading of the
    parser, the exact threshold, callbacks only under pressure, return on shutdown.

  \<^bold>\<open>Parameters.\<close> The cron and chrono crates (\<open>cron_crate\<close>), the breaker crate
  (\<open>breaker_crate\<close>), the Redis client and server (\<open>redis_client\<close>), clocks, timer, shutdown
  channel and hasher (\<open>host\<close>), the watcher's surroundings (\<open>watch_env\<close>) and all user code are
  arguments. What is assumed of them is named: \<open>cron_strict\<close>, \<open>runs_once_law\<close>,
  \<open>own_panics_law\<close>, \<open>redis_documented\<close>, \<open>steady_host\<close>, \<open>clocks_typed\<close>,
  \<open>shutdown_coming\<close>, \<open>well_behaved\<close>. Each
  is met by a concrete instance (\<open>mini_breaker\<close>, \<open>mini_redis\<close>, \<open>demo_host\<close>, \<open>tiny_host\<close>,
  \<open>empty_cron\<close>, \<open>demo_watch\<close>, \<open>cooling_breaker\<close>), which the witnesses use.

  \<^bold>\<open>Loops.\<close> The job loop and the watcher may run forever: they are partial functions into
  an option, \<open>None\<close> being no return, and that they return is proved from a measure on the world
  (pending wakes). There is no fuel.

  \<^bold>\<open>The build modelled\<close> has all features (\<open>breaker\<close>, \<open>cron\<close>, \<open>leader\<close>, \<open>redis\<close>) and is a
  release build with unwinding panics: the \<open>+ 1\<close> on the \<open>u32\<close> streak wraps.

  \<^bold>\<open>Not modelled.\<close> Drain caps whose deadline is not an \<open>Instant\<close> (in \<open>Drain\<close>; the
  untimed run has them); the derived \<open>Debug\<close> texts other than those of \<open>Trigger\<close>; what an aborted closure leaves in the world of the user's code when its future is dropped (its
  counters are in \<open>Cutoff\<close>: they are written after the last await of a fire, so a fire that is
  dropped before counts as not made); \<open>src/lib.rs\<close> (re-exports), integration tests, benchmarks
  and build files.

  \<^bold>\<open>Divergences found\<close> are stated as theorems: a panic in the call of a closure escapes
  (\<open>call_panic_escapes\<close>), a second leader job of a process starves on Redis
  (\<open>second_leader_job_starves\<close>, \<open>redis_acquire_own_record\<close>), an exhausted schedule fires every
  minute (\<open>exhausted_schedule_fires\<close>), a huge interval panics at the start
  (\<open>huge_interval_panics\<close>), seeding is not reproducible (\<open>seed_not_reproducible\<close>),
  \<open>/dev/null\<close> does not disable the watcher (\<open>dev_null_keeps_polling\<close>), a status may show more
  failures than fires (\<open>status_can_tear\<close>), and the test of the lapsed leader does not reach the
  fallback it is about (\<open>lapsing_lease_never_falls_back\<close>).
\<close>

section \<open>A supervised run, from configuration to report\<close>

definition entry_of :: "('w, 'g) job_spec \<Rightarrow> history \<Rightarrow> job_run_summary" where
  "entry_of sp hs =
     \<lparr>rs_name = spec_name sp, rs_fires = tally invoked hs, rs_failures = tally failed hs,
      rs_skips = tally (\<lambda>h. h = None) hs, rs_paused = tally (\<lambda>h. h = Some Paused) hs,
      rs_degraded = (max 1 (unat (failure_budget sp)) \<le> streak hs), rs_last_error = last_failure hs\<rparr>"

lemma summary_entry:
  "summary (r\<lparr>rstats := stats_of (failure_budget (spec r)) hs\<rparr>) = entry_of (spec r) hs"
  by (simp add: summary_def stats_of_def entry_of_def effective_budget_def)

lemma configured_new:
  fixes B :: "('w, 'b, 'cfg, 'm) breaker_crate" and C :: "('sch, 'dt, 'e) cron_crate" and g :: 'g
  assumes sv: "sv = configured B C ops (worker_supervisor_new cfg now g)"
  shows "map spec (runners sv) = registered C ops" "\<forall>r \<in> set (runners sv). rstats r = stats_default"
proof -
  let ?new = "worker_supervisor_new cfg now g :: ('w, 'g, 'b, 'cfg) worker_supervisor"
  have "runners ?new = []" by (simp add: worker_supervisor_new_def)
  with configured_runners [of B C ops ?new] have "map spec (runners sv) = registered C ops \<and>
      (\<forall>r \<in> set (runners sv). fresh_runner B r)" unfolding sv by auto
  then show "map spec (runners sv) = registered C ops" "\<forall>r \<in> set (runners sv). rstats r = stats_default"
    by (auto simp: fresh_runner_def)
qed



end
